(* ===== verification/Prelude.thy ===== *)
theory Prelude
  imports Main "HOL-Library.Word"
begin

text \<open>
  Shared vocabulary of the development: the machine integers of the C sources, the outcomes a C
  call can have, the errno values, the alignment macros of \<open>sparse_defs.h\<close>, little-endian byte
  images of integers, and the list and word lemmas that several components use.

  An \<open>unsigned int\<close> is a \<open>32 word\<close>, so that additions and multiplications wrap as they do in C.
  A signed 64 bit quantity (\<open>int64_t\<close>, \<open>off64_t\<close>) is an \<open>int\<close>: its overflow is undefined in C and
  no value of the modelled code comes near the bound. A C \<open>int\<close> used as a return code is an \<open>int\<close>.
\<close>

unbundle bit_operations_syntax

section \<open>Machine types\<close>

type_synonym u8 = "8 word"
type_synonym u16 = "16 word"
type_synonym u32 = "32 word"
type_synonym u64 = "64 word"
type_synonym bytes = "8 word list"

section \<open>Outcomes of a C call\<close>

text \<open>
  What the C abstract machine leaves undefined or turns into a signal is a \<open>Fault\<close>, and so is a loop
  that never ends: the call does not return. Error codes are ordinary return values.
\<close>

datatype fault =
    Assert_Fail
  | Null_Deref
  | Div_By_Zero
  | Use_After_Free
  | Out_Of_Bounds
  | Diverges

datatype 'a outcome = Ok 'a | Fault fault

fun obind :: "'a outcome \<Rightarrow> ('a \<Rightarrow> 'b outcome) \<Rightarrow> 'b outcome" where
  "obind (Ok x) f = f x"
| "obind (Fault e) f = Fault e"

named_theorems wf_intros \<open>introduction rules for the well-formedness predicates\<close>
named_theorems size_simps \<open>lengths of encoded objects\<close>

lemma obind_eq_Ok [simp]: "obind m f = Ok y \<longleftrightarrow> (\<exists>x. m = Ok x \<and> f x = Ok y)"
  by (cases m) auto

lemma obind_eq_Fault [simp]:
  "obind m f = Fault e \<longleftrightarrow> m = Fault e \<or> (\<exists>x. m = Ok x \<and> f x = Fault e)"
  by (cases m) auto

abbreviation (input) ENOMEM :: int where "ENOMEM \<equiv> 12"
abbreviation (input) EINVAL :: int where "EINVAL \<equiv> 22"
abbreviation (input) EFBIG :: int where "EFBIG \<equiv> 27"
abbreviation (input) INT_MAX :: int where "INT_MAX \<equiv> 2147483647"

section \<open>Alignment macros\<close>

text \<open>The macros at type \<open>unsigned int\<close>; the sum wraps.\<close>

definition DIV_ROUND_UP :: "u32 \<Rightarrow> u32 \<Rightarrow> u32" where
  "DIV_ROUND_UP x y = (x + y - 1) div y"

definition ALIGN :: "u32 \<Rightarrow> u32 \<Rightarrow> u32" where
  "ALIGN x y = y * DIV_ROUND_UP x y"

definition ALIGN_DOWN :: "u32 \<Rightarrow> u32 \<Rightarrow> u32" where
  "ALIGN_DOWN x y = y * (x div y)"

text \<open>\<open>DIV_ROUND_UP\<close> at type \<open>int64_t\<close>, for a non-negative first argument.\<close>

definition DIV_ROUND_UP64 :: "int \<Rightarrow> u32 \<Rightarrow> int" where
  "DIV_ROUND_UP64 x y = (x + uint y - 1) div uint y"

lemma unat_div_u32: "unat ((x :: u32) div y) = unat x div unat y"
  by (simp add: unat_div)

lemma unat_add_u32: "unat (x :: u32) + unat y < 2 ^ 32 \<Longrightarrow> unat (x + y) = unat x + unat y"
  by (simp add: unat_word_ariths)

lemma unat_mult_u32: "unat (x :: u32) * unat y < 2 ^ 32 \<Longrightarrow> unat (x * y) = unat x * unat y"
  by (simp add: unat_word_ariths)

lemma unat_u32_less: "unat (x :: u32) < 4294967296"
  using unsigned_less [of x, where 'a = nat] by simp

lemma unat_sub_u32: "y \<le> (x :: u32) \<Longrightarrow> unat (x - y) = unat x - unat y"
  by (simp add: unat_sub)

lemma word_pos_unat: "(y :: u32) \<noteq> 0 \<longleftrightarrow> 0 < unat y"
  by (simp add: unat_gt_0)

lemma unat_ALIGN_DOWN: "unat (ALIGN_DOWN x y) = unat y * (unat x div unat y)"
proof -
  have "unat y * (unat x div unat y) \<le> unat x" by simp
  also have "\<dots> < 2 ^ 32" using unsigned_less [of x] by simp
  finally show ?thesis by (simp add: ALIGN_DOWN_def unat_mult_u32 unat_div_u32)
qed

lemma unat_DIV_ROUND_UP:
  assumes "y \<noteq> 0" and "unat x + unat y \<le> 2 ^ 32"
  shows "unat (DIV_ROUND_UP x y) = (unat x + unat y - 1) div unat y"
proof -
  have y: "0 < unat y" using assms(1) by (simp add: word_pos_unat)
  have y1: "unat (y - 1) = unat y - 1"
    using y by (metis One_nat_def unat_1 unat_sub word_le_nat_alt less_eq_Suc_le)
  have "unat x + unat (y - 1) < 2 ^ 32"
    using assms(2) y y1 by simp
  then have "unat (x + (y - 1)) = unat x + unat y - 1"
    using y y1 by (simp only: unat_add_u32)
  then have "unat (x + y - 1) = unat x + unat y - 1"
    by (simp add: add_diff_eq)
  then show ?thesis by (simp add: DIV_ROUND_UP_def unat_div_u32)
qed

definition align_up :: "nat \<Rightarrow> nat \<Rightarrow> nat" where
  "align_up n k = k * ((n + k - 1) div k)"

lemma align_up_props:
  assumes "0 < k"
  shows "n \<le> align_up n k" and "align_up n k < n + k" and "k dvd align_up n k"
proof -
  have "align_up n k + (n + k - 1) mod k = n + k - 1" by (simp add: align_up_def)
  moreover have "(n + k - 1) mod k < k" using assms by simp
  ultimately show "n \<le> align_up n k" and "align_up n k < n + k" using assms by linarith+
  show "k dvd align_up n k" by (simp add: align_up_def)
qed

lemma align_up_multiple [simp]: "0 < k \<Longrightarrow> align_up (q * k) k = q * k"
proof -
  assume "0 < k"
  then have "(q * k + k - 1) div k = q" by (intro div_nat_eqI) (simp_all add: algebra_simps)
  then show ?thesis by (simp add: align_up_def)
qed

lemma unat_ALIGN:
  assumes "y \<noteq> 0" and "unat x + unat y \<le> 2 ^ 32"
  shows "unat (ALIGN x y) = align_up (unat x) (unat y)"
proof -
  have "align_up (unat x) (unat y) < 2 ^ 32"
    using align_up_props(2) [of "unat y" "unat x"] assms by (simp add: word_pos_unat)
  then show ?thesis
    using assms by (simp add: ALIGN_def align_up_def unat_DIV_ROUND_UP unat_mult_u32)
qed

lemma DIV_ROUND_UP_eq:
  assumes "y \<noteq> 0" and "unat x + unat y \<le> 2 ^ 32"
  shows "unat (DIV_ROUND_UP x y) * unat y = align_up (unat x) (unat y)"
    and "ALIGN x y div y = DIV_ROUND_UP x y"
proof -
  have y: "0 < unat y" using assms(1) by (simp add: word_pos_unat)
  show "unat (DIV_ROUND_UP x y) * unat y = align_up (unat x) (unat y)"
    by (simp add: unat_DIV_ROUND_UP [OF assms] align_up_def)
  have "unat (ALIGN x y div y) = unat (DIV_ROUND_UP x y)"
    using y by (simp add: unat_div_u32 unat_ALIGN [OF assms] align_up_def unat_DIV_ROUND_UP [OF assms])
  then show "ALIGN x y div y = DIV_ROUND_UP x y" by (simp only: word_unat_eq_iff)
qed

lemma sint_small:
  assumes "unat (x :: u32) < 2 ^ 31"
  shows "sint x = int (unat x)"
proof -
  have "int (unat x) < 2 ^ 31" using assms by (metis of_nat_less_iff of_nat_numeral of_nat_power)
  then have "uint x < 2 ^ 31" by simp
  then have "signed_take_bit 31 (uint x) = uint x"
    by (intro signed_take_bit_int_eq_self) (simp_all add: order_trans [OF _ uint_ge_0])
  then show ?thesis by (simp add: sint_uint)
qed

lemma uint_le_INT_MAX:
  assumes "unat (x :: u32) < 2 ^ 31"
  shows "uint x \<le> INT_MAX"
proof -
  have "unat x \<le> 2147483647" using assms by simp
  then have "int (unat x) \<le> int 2147483647" by (simp only: of_nat_le_iff)
  then show ?thesis by simp
qed

section \<open>Little-endian images of integers\<close>

text \<open>
  The sources write and read C structures directly, so the byte order on disk is that of the
  host; all supported hosts are little-endian, and the format declares its fields \<open>__le\<close>.
\<close>

definition le16 :: "u16 \<Rightarrow> bytes" where
  "le16 w = [ucast w, ucast (drop_bit 8 w)]"

definition le32 :: "u32 \<Rightarrow> bytes" where
  "le32 w = [ucast w, ucast (drop_bit 8 w), ucast (drop_bit 16 w), ucast (drop_bit 24 w)]"

fun un_le16 :: "bytes \<Rightarrow> u16" where
  "un_le16 (a # b # _) = ucast a OR push_bit 8 (ucast b)"
| "un_le16 _ = 0"

fun un_le32 :: "bytes \<Rightarrow> u32" where
  "un_le32 (a # b # c # d # _) =
     ucast a OR push_bit 8 (ucast b) OR push_bit 16 (ucast c) OR push_bit 24 (ucast d)"
| "un_le32 _ = 0"

lemma length_le16 [simp, size_simps]: "length (le16 w) = 2"
  by (simp add: le16_def)

lemma length_le32 [simp, size_simps]: "length (le32 w) = 4"
  by (simp add: le32_def)

lemma un_le16_le16 [simp]: "un_le16 (le16 w @ r) = w"
  unfolding le16_def
  by (auto simp: bit_simps intro!: bit_word_eqI)

lemma un_le32_le32 [simp]: "un_le32 (le32 w @ r) = w"
proof (rule bit_word_eqI)
  fix n
  assume "n < LENGTH(32)"
  then show "bit (un_le32 (le32 w @ r)) n = bit w n"
    by (cases "n < 8"; cases "n < 16"; cases "n < 24"; simp add: le32_def bit_simps; arith)
qed

lemma le32_un_le32:
  assumes "length xs = 4"
  shows "le32 (un_le32 xs) = xs"
proof -
  obtain a b c d where xs: "xs = [a, b, c, d]"
    using assms by (auto simp: numeral_eq_Suc length_Suc_conv)
  have hi: "\<not> bit (x :: u8) (8 + n)" "\<not> bit x (16 + n)" "\<not> bit x (24 + n)" for x n
    by (auto dest: bit_imp_le_length)
  show ?thesis
    unfolding xs le32_def un_le32.simps
    by (auto simp: bit_simps hi intro!: bit_word_eqI)
qed

section \<open>Rounding up to a power of two\<close>

lemma and_not_mask_u32: "unat ((w :: u32) AND NOT (mask n)) = unat w - unat w mod 2 ^ n"
proof -
  have "w AND NOT (mask n) = push_bit n (drop_bit n w)"
    by (rule bit_eqI) (auto simp: bit_simps)
  then have w: "w = (w AND NOT (mask n)) + take_bit n w" using bits_ident [of n w] by simp
  have "unat (take_bit n w) = unat w mod 2 ^ n" unfolding unsigned_take_bit_eq by (simp add: take_bit_eq_mod)
  moreover have "take_bit n w \<le> w" by (simp add: word_le_nat_alt unsigned_take_bit_eq take_bit_nat_less_eq_self)
  then have "unat (w - take_bit n w) = unat w - unat (take_bit n w)" by (rule unat_sub_u32)
  moreover have "w AND NOT (mask n) = w - take_bit n w" using w by (simp add: eq_diff_eq)
  ultimately show ?thesis by simp
qed

end
