(* ===== verification/Backed_Block.thy ===== *)
theory Backed_Block
  imports Prelude
begin

text \<open>
  \<open>libsparse/backed_block.c\<close>: the ordered list of block ranges that back a sparse file, with its
  insertion cache \<open>last_used\<close>, the merging of adjacent ranges, splitting and moving.

  A \<open>struct backed_block\<close> is a record that carries the address it was allocated at. The chain of
  \<open>next\<close> pointers is the order of \<open>data_blocks\<close>; \<open>last_used\<close> is an address, so that a pointer to a
  node that has been freed (a node no longer in the list) can be told from a live one. \<open>next_addr\<close>
  stands for the allocator: it hands out an address that no live node has. The bytes a block stands
  for live in a \<open>media\<close> record: process memory for data blocks, file contents for the others.
\<close>

section \<open>Data\<close>

datatype bb_payload =
    BACKED_BLOCK_DATA (bb_data: nat)
  | BACKED_BLOCK_FILE (bb_filename_ptr: nat) (bb_filename: string) (bb_file_offset: int)
  | BACKED_BLOCK_FD (bb_fd: int) (bb_fd_offset: int)
  | BACKED_BLOCK_FILL (bb_fill_val: u32)

record backed_block =
  bb_addr :: nat
  bb_block :: u32
  bb_len :: u32
  bb_payload :: bb_payload

record backed_block_list =
  data_blocks :: "backed_block list"
  last_used :: "nat option"
  bbl_block_size :: u32
  next_addr :: nat

fun same_type :: "bb_payload \<Rightarrow> bb_payload \<Rightarrow> bool" where
  "same_type (BACKED_BLOCK_DATA _) (BACKED_BLOCK_DATA _) = True"
| "same_type (BACKED_BLOCK_FILE _ _ _) (BACKED_BLOCK_FILE _ _ _) = True"
| "same_type (BACKED_BLOCK_FD _ _) (BACKED_BLOCK_FD _ _) = True"
| "same_type (BACKED_BLOCK_FILL _) (BACKED_BLOCK_FILL _) = True"
| "same_type _ _ = False"

text \<open>What blocks refer to: process memory, named files and open file descriptors.\<close>

record media =
  memory :: "nat \<Rightarrow> u8"
  file_byte :: "string \<Rightarrow> int \<Rightarrow> u8"
  fd_byte :: "int \<Rightarrow> int \<Rightarrow> u8"

section \<open>The chain of nodes\<close>

text \<open>
  \<open>from_node p l\<close> is the chain that starts at the node with address \<open>p\<close>, \<open>upto_node p l\<close> what comes
  before it; both are what following \<open>next\<close> pointers yields.
\<close>

definition from_node :: "nat \<Rightarrow> backed_block list \<Rightarrow> backed_block list" where
  "from_node p l = dropWhile (\<lambda>b. bb_addr b \<noteq> p) l"

definition upto_node :: "nat \<Rightarrow> backed_block list \<Rightarrow> backed_block list" where
  "upto_node p l = takeWhile (\<lambda>b. bb_addr b \<noteq> p) l"

definition node_at :: "nat \<Rightarrow> backed_block list \<Rightarrow> backed_block option" where
  "node_at p l = (case from_node p l of [] \<Rightarrow> None | b # _ \<Rightarrow> Some b)"

definition node_next :: "nat \<Rightarrow> backed_block list \<Rightarrow> nat option" where
  "node_next p l = (case from_node p l of _ # b # _ \<Rightarrow> Some (bb_addr b) | _ \<Rightarrow> None)"

section \<open>Operations\<close>

definition backed_block_list_new :: "u32 \<Rightarrow> backed_block_list" where
  "backed_block_list_new bs =
     \<lparr>data_blocks = [], last_used = None, bbl_block_size = bs, next_addr = 0\<rparr>"

text \<open>
  \<open>backed_block_list_move\<close>: \<open>NULL\<close> as \<open>start\<close> means the head of \<open>from\<close>, \<open>NULL\<close> as \<open>end\<close> the last node of
  the chain from \<open>start\<close>. The result is the pair of lists. The nodes \<open>start\<close> and \<open>end\<close> point to have
  to be in \<open>from\<close>, in this order.
\<close>

fun insert_chain :: "backed_block list \<Rightarrow> backed_block list \<Rightarrow> backed_block list" where
  "insert_chain seg [] = []"
| "insert_chain seg [b] = b # seg"
| "insert_chain seg (b # c # l) =
     (if bb_block c > bb_block (hd seg) then b # seg @ c # l else b # insert_chain seg (c # l))"

definition backed_block_list_move ::
  "backed_block_list \<Rightarrow> backed_block_list \<Rightarrow> nat option \<Rightarrow> nat option
    \<Rightarrow> (backed_block_list \<times> backed_block_list) outcome" where
  "backed_block_list_move from to start end =
     (let start = (case start of Some p \<Rightarrow> Some p
                   | None \<Rightarrow> (case data_blocks from of [] \<Rightarrow> None | b # _ \<Rightarrow> Some (bb_addr b)));
          end = (case end of Some q \<Rightarrow> Some q
                 | None \<Rightarrow> (case start of None \<Rightarrow> None
                            | Some p \<Rightarrow> (case from_node p (data_blocks from) of [] \<Rightarrow> None
                                         | ch \<Rightarrow> Some (bb_addr (last ch)))))
      in case (start, end) of
           (Some p, Some q) \<Rightarrow>
             (case from_node q (from_node p (data_blocks from)) of
                [] \<Rightarrow> Fault Use_After_Free
              | e # rest \<Rightarrow>
                  let seg = upto_node q (from_node p (data_blocks from)) @ [e]
                  in Ok (from\<lparr>last_used := None,
                              data_blocks := upto_node p (data_blocks from) @ rest\<rparr>,
                         to\<lparr>last_used := None,
                            data_blocks := (if data_blocks to = [] then seg
                                            else insert_chain seg (data_blocks to)),
                            next_addr := max (next_addr to) (next_addr from)\<rparr>))
         | _ \<Rightarrow> Ok (from, to))"

text \<open>
  \<open>merge_bb\<close> on the pointers \<open>a\<close> and \<open>b\<close> (\<open>None\<close> is \<open>NULL\<close>). \<open>mergeable\<close> is the \<open>switch\<close> on the
  type of the two blocks.
\<close>

fun mergeable :: "backed_block \<Rightarrow> bb_payload \<Rightarrow> bb_payload \<Rightarrow> bool" where
  "mergeable a (BACKED_BLOCK_FILL v) (BACKED_BLOCK_FILL w) \<longleftrightarrow> v = w"
| "mergeable a (BACKED_BLOCK_FILE p _ off) (BACKED_BLOCK_FILE q _ off') \<longleftrightarrow>
     p = q \<and> off + int (unat (bb_len a)) = off'"
| "mergeable a (BACKED_BLOCK_FD fd off) (BACKED_BLOCK_FD fd' off') \<longleftrightarrow>
     fd = fd' \<and> off + int (unat (bb_len a)) = off'"
| "mergeable a _ _ \<longleftrightarrow> False"

definition merge_bb ::
  "backed_block_list \<Rightarrow> nat option \<Rightarrow> nat option \<Rightarrow> (int \<times> backed_block_list) outcome" where
  "merge_bb bbl pa pb =
     (case (pa, pb) of
        (Some p, Some q) \<Rightarrow>
          (case (node_at p (data_blocks bbl), node_at q (data_blocks bbl)) of
             (Some a, Some b) \<Rightarrow>
               if \<not> bb_block a < bb_block b then Fault Assert_Fail
               else if \<not> same_type (bb_payload a) (bb_payload b) then Ok (- EINVAL, bbl)
               else if bbl_block_size bbl = 0 then Fault Div_By_Zero
               else if bb_block a + bb_len a div bbl_block_size bbl \<noteq> bb_block b
                 then Ok (- EINVAL, bbl)
               else if \<not> mergeable a (bb_payload a) (bb_payload b) then Ok (- EINVAL, bbl)
               else Ok (0, bbl\<lparr>data_blocks :=
                              upto_node p (data_blocks bbl)
                              @ a\<lparr>bb_len := bb_len a + bb_len b\<rparr>
                              # tl (from_node q (data_blocks bbl))\<rparr>)
           | _ \<Rightarrow> Fault Use_After_Free)
      | _ \<Rightarrow> Ok (- EINVAL, bbl))"

text \<open>
  The search loop of \<open>queue_bb\<close>: \<open>scan_from n l\<close> follows \<open>next\<close> from the first node of \<open>l\<close> while the
  next block is below \<open>n\<close>. It returns the nodes up to and including the one the loop stops at, and
  the chain behind that node.
\<close>

fun scan_from :: "u32 \<Rightarrow> backed_block list \<Rightarrow> backed_block list \<times> backed_block list" where
  "scan_from n [] = ([], [])"
| "scan_from n [b] = ([b], [])"
| "scan_from n (b # c # l) =
     (if bb_block c < n then (let (pre, rest) = scan_from n (c # l) in (b # pre, rest))
      else ([b], c # l))"

definition queue_insert ::
  "backed_block_list \<Rightarrow> nat \<Rightarrow> backed_block \<Rightarrow> (int \<times> backed_block_list) outcome" where
  "queue_insert bbl p new_bb =
     (let (pre, rest) = scan_from (bb_block new_bb) (from_node p (data_blocks bbl));
          bbl1 = bbl\<lparr>last_used := Some (bb_addr new_bb),
                     data_blocks := upto_node p (data_blocks bbl) @ pre @ new_bb # rest\<rparr>
      in obind (merge_bb bbl1 (Some (bb_addr new_bb)) (node_next (bb_addr new_bb) (data_blocks bbl1)))
           (\<lambda>(_, bbl2). obind (merge_bb bbl2 (Some (bb_addr (last pre))) (Some (bb_addr new_bb)))
              (\<lambda>(_, bbl3). Ok (0, bbl3))))"

definition queue_bb ::
  "backed_block_list \<Rightarrow> backed_block \<Rightarrow> (int \<times> backed_block_list) outcome" where
  "queue_bb bbl new_bb =
     (case data_blocks bbl of
        [] \<Rightarrow> Ok (0, bbl\<lparr>data_blocks := [new_bb]\<rparr>)
      | hd_bb # _ \<Rightarrow>
          if bb_block hd_bb > bb_block new_bb
          then Ok (0, bbl\<lparr>data_blocks := new_bb # data_blocks bbl\<rparr>)
          else (case last_used bbl of
                  None \<Rightarrow> queue_insert bbl (bb_addr hd_bb) new_bb
                | Some p \<Rightarrow>
                    (case node_at p (data_blocks bbl) of
                       None \<Rightarrow> Fault Use_After_Free
                     | Some lu \<Rightarrow>
                         if bb_block new_bb > bb_block lu then queue_insert bbl p new_bb
                         else queue_insert bbl (bb_addr hd_bb) new_bb)))"

text \<open>
  The four \<open>backed_block_add_*\<close> functions. \<open>alloc_ok\<close> tells whether \<open>calloc\<close> succeeds; a new node gets
  the next free address. \<open>strdup\<close> returns a pointer of its own, taken from the same counter.
\<close>

definition backed_block_add ::
  "bool \<Rightarrow> backed_block_list \<Rightarrow> bb_payload \<Rightarrow> u32 \<Rightarrow> u32 \<Rightarrow> (int \<times> backed_block_list) outcome" where
  "backed_block_add alloc_ok bbl pl len block =
     (if \<not> alloc_ok then Ok (- ENOMEM, bbl)
      else queue_bb (bbl\<lparr>next_addr := next_addr bbl + 1\<rparr>)
             \<lparr>bb_addr = next_addr bbl, bb_block = block, bb_len = len, bb_payload = pl\<rparr>)"

definition backed_block_add_fill ::
  "bool \<Rightarrow> backed_block_list \<Rightarrow> u32 \<Rightarrow> u32 \<Rightarrow> u32 \<Rightarrow> (int \<times> backed_block_list) outcome" where
  "backed_block_add_fill alloc_ok bbl fill_val len block =
     backed_block_add alloc_ok bbl (BACKED_BLOCK_FILL fill_val) len block"

definition backed_block_add_data ::
  "bool \<Rightarrow> backed_block_list \<Rightarrow> nat \<Rightarrow> u32 \<Rightarrow> u32 \<Rightarrow> (int \<times> backed_block_list) outcome" where
  "backed_block_add_data alloc_ok bbl data len block =
     backed_block_add alloc_ok bbl (BACKED_BLOCK_DATA data) len block"

definition backed_block_add_file ::
  "bool \<Rightarrow> backed_block_list \<Rightarrow> string \<Rightarrow> int \<Rightarrow> u32 \<Rightarrow> u32 \<Rightarrow> (int \<times> backed_block_list) outcome" where
  "backed_block_add_file alloc_ok bbl filename offset len block =
     backed_block_add alloc_ok bbl (BACKED_BLOCK_FILE (next_addr bbl) filename offset) len block"

definition backed_block_add_fd ::
  "bool \<Rightarrow> backed_block_list \<Rightarrow> int \<Rightarrow> int \<Rightarrow> u32 \<Rightarrow> u32 \<Rightarrow> (int \<times> backed_block_list) outcome" where
  "backed_block_add_fd alloc_ok bbl fd offset len block =
     backed_block_add alloc_ok bbl (BACKED_BLOCK_FD fd offset) len block"

text \<open>
  \<open>backed_block_split\<close>: the second half is a copy of the node with its payload advanced. After \<open>malloc\<close> the
  code tests \<open>bb\<close> where it means \<open>new_bb\<close>, so a failed allocation is written through.
\<close>

fun advance_payload :: "bb_payload \<Rightarrow> u32 \<Rightarrow> bb_payload" where
  "advance_payload (BACKED_BLOCK_DATA p) n = BACKED_BLOCK_DATA (p + unat n)"
| "advance_payload (BACKED_BLOCK_FILE q f off) n = BACKED_BLOCK_FILE q f (off + int (unat n))"
| "advance_payload (BACKED_BLOCK_FD fd off) n = BACKED_BLOCK_FD fd (off + int (unat n))"
| "advance_payload (BACKED_BLOCK_FILL v) n = BACKED_BLOCK_FILL v"

definition backed_block_split ::
  "bool \<Rightarrow> backed_block_list \<Rightarrow> nat \<Rightarrow> u32 \<Rightarrow> (int \<times> backed_block_list) outcome" where
  "backed_block_split alloc_ok bbl p max_len =
     (if bbl_block_size bbl = 0 then Fault Div_By_Zero
      else
        let max_len = ALIGN_DOWN max_len (bbl_block_size bbl)
        in case from_node p (data_blocks bbl) of
             [] \<Rightarrow> Fault Use_After_Free
           | bb # rest \<Rightarrow>
               if bb_len bb \<le> max_len then Ok (0, bbl)
               else if \<not> alloc_ok then Fault Null_Deref
               else
                 let new_bb = bb\<lparr>bb_addr := next_addr bbl,
                                 bb_len := bb_len bb - max_len,
                                 bb_block := bb_block bb + max_len div bbl_block_size bbl,
                                 bb_payload := advance_payload (bb_payload bb) max_len\<rparr>
                 in Ok (0, bbl\<lparr>next_addr := next_addr bbl + 1,
                               data_blocks := upto_node p (data_blocks bbl)
                                 @ bb\<lparr>bb_len := max_len\<rparr> # new_bb # rest\<rparr>))"

text \<open>
  Destroying nodes and lists. \<open>heap\<close> holds the addresses of the live nodes and the pointers to live file
  names; freeing what is not live is a fault.
\<close>

record heap =
  live_nodes :: "nat set"
  live_names :: "nat set"

definition backed_block_destroy :: "heap \<Rightarrow> backed_block \<Rightarrow> heap outcome" where
  "backed_block_destroy h bb =
     obind (case bb_payload bb of
              BACKED_BLOCK_FILE q _ _ \<Rightarrow>
                (if q \<in> live_names h then Ok (h\<lparr>live_names := live_names h - {q}\<rparr>) else Fault Use_After_Free)
            | _ \<Rightarrow> Ok h)
       (\<lambda>h1. if bb_addr bb \<in> live_nodes h1 then Ok (h1\<lparr>live_nodes := live_nodes h1 - {bb_addr bb}\<rparr>)
             else Fault Use_After_Free)"

fun destroy_loop :: "heap \<Rightarrow> backed_block list \<Rightarrow> heap outcome" where
  "destroy_loop h [] = Ok h"
| "destroy_loop h (bb # l) = obind (backed_block_destroy h bb) (\<lambda>h1. destroy_loop h1 l)"

definition backed_block_list_destroy :: "heap \<Rightarrow> backed_block_list \<Rightarrow> heap outcome" where
  "backed_block_list_destroy h bbl = destroy_loop h (data_blocks bbl)"

end
