(* ===== verification/Output_File.thy ===== *)
theory Output_File
  imports Backed_Block Sparse_Crc32
begin

text \<open>
  \<open>libsparse/output_file.c\<close> and \<open>sparse_format.h\<close>: the writer of sparse images. The table of function
  pointers \<open>struct output_file_ops\<close> is a record of operations on a device state \<open>'s\<close>; there is one such
  record for plain files, one for gzip streams (over the functions of zlib, which are a parameter) and
  one for callbacks. \<open>struct sparse_file_ops\<close> has two instances, which a tag selects.
\<close>

section \<open>On-disk structures\<close>

record sparse_header =
  magic :: u32
  major_version :: u16
  minor_version :: u16
  file_hdr_sz :: u16
  chunk_hdr_sz :: u16
  blk_sz :: u32
  total_blks :: u32
  total_chunks :: u32
  image_checksum :: u32

record chunk_header =
  chunk_type :: u16
  reserved1 :: u16
  chunk_sz :: u32
  total_sz :: u32

abbreviation (input) SPARSE_HEADER_MAGIC :: u32 where "SPARSE_HEADER_MAGIC \<equiv> 0xed26ff3a"
abbreviation (input) CHUNK_TYPE_RAW :: u16 where "CHUNK_TYPE_RAW \<equiv> 0xCAC1"
abbreviation (input) CHUNK_TYPE_FILL :: u16 where "CHUNK_TYPE_FILL \<equiv> 0xCAC2"
abbreviation (input) CHUNK_TYPE_DONT_CARE :: u16 where "CHUNK_TYPE_DONT_CARE \<equiv> 0xCAC3"
abbreviation (input) CHUNK_TYPE_CRC32 :: u16 where "CHUNK_TYPE_CRC32 \<equiv> 0xCAC4"

abbreviation (input) SPARSE_HEADER_LEN :: nat where "SPARSE_HEADER_LEN \<equiv> 28"
abbreviation (input) CHUNK_HEADER_LEN :: nat where "CHUNK_HEADER_LEN \<equiv> 12"

definition sparse_header_bytes :: "sparse_header \<Rightarrow> bytes" where
  "sparse_header_bytes h =
     le32 (magic h) @ le16 (major_version h) @ le16 (minor_version h) @ le16 (file_hdr_sz h) @
     le16 (chunk_hdr_sz h) @ le32 (blk_sz h) @ le32 (total_blks h) @ le32 (total_chunks h) @
     le32 (image_checksum h)"

definition chunk_header_bytes :: "chunk_header \<Rightarrow> bytes" where
  "chunk_header_bytes h = le16 (chunk_type h) @ le16 (reserved1 h) @ le32 (chunk_sz h) @ le32 (total_sz h)"

section \<open>Devices\<close>

record 's output_file_ops =
  ops_skip :: "'s \<Rightarrow> int \<Rightarrow> int \<times> 's"
  ops_pad :: "'s \<Rightarrow> int \<Rightarrow> int \<times> 's"
  ops_write :: "'s \<Rightarrow> bytes \<Rightarrow> int \<Rightarrow> int \<times> 's"

text \<open>
  A plain file as \<open>write\<close>, \<open>lseek64\<close> and \<open>ftruncate64\<close> see it: contents, position and the space left
  by the file system. A write past the end leaves a hole of zeros, a write that hits the limit is short,
  a negative count fails.
\<close>

record posix_file =
  pf_contents :: bytes
  pf_pos :: nat
  pf_limit :: nat

definition overwrite :: "bytes \<Rightarrow> nat \<Rightarrow> bytes \<Rightarrow> bytes" where
  "overwrite c p d = take p c @ replicate (p - length c) 0 @ d @ drop (p + length d) c"

definition sys_write :: "posix_file \<Rightarrow> bytes \<Rightarrow> int \<Rightarrow> int \<times> posix_file" where
  "sys_write f data n =
     (if n < 0 then (-1, f)
      else let k = min (nat n) (pf_limit f - pf_pos f)
           in if k = 0 \<and> 0 < n then (-1, f)
              else (int k, f\<lparr>pf_contents := overwrite (pf_contents f) (pf_pos f) (take k data),
                             pf_pos := pf_pos f + k\<rparr>))"

definition sys_lseek_cur :: "posix_file \<Rightarrow> int \<Rightarrow> int \<times> posix_file" where
  "sys_lseek_cur f cnt =
     (let p = int (pf_pos f) + cnt in if p < 0 then (-1, f) else (p, f\<lparr>pf_pos := nat p\<rparr>))"

definition sys_ftruncate :: "posix_file \<Rightarrow> int \<Rightarrow> int \<times> posix_file" where
  "sys_ftruncate f n =
     (if n < 0 then (- EINVAL, f)
      else if pf_limit f < nat n then (- EFBIG, f)
      else (0, f\<lparr>pf_contents := take (nat n) (pf_contents f) @ replicate (nat n - length (pf_contents f)) 0\<rparr>))"

definition file_skip :: "posix_file \<Rightarrow> int \<Rightarrow> int \<times> posix_file" where
  "file_skip f cnt = (let (ret, f') = sys_lseek_cur f cnt in if ret < 0 then (-1, f') else (0, f'))"

definition file_pad :: "posix_file \<Rightarrow> int \<Rightarrow> int \<times> posix_file" where
  "file_pad f n = (let (ret, f') = sys_ftruncate f n in if ret < 0 then (ret, f') else (0, f'))"

definition file_write :: "posix_file \<Rightarrow> bytes \<Rightarrow> int \<Rightarrow> int \<times> posix_file" where
  "file_write f data n =
     (let (ret, f') = sys_write f data n
      in if ret < 0 then (-1, f') else if ret < n then (-1, f') else (0, f'))"

definition file_ops :: "posix_file output_file_ops" where
  "file_ops = \<lparr>ops_skip = file_skip, ops_pad = file_pad, ops_write = file_write\<rparr>"

text \<open>The functions of zlib that the gzip device calls.\<close>

record 'z zlib =
  gzseek_cur :: "'z \<Rightarrow> int \<Rightarrow> int \<times> 'z"
  gzseek_set :: "'z \<Rightarrow> int \<Rightarrow> int \<times> 'z"
  gztell :: "'z \<Rightarrow> int"
  gzwrite :: "'z \<Rightarrow> bytes \<Rightarrow> int \<Rightarrow> int \<times> 'z"

definition gz_file_skip :: "'z zlib \<Rightarrow> 'z \<Rightarrow> int \<Rightarrow> int \<times> 'z" where
  "gz_file_skip z f cnt = (let (ret, f') = gzseek_cur z f cnt in if ret < 0 then (-1, f') else (0, f'))"

definition gz_file_pad :: "'z zlib \<Rightarrow> 'z \<Rightarrow> int \<Rightarrow> int \<times> 'z" where
  "gz_file_pad z f n =
     (let ret = gztell z f
      in if ret < 0 then (-1, f)
         else if ret \<ge> n then (0, f)
         else let (ret, f') = gzseek_set z f (n - 1)
              in if ret < 0 then (-1, f') else (0, snd (gzwrite z f' [0] 1)))"

definition gz_file_write :: "'z zlib \<Rightarrow> 'z \<Rightarrow> bytes \<Rightarrow> int \<Rightarrow> int \<times> 'z" where
  "gz_file_write z f data n =
     (let (ret, f') = gzwrite z f data n
      in if ret < 0 then (-1, f') else if ret < n then (-1, f') else (0, f'))"

definition gz_file_ops :: "'z zlib \<Rightarrow> 'z output_file_ops" where
  "gz_file_ops z = \<lparr>ops_skip = gz_file_skip z, ops_pad = gz_file_pad z, ops_write = gz_file_write z\<rparr>"

text \<open>The callback device; \<open>None\<close> is the \<open>NULL\<close> data pointer that announces a skipped region.\<close>

type_synonym 'p callback = "'p \<Rightarrow> bytes option \<Rightarrow> int \<Rightarrow> int \<times> 'p"

function callback_file_skip :: "'p callback \<Rightarrow> 'p \<Rightarrow> int \<Rightarrow> int \<times> 'p" where
  "callback_file_skip wr p off =
     (if off > 0 then
        (let to_write = min off INT_MAX; (ret, p') = wr p None to_write
         in if ret < 0 then (ret, p') else callback_file_skip wr p' (off - to_write))
      else (0, p))"
  by pat_completeness auto
termination
  by (relation "measure (\<lambda>(_, _, off). nat off)") auto

declare callback_file_skip.simps [simp del]

definition callback_file_pad :: "'p \<Rightarrow> int \<Rightarrow> int \<times> 'p" where
  "callback_file_pad p n = (-1, p)"

definition callback_file_write :: "'p callback \<Rightarrow> 'p \<Rightarrow> bytes \<Rightarrow> int \<Rightarrow> int \<times> 'p" where
  "callback_file_write wr p data n = wr p (Some data) n"

definition callback_file_ops :: "'p callback \<Rightarrow> 'p output_file_ops" where
  "callback_file_ops wr =
     \<lparr>ops_skip = callback_file_skip wr, ops_pad = callback_file_pad, ops_write = callback_file_write wr\<rparr>"

section \<open>The output file\<close>

datatype sparse_mode = sparse_file_ops | normal_file_ops

record 's output_file =
  cur_out_ptr :: int
  chunk_cnt :: u32
  out_crc32 :: u32
  ops :: "'s output_file_ops"
  sparse_ops :: sparse_mode
  use_crc :: bool
  out_block_size :: u32
  out_len :: int
  zero_buf :: bytes
  fill_buf :: bytes
  dev :: 's

definition out_write :: "'s output_file \<Rightarrow> bytes \<Rightarrow> int \<Rightarrow> int \<times> 's output_file" where
  "out_write out data n = (let (ret, d) = ops_write (ops out) (dev out) data n in (ret, out\<lparr>dev := d\<rparr>))"

definition out_skip :: "'s output_file \<Rightarrow> int \<Rightarrow> int \<times> 's output_file" where
  "out_skip out n = (let (ret, d) = ops_skip (ops out) (dev out) n in (ret, out\<lparr>dev := d\<rparr>))"

definition out_pad :: "'s output_file \<Rightarrow> int \<Rightarrow> int \<times> 's output_file" where
  "out_pad out n = (let (ret, d) = ops_pad (ops out) (dev out) n in (ret, out\<lparr>dev := d\<rparr>))"

section \<open>Chunks of the sparse format\<close>

text \<open>
  The chunk writers return the C return code and the output file. \<open>skip_len\<close> is never negative: it is a
  product of unsigned values or a difference the caller has checked.
\<close>

definition write_sparse_skip_chunk ::
  "'s output_file \<Rightarrow> int \<Rightarrow> (int \<times> 's output_file) outcome" where
  "write_sparse_skip_chunk out skip_len =
     (if out_block_size out = 0 then Fault Div_By_Zero
      else if skip_len mod uint (out_block_size out) \<noteq> 0 then Ok (-1, out)
      else
        let h = \<lparr>chunk_type = CHUNK_TYPE_DONT_CARE, reserved1 = 0,
                 chunk_sz = word_of_int (skip_len div uint (out_block_size out)),
                 total_sz = of_nat CHUNK_HEADER_LEN\<rparr>;
            (ret, out1) = out_write out (chunk_header_bytes h) (int CHUNK_HEADER_LEN)
        in if ret < 0 then Ok (-1, out1)
           else Ok (0, out1\<lparr>cur_out_ptr := cur_out_ptr out1 + skip_len, chunk_cnt := chunk_cnt out1 + 1\<rparr>))"

fun crc_repeat :: "nat \<Rightarrow> u32 \<Rightarrow> bytes \<Rightarrow> u32" where
  "crc_repeat 0 crc b = crc"
| "crc_repeat (Suc n) crc b = crc_repeat n (sparse_crc32 crc b) b"

definition write_sparse_fill_chunk ::
  "'s output_file \<Rightarrow> u32 \<Rightarrow> u32 \<Rightarrow> (int \<times> 's output_file) outcome" where
  "write_sparse_fill_chunk out len fill_val =
     (if out_block_size out = 0 then Fault Div_By_Zero
      else
        let rnd_up_len = ALIGN len (out_block_size out);
            h = \<lparr>chunk_type = CHUNK_TYPE_FILL, reserved1 = 0,
                 chunk_sz = rnd_up_len div out_block_size out,
                 total_sz = of_nat CHUNK_HEADER_LEN + 4\<rparr>;
            (ret, out1) = out_write out (chunk_header_bytes h) (int CHUNK_HEADER_LEN)
        in if ret < 0 then Ok (-1, out1)
           else
             let (ret, out2) = out_write out1 (le32 fill_val) 4
             in if ret < 0 then Ok (-1, out2)
                else
                  let out3 = (if use_crc out2
                              then out2\<lparr>out_crc32 := crc_repeat (unat (out_block_size out2 div 4))
                                                     (out_crc32 out2) (le32 fill_val)\<rparr>
                              else out2)
                  in Ok (0, out3\<lparr>cur_out_ptr := cur_out_ptr out3 + sint rnd_up_len,
                                 chunk_cnt := chunk_cnt out3 + 1\<rparr>))"

definition write_sparse_data_chunk ::
  "'s output_file \<Rightarrow> u32 \<Rightarrow> bytes \<Rightarrow> (int \<times> 's output_file) outcome" where
  "write_sparse_data_chunk out len data =
     (if out_block_size out = 0 then Fault Div_By_Zero
      else
        let rnd_up_len = ALIGN len (out_block_size out);
            zero_len = rnd_up_len - len;
            h = \<lparr>chunk_type = CHUNK_TYPE_RAW, reserved1 = 0,
                 chunk_sz = rnd_up_len div out_block_size out,
                 total_sz = of_nat CHUNK_HEADER_LEN + rnd_up_len\<rparr>;
            (ret, out1) = out_write out (chunk_header_bytes h) (int CHUNK_HEADER_LEN)
        in if ret < 0 then Ok (-1, out1)
           else
             let (ret, out2) = out_write out1 data (sint len)
             in if ret < 0 then Ok (-1, out2)
                else
                  let (ret, out3) = (if zero_len \<noteq> 0
                                     then out_write out2 (take (unat zero_len) (zero_buf out2)) (sint zero_len)
                                     else (0, out2))
                  in if ret < 0 then Ok (-1, out3)
                     else
                       let out4 = (if use_crc out3
                                   then let c = sparse_crc32 (out_crc32 out3) data
                                        in out3\<lparr>out_crc32 :=
                                             (if zero_len \<noteq> 0
                                              then sparse_crc32 c (take (unat zero_len) (zero_buf out3))
                                              else c)\<rparr>
                                   else out3)
                       in Ok (0, out4\<lparr>cur_out_ptr := cur_out_ptr out4 + sint rnd_up_len,
                                      chunk_cnt := chunk_cnt out4 + 1\<rparr>))"

text \<open>The result of the second write is not looked at.\<close>

definition write_sparse_end_chunk :: "'s output_file \<Rightarrow> int \<times> 's output_file" where
  "write_sparse_end_chunk out =
     (if use_crc out then
        let h = \<lparr>chunk_type = CHUNK_TYPE_CRC32, reserved1 = 0, chunk_sz = 0,
                 total_sz = of_nat CHUNK_HEADER_LEN + 4\<rparr>;
            (ret, out1) = out_write out (chunk_header_bytes h) (int CHUNK_HEADER_LEN)
        in if ret < 0 then (ret, out1)
           else let (_, out2) = out_write out1 (le32 (out_crc32 out1)) 4
                in (0, out2\<lparr>chunk_cnt := chunk_cnt out2 + 1\<rparr>)
      else (0, out))"

section \<open>The expanded format\<close>

definition write_normal_data_chunk ::
  "'s output_file \<Rightarrow> u32 \<Rightarrow> bytes \<Rightarrow> (int \<times> 's output_file) outcome" where
  "write_normal_data_chunk out len data =
     (if out_block_size out = 0 then Fault Div_By_Zero
      else
        let rnd_up_len = ALIGN len (out_block_size out);
            (ret, out1) = out_write out data (sint len)
        in if ret < 0 then Ok (ret, out1)
           else if rnd_up_len > len then Ok (out_skip out1 (uint (rnd_up_len - len)))
           else Ok (ret, out1))"

function normal_fill_loop :: "'s output_file \<Rightarrow> u32 \<Rightarrow> (int \<times> 's output_file) outcome" where
  "normal_fill_loop out len =
     (if len = 0 then Ok (0, out)
      else if out_block_size out = 0 then Fault Diverges
      else
        let write_len = min len (out_block_size out);
            (ret, d) = ops_write (ops out) (dev out) (take (unat write_len) (fill_buf out)) (sint write_len)
        in if ret < 0 then Ok (ret, out\<lparr>dev := d\<rparr>)
           else normal_fill_loop (out\<lparr>dev := d\<rparr>) (len - write_len))"
  by pat_completeness auto
termination
proof (relation "measure (\<lambda>(_, len). unat len)")
  fix out :: "'s output_file" and len w :: u32 and x ret d
  assume "len \<noteq> 0" "out_block_size out \<noteq> 0" "w = min len (out_block_size out)"
  then have "0 < unat w" "w \<le> len" by (auto simp: min_def unat_gt_0)
  then have "unat (len - w) < unat len"
    by (simp add: unat_sub word_le_nat_alt)
  then show "((out\<lparr>dev := d\<rparr>, len - w), out, len) \<in> measure (\<lambda>(_, len). unat len)" by simp
qed simp

declare normal_fill_loop.simps [simp del]

definition write_normal_fill_chunk ::
  "'s output_file \<Rightarrow> u32 \<Rightarrow> u32 \<Rightarrow> (int \<times> 's output_file) outcome" where
  "write_normal_fill_chunk out len fill_val =
     (let n = unat (out_block_size out div 4)
      in normal_fill_loop
           (out\<lparr>fill_buf := concat (replicate n (le32 fill_val)) @ drop (4 * n) (fill_buf out)\<rparr>) len)"

definition write_normal_skip_chunk :: "'s output_file \<Rightarrow> int \<Rightarrow> int \<times> 's output_file" where
  "write_normal_skip_chunk out n = out_skip out n"

definition write_normal_end_chunk :: "'s output_file \<Rightarrow> int \<times> 's output_file" where
  "write_normal_end_chunk out = out_pad out (out_len out)"

section \<open>Dispatch, opening and closing\<close>

definition write_data_chunk :: "'s output_file \<Rightarrow> u32 \<Rightarrow> bytes \<Rightarrow> (int \<times> 's output_file) outcome" where
  "write_data_chunk out len data =
     (case sparse_ops out of sparse_file_ops \<Rightarrow> write_sparse_data_chunk out len data
      | normal_file_ops \<Rightarrow> write_normal_data_chunk out len data)"

definition write_fill_chunk :: "'s output_file \<Rightarrow> u32 \<Rightarrow> u32 \<Rightarrow> (int \<times> 's output_file) outcome" where
  "write_fill_chunk out len fill_val =
     (case sparse_ops out of sparse_file_ops \<Rightarrow> write_sparse_fill_chunk out len fill_val
      | normal_file_ops \<Rightarrow> write_normal_fill_chunk out len fill_val)"

definition write_skip_chunk :: "'s output_file \<Rightarrow> int \<Rightarrow> (int \<times> 's output_file) outcome" where
  "write_skip_chunk out n =
     (case sparse_ops out of sparse_file_ops \<Rightarrow> write_sparse_skip_chunk out n
      | normal_file_ops \<Rightarrow> Ok (write_normal_skip_chunk out n))"

definition write_end_chunk :: "'s output_file \<Rightarrow> int \<times> 's output_file" where
  "write_end_chunk out =
     (case sparse_ops out of sparse_file_ops \<Rightarrow> write_sparse_end_chunk out
      | normal_file_ops \<Rightarrow> write_normal_end_chunk out)"

text \<open>
  The world the writer reads from: the bytes, whether \<open>mmap64\<close> of a range of a descriptor succeeds (0 or a
  negative errno) and which descriptor \<open>open\<close> returns for a name (or a negative errno).
\<close>

record io_env =
  env_media :: media
  env_mmap :: "int \<Rightarrow> int \<Rightarrow> int \<Rightarrow> int"
  env_open :: "string \<Rightarrow> int"

definition write_fd_chunk ::
  "io_env \<Rightarrow> 's output_file \<Rightarrow> u32 \<Rightarrow> int \<Rightarrow> int \<Rightarrow> (int \<times> 's output_file) outcome" where
  "write_fd_chunk env out len fd offset =
     (let aligned_offset = offset AND NOT (4096 - 1);
          aligned_diff = offset - aligned_offset;
          buffer_size = uint len + aligned_diff;
          ret = env_mmap env fd aligned_offset buffer_size
      in if ret < 0 then Ok (ret, out)
         else
           let data = map (\<lambda>i. fd_byte (env_media env) fd (aligned_offset + int i)) [0..<nat buffer_size];
               ptr = drop (nat aligned_diff) data
           in write_data_chunk out len ptr)"

definition write_file_chunk ::
  "io_env \<Rightarrow> 's output_file \<Rightarrow> u32 \<Rightarrow> string \<Rightarrow> int \<Rightarrow> (int \<times> 's output_file) outcome" where
  "write_file_chunk env out len file offset =
     (let file_fd = env_open env file
      in if file_fd < 0 then Ok (file_fd, out) else write_fd_chunk env out len file_fd offset)"

definition output_file_close :: "'s output_file \<Rightarrow> 's output_file" where
  "output_file_close out = snd (write_end_chunk out)"

text \<open>
  \<open>output_file_init\<close> on a zeroed structure with its device; \<open>alloc_ok\<close> tells whether the two buffers can
  be allocated.
\<close>

definition output_file_init ::
  "bool \<Rightarrow> 's output_file_ops \<Rightarrow> 's \<Rightarrow> u32 \<Rightarrow> int \<Rightarrow> bool \<Rightarrow> u32 \<Rightarrow> bool \<Rightarrow> (int \<times> 's output_file) outcome" where
  "output_file_init alloc_ok dops d block_size n sparse chunks crc =
     (let out = \<lparr>cur_out_ptr = 0, chunk_cnt = 0, out_crc32 = 0, ops = dops,
                 sparse_ops = (if sparse then sparse_file_ops else normal_file_ops),
                 use_crc = crc, out_block_size = block_size, out_len = n,
                 zero_buf = replicate (unat block_size) 0, fill_buf = replicate (unat block_size) 0, dev = d\<rparr>
      in if \<not> alloc_ok then Ok (- ENOMEM, out)
         else if sparse then
           (if block_size = 0 then Fault Div_By_Zero
            else
              let h = \<lparr>magic = SPARSE_HEADER_MAGIC, major_version = 1, minor_version = 0,
                       file_hdr_sz = of_nat SPARSE_HEADER_LEN, chunk_hdr_sz = of_nat CHUNK_HEADER_LEN,
                       blk_sz = block_size, total_blks = word_of_int (n div uint block_size),
                       total_chunks = (if crc then chunks + 1 else chunks), image_checksum = 0\<rparr>;
                  (ret, out1) = out_write out (sparse_header_bytes h) (int SPARSE_HEADER_LEN)
              in if ret < 0 then Ok (ret, out1) else Ok (0, out1))
         else Ok (0, out))"

text \<open>\<open>None\<close> is the \<open>NULL\<close> the two open functions return on failure.\<close>

definition output_file_open ::
  "bool \<Rightarrow> 's output_file_ops \<Rightarrow> 's \<Rightarrow> u32 \<Rightarrow> int \<Rightarrow> bool \<Rightarrow> u32 \<Rightarrow> bool \<Rightarrow> 's output_file option outcome" where
  "output_file_open alloc_ok dops d block_size n sparse chunks crc =
     (if \<not> alloc_ok then Ok None
      else obind (output_file_init alloc_ok dops d block_size n sparse chunks crc)
             (\<lambda>(ret, out). Ok (if ret < 0 then None else Some out)))"

definition output_file_open_callback ::
  "bool \<Rightarrow> 'p callback \<Rightarrow> 'p \<Rightarrow> u32 \<Rightarrow> int \<Rightarrow> bool \<Rightarrow> u32 \<Rightarrow> bool \<Rightarrow> 'p output_file option outcome" where
  "output_file_open_callback alloc_ok wr priv block_size n sparse chunks crc =
     output_file_open alloc_ok (callback_file_ops wr) priv block_size n sparse chunks crc"

definition output_file_open_fd ::
  "bool \<Rightarrow> posix_file \<Rightarrow> u32 \<Rightarrow> int \<Rightarrow> bool \<Rightarrow> u32 \<Rightarrow> bool \<Rightarrow> posix_file output_file option outcome" where
  "output_file_open_fd alloc_ok fd block_size n sparse chunks crc =
     output_file_open alloc_ok file_ops fd block_size n sparse chunks crc"

text \<open>The same with \<open>gz\<close> set; the result of \<open>gz_file_open\<close> is not looked at.\<close>

definition output_file_open_fd_gz ::
  "bool \<Rightarrow> 'z zlib \<Rightarrow> 'z \<Rightarrow> u32 \<Rightarrow> int \<Rightarrow> bool \<Rightarrow> u32 \<Rightarrow> bool \<Rightarrow> 'z output_file option outcome" where
  "output_file_open_fd_gz alloc_ok z gz_fd block_size n sparse chunks crc =
     output_file_open alloc_ok (gz_file_ops z) gz_fd block_size n sparse chunks crc"

end
