(* ===== verification/Sparse_File.thy ===== *)
theory Sparse_File
  imports Output_File
begin

text \<open>
  \<open>libsparse/sparse.c\<close>: the sparse file cookie, counting and writing its chunks, its length on disk, and
  the division of one sparse file into several of bounded size.
\<close>

record sparse_file =
  sf_block_size :: u32
  sf_len :: int
  sf_verbose :: bool
  sf_blocks :: backed_block_list

definition sparse_file_new :: "bool \<Rightarrow> u32 \<Rightarrow> int \<Rightarrow> sparse_file option" where
  "sparse_file_new alloc_ok block_size n =
     (if \<not> alloc_ok then None
      else Some \<lparr>sf_block_size = block_size, sf_len = n, sf_verbose = False,
                 sf_blocks = backed_block_list_new block_size\<rparr>)"

definition sparse_file_destroy :: "heap \<Rightarrow> sparse_file \<Rightarrow> heap outcome" where
  "sparse_file_destroy h s = backed_block_list_destroy h (sf_blocks s)"

definition sf_update ::
  "sparse_file \<Rightarrow> (int \<times> backed_block_list) outcome \<Rightarrow> (int \<times> sparse_file) outcome" where
  "sf_update s r = obind r (\<lambda>(ret, bbl). Ok (ret, s\<lparr>sf_blocks := bbl\<rparr>))"

definition sparse_file_add_data ::
  "bool \<Rightarrow> sparse_file \<Rightarrow> nat \<Rightarrow> u32 \<Rightarrow> u32 \<Rightarrow> (int \<times> sparse_file) outcome" where
  "sparse_file_add_data alloc_ok s data len block =
     sf_update s (backed_block_add_data alloc_ok (sf_blocks s) data len block)"

definition sparse_file_add_fill ::
  "bool \<Rightarrow> sparse_file \<Rightarrow> u32 \<Rightarrow> u32 \<Rightarrow> u32 \<Rightarrow> (int \<times> sparse_file) outcome" where
  "sparse_file_add_fill alloc_ok s fill_val len block =
     sf_update s (backed_block_add_fill alloc_ok (sf_blocks s) fill_val len block)"

definition sparse_file_add_file ::
  "bool \<Rightarrow> sparse_file \<Rightarrow> string \<Rightarrow> int \<Rightarrow> u32 \<Rightarrow> u32 \<Rightarrow> (int \<times> sparse_file) outcome" where
  "sparse_file_add_file alloc_ok s filename file_offset len block =
     sf_update s (backed_block_add_file alloc_ok (sf_blocks s) filename file_offset len block)"

definition sparse_file_add_fd ::
  "bool \<Rightarrow> sparse_file \<Rightarrow> int \<Rightarrow> int \<Rightarrow> u32 \<Rightarrow> u32 \<Rightarrow> (int \<times> sparse_file) outcome" where
  "sparse_file_add_fd alloc_ok s fd file_offset len block =
     sf_update s (backed_block_add_fd alloc_ok (sf_blocks s) fd file_offset len block)"

section \<open>Counting chunks\<close>

fun count_loop :: "u32 \<Rightarrow> u32 \<Rightarrow> u32 \<Rightarrow> backed_block list \<Rightarrow> u32 \<times> u32" where
  "count_loop bs last_block chunks [] = (last_block, chunks)"
| "count_loop bs last_block chunks (bb # l) =
     (let chunks = (if bb_block bb > last_block then chunks + 1 else chunks)
      in count_loop bs (bb_block bb + DIV_ROUND_UP (bb_len bb) bs) (chunks + 1) l)"

definition sparse_count_chunks :: "sparse_file \<Rightarrow> u32 outcome" where
  "sparse_count_chunks s =
     (if sf_block_size s = 0 then Fault Div_By_Zero
      else
        let (last_block, chunks) = count_loop (sf_block_size s) 0 0 (data_blocks (sf_blocks s))
        in Ok (if uint last_block < DIV_ROUND_UP64 (sf_len s) (sf_block_size s) then chunks + 1 else chunks))"

section \<open>Writing\<close>

text \<open>The return codes of the chunk writers are dropped here and in \<open>write_all_blocks\<close>.\<close>

definition sparse_file_write_block ::
  "io_env \<Rightarrow> 's output_file \<Rightarrow> backed_block \<Rightarrow> 's output_file outcome" where
  "sparse_file_write_block env out bb =
     obind
       (case bb_payload bb of
          BACKED_BLOCK_DATA p \<Rightarrow>
            write_data_chunk out (bb_len bb) (map (\<lambda>i. memory (env_media env) (p + i)) [0..<unat (bb_len bb)])
        | BACKED_BLOCK_FILE _ f off \<Rightarrow> write_file_chunk env out (bb_len bb) f off
        | BACKED_BLOCK_FD fd off \<Rightarrow> write_fd_chunk env out (bb_len bb) fd off
        | BACKED_BLOCK_FILL v \<Rightarrow> write_fill_chunk out (bb_len bb) v)
       (\<lambda>(_, out'). Ok out')"

fun write_blocks_loop ::
  "io_env \<Rightarrow> u32 \<Rightarrow> u32 \<Rightarrow> 's output_file \<Rightarrow> backed_block list \<Rightarrow> (u32 \<times> 's output_file) outcome" where
  "write_blocks_loop env bs last_block out [] = Ok (last_block, out)"
| "write_blocks_loop env bs last_block out (bb # l) =
     obind (if bb_block bb > last_block
            then obind (write_skip_chunk out (uint (bb_block bb - last_block) * uint bs)) (\<lambda>(_, out'). Ok out')
            else Ok out)
       (\<lambda>out1. obind (sparse_file_write_block env out1 bb)
         (\<lambda>out2. if bs = 0 then Fault Div_By_Zero
                 else write_blocks_loop env bs (bb_block bb + DIV_ROUND_UP (bb_len bb) bs) out2 l))"

definition write_all_blocks ::
  "io_env \<Rightarrow> sparse_file \<Rightarrow> 's output_file \<Rightarrow> (int \<times> 's output_file) outcome" where
  "write_all_blocks env s out =
     obind (write_blocks_loop env (sf_block_size s) 0 out (data_blocks (sf_blocks s)))
       (\<lambda>(last_block, out1).
          let pad = sf_len s - uint last_block * uint (sf_block_size s)
          in if pad < 0 then Fault Assert_Fail
             else if pad > 0 then obind (write_skip_chunk out1 pad) (\<lambda>(_, out2). Ok (0, out2))
             else Ok (0, out1))"

text \<open>
  \<open>write_sparse_to\<close> is the body that \<open>sparse_file_write\<close>, \<open>sparse_file_callback\<close> and \<open>sparse_file_len\<close> share:
  count, open, write, close. \<open>Inl\<close> is the case where the output file could not be opened.
\<close>

definition write_sparse_to ::
  "io_env \<Rightarrow> bool \<Rightarrow> 's output_file_ops \<Rightarrow> 's \<Rightarrow> sparse_file \<Rightarrow> bool \<Rightarrow> bool \<Rightarrow> (unit + int \<times> 's) outcome" where
  "write_sparse_to env alloc_ok dops d s sparse crc =
     obind (sparse_count_chunks s)
       (\<lambda>chunks. obind (output_file_open alloc_ok dops d (sf_block_size s) (sf_len s) sparse chunks crc)
          (\<lambda>oo. case oo of None \<Rightarrow> Ok (Inl ())
                | Some out \<Rightarrow> obind (write_all_blocks env s out)
                    (\<lambda>(ret, out1). Ok (Inr (ret, dev (output_file_close out1))))))"

definition sparse_file_write ::
  "io_env \<Rightarrow> bool \<Rightarrow> sparse_file \<Rightarrow> posix_file \<Rightarrow> bool \<Rightarrow> bool \<Rightarrow> (int \<times> posix_file) outcome" where
  "sparse_file_write env alloc_ok s fd sparse crc =
     obind (write_sparse_to env alloc_ok file_ops fd s sparse crc)
       (\<lambda>r. case r of Inl _ \<Rightarrow> Ok (- ENOMEM, fd) | Inr rf \<Rightarrow> Ok rf)"

definition sparse_file_callback ::
  "io_env \<Rightarrow> bool \<Rightarrow> sparse_file \<Rightarrow> bool \<Rightarrow> bool \<Rightarrow> 'p callback \<Rightarrow> 'p \<Rightarrow> (int \<times> 'p) outcome" where
  "sparse_file_callback env alloc_ok s sparse crc wr priv =
     obind (write_sparse_to env alloc_ok (callback_file_ops wr) priv s sparse crc)
       (\<lambda>r. case r of Inl _ \<Rightarrow> Ok (- ENOMEM, priv) | Inr rp \<Rightarrow> Ok rp)"

definition out_counter_write :: "int callback" where
  "out_counter_write count data n = (0, count + n)"

definition sparse_file_len :: "io_env \<Rightarrow> bool \<Rightarrow> sparse_file \<Rightarrow> bool \<Rightarrow> bool \<Rightarrow> int outcome" where
  "sparse_file_len env alloc_ok s sparse crc =
     obind (write_sparse_to env alloc_ok (callback_file_ops out_counter_write) 0 s sparse crc)
       (\<lambda>r. case r of Inl _ \<Rightarrow> Ok (-1) | Inr (ret, count) \<Rightarrow> Ok (if ret < 0 then -1 else count))"

section \<open>Splitting a file into pieces\<close>

text \<open>
  The loop of \<open>move_chunks_up_to_len\<close>. The counter is cleared before each block; \<open>last_bb\<close> is the address of
  the last node to be moved. The result is the pointer \<open>bb\<close> at the label \<open>out\<close>, \<open>last_bb\<close> and the list
  \<open>from\<close>, which a split may have changed.
\<close>

fun move_loop ::
  "io_env \<Rightarrow> bool \<Rightarrow> u32 \<Rightarrow> int output_file \<Rightarrow> int \<Rightarrow> nat option \<Rightarrow> backed_block_list \<Rightarrow> backed_block list
    \<Rightarrow> (nat option \<times> nat option \<times> backed_block_list) outcome" where
  "move_loop env alloc_ok len out file_len last_bb from [] = Ok (None, last_bb, from)"
| "move_loop env alloc_ok len out file_len last_bb from (bb # l) =
     obind (sparse_file_write_block env (out\<lparr>dev := 0\<rparr>) bb)
       (\<lambda>out1.
          if file_len + dev out1 > uint len then
            (if last_bb = None \<or> uint len - file_len > uint (len div 8)
             then obind (backed_block_split alloc_ok from (bb_addr bb) (word_of_int (uint len - file_len)))
                    (\<lambda>(_, from1). Ok (Some (bb_addr bb), Some (bb_addr bb), from1))
             else Ok (Some (bb_addr bb), last_bb, from))
          else move_loop env alloc_ok len out1 (file_len + dev out1) (Some (bb_addr bb)) from l)"

definition resparse_overhead :: u32 where
  "resparse_overhead = of_nat (SPARSE_HEADER_LEN + 4 * CHUNK_HEADER_LEN + 4)"

definition move_chunks_up_to_len ::
  "io_env \<Rightarrow> bool \<Rightarrow> sparse_file \<Rightarrow> sparse_file \<Rightarrow> u32 \<Rightarrow> (nat option \<times> sparse_file \<times> sparse_file) outcome" where
  "move_chunks_up_to_len env alloc_ok from to max_len =
     (let len = max_len - resparse_overhead;
          start = (case data_blocks (sf_blocks from) of [] \<Rightarrow> None | b # _ \<Rightarrow> Some (bb_addr b))
      in obind (output_file_open_callback alloc_ok out_counter_write 0 (sf_block_size to) (sf_len to) True 0 False)
           (\<lambda>oo. case oo of
               None \<Rightarrow> Ok (None, from, to)
             | Some out_counter \<Rightarrow>
                 obind (move_loop env alloc_ok len out_counter 0 None (sf_blocks from) (data_blocks (sf_blocks from)))
                   (\<lambda>(bb, last_bb, from1).
                      obind (backed_block_list_move from1 (sf_blocks to) start last_bb)
                        (\<lambda>(from2, to2). Ok (bb, from\<lparr>sf_blocks := from2\<rparr>, to\<lparr>sf_blocks := to2\<rparr>)))))"

text \<open>
  The \<open>do\<close> loop of \<open>sparse_file_resparse\<close>, with fuel: \<open>None\<close> is a loop that has not ended yet. The pieces
  that fit into the array \<open>out_s\<close> are collected in order, the rest goes to \<open>tmp\<close>.
\<close>

fun resparse_loop ::
  "nat \<Rightarrow> io_env \<Rightarrow> u32 \<Rightarrow> int \<Rightarrow> int \<Rightarrow> sparse_file \<Rightarrow> sparse_file \<Rightarrow> sparse_file list
    \<Rightarrow> (int \<times> sparse_file \<times> sparse_file \<times> sparse_file list) outcome option" where
  "resparse_loop 0 env max_len out_s_count c in_s tmp out_s = None"
| "resparse_loop (Suc fuel) env max_len out_s_count c in_s tmp out_s =
     (let s = \<lparr>sf_block_size = sf_block_size in_s, sf_len = sf_len in_s, sf_verbose = False,
               sf_blocks = backed_block_list_new (sf_block_size in_s)\<rparr>
      in case move_chunks_up_to_len env True in_s s max_len of
           Fault e \<Rightarrow> Some (Fault e)
         | Ok (bb, in_s1, s1) \<Rightarrow>
             (case (if c < out_s_count then Ok (tmp, out_s @ [s1])
                    else obind (backed_block_list_move (sf_blocks s1) (sf_blocks tmp) None None)
                           (\<lambda>(_, t). Ok (tmp\<lparr>sf_blocks := t\<rparr>, out_s))) of
                Fault e \<Rightarrow> Some (Fault e)
              | Ok (tmp1, out_s1) \<Rightarrow>
                  if bb = None then Some (Ok (c + 1, in_s1, tmp1, out_s1))
                  else resparse_loop fuel env max_len out_s_count (c + 1) in_s1 tmp1 out_s1))"

definition sparse_file_resparse ::
  "nat \<Rightarrow> io_env \<Rightarrow> bool \<Rightarrow> sparse_file \<Rightarrow> u32 \<Rightarrow> int \<Rightarrow> (int \<times> sparse_file \<times> sparse_file list) outcome option" where
  "sparse_file_resparse fuel env alloc_ok in_s max_len out_s_count =
     (case sparse_file_new alloc_ok (sf_block_size in_s) (sf_len in_s) of
        None \<Rightarrow> Some (Ok (- ENOMEM, in_s, []))
      | Some tmp \<Rightarrow>
          (case resparse_loop fuel env max_len out_s_count 0 in_s tmp [] of
             None \<Rightarrow> None
           | Some r \<Rightarrow>
               Some (obind r (\<lambda>(c, in_s1, tmp1, out_s).
                       obind (backed_block_list_move (sf_blocks tmp1) (sf_blocks in_s1) None None)
                         (\<lambda>(_, i). Ok (c, in_s1\<lparr>sf_blocks := i\<rparr>, out_s))))))"

definition sparse_file_verbose :: "sparse_file \<Rightarrow> sparse_file" where
  "sparse_file_verbose s = s\<lparr>sf_verbose := True\<rparr>"

end
