(* ===== verification/Sparse_Read.thy ===== *)
theory Sparse_Read
  imports Sparse_File
begin

text \<open>
  \<open>libsparse/sparse_read.c\<close> and \<open>read_all\<close> of \<open>output_file.c\<close>: reading sparse images and plain images into a
  sparse file.

  An open descriptor is its number, the bytes of the file, the position, whether it can seek, and the
  kernel's answers to \<open>read\<close>: for a position and a count, how many bytes it transfers or a negative errno.
  A transfer never exceeds the count or what is left of the file. \<open>uint32_t *crc32\<close> is an \<open>option\<close>:
  \<open>None\<close> is the \<open>NULL\<close> that turns checksums off.
\<close>

record in_fd =
  fd_num :: int
  fd_data :: bytes
  fd_pos :: nat
  fd_seekable :: bool
  fd_read :: "nat \<Rightarrow> nat \<Rightarrow> int"

definition sys_read :: "in_fd \<Rightarrow> nat \<Rightarrow> int \<times> bytes \<times> in_fd" where
  "sys_read fd n =
     (let ret = fd_read fd (fd_pos fd) n
      in if ret < 0 then (ret, [], fd)
         else let k = min (nat ret) (min n (length (fd_data fd) - fd_pos fd))
              in (int k, take k (drop (fd_pos fd) (fd_data fd)), fd\<lparr>fd_pos := fd_pos fd + k\<rparr>))"

definition sys_lseek :: "in_fd \<Rightarrow> int \<Rightarrow> int \<times> in_fd" where
  "sys_lseek fd p = (if \<not> fd_seekable fd \<or> p < 0 then (-1, fd) else (p, fd\<lparr>fd_pos := nat p\<rparr>))"

definition lseek_cur :: "in_fd \<Rightarrow> int \<Rightarrow> int \<times> in_fd" where
  "lseek_cur fd off = sys_lseek fd (int (fd_pos fd) + off)"

function read_loop :: "in_fd \<Rightarrow> nat \<Rightarrow> bytes \<Rightarrow> int \<times> bytes \<times> in_fd" where
  "read_loop fd n buf =
     (if n = 0 then (0, buf, fd)
      else let (ret, d, fd') = sys_read fd n
           in if ret < 0 then (ret, buf, fd')
              else if ret = 0 then (- EINVAL, buf, fd')
              else read_loop fd' (n - nat ret) (buf @ d))"
  by pat_completeness auto
termination
  by (relation "measure (\<lambda>(_, n, _). n)") (auto simp: sys_read_def Let_def split: if_splits)

declare read_loop.simps [simp del]

definition read_all :: "in_fd \<Rightarrow> nat \<Rightarrow> int \<times> bytes \<times> in_fd" where
  "read_all fd n = read_loop fd n []"

section \<open>Headers\<close>

definition parse_sparse_header :: "bytes \<Rightarrow> sparse_header" where
  "parse_sparse_header b =
     \<lparr>magic = un_le32 b, major_version = un_le16 (drop 4 b), minor_version = un_le16 (drop 6 b),
      file_hdr_sz = un_le16 (drop 8 b), chunk_hdr_sz = un_le16 (drop 10 b), blk_sz = un_le32 (drop 12 b),
      total_blks = un_le32 (drop 16 b), total_chunks = un_le32 (drop 20 b),
      image_checksum = un_le32 (drop 24 b)\<rparr>"

definition parse_chunk_header :: "bytes \<Rightarrow> chunk_header" where
  "parse_chunk_header b =
     \<lparr>chunk_type = un_le16 b, reserved1 = un_le16 (drop 2 b), chunk_sz = un_le32 (drop 4 b),
      total_sz = un_le32 (drop 8 b)\<rparr>"

section \<open>Chunks\<close>

abbreviation (input) COPY_BUF_SIZE :: nat where "COPY_BUF_SIZE \<equiv> 1024 * 1024"

function raw_crc_loop :: "in_fd \<Rightarrow> nat \<Rightarrow> u32 \<Rightarrow> int \<times> in_fd \<times> u32" where
  "raw_crc_loop fd len crc =
     (if len = 0 then (0, fd, crc)
      else let chunk = min len COPY_BUF_SIZE; (ret, buf, fd') = read_all fd chunk
           in if ret < 0 then (ret, fd', crc)
              else raw_crc_loop fd' (len - chunk) (sparse_crc32 crc buf))"
  by pat_completeness auto
termination
  by (relation "measure (\<lambda>(_, len, _). len)") auto

declare raw_crc_loop.simps [simp del]

text \<open>The checksum of \<open>len\<close> bytes of a repeated 32 bit value, a buffer at a time.\<close>

definition fill_bytes :: "u32 \<Rightarrow> nat \<Rightarrow> bytes" where
  "fill_bytes v n = map (\<lambda>i. le32 v ! (i mod 4)) [0..<n]"

function fill_crc_loop :: "u32 \<Rightarrow> nat \<Rightarrow> u32 \<Rightarrow> u32" where
  "fill_crc_loop v len crc =
     (if len = 0 then crc
      else let chunk = min len COPY_BUF_SIZE
           in fill_crc_loop v (len - chunk) (sparse_crc32 crc (fill_bytes v chunk)))"
  by pat_completeness auto
termination
  by (relation "measure (\<lambda>(_, len, _). len)") auto

declare fill_crc_loop.simps [simp del]

type_synonym read_state = "sparse_file \<times> in_fd \<times> u32 option"

definition process_raw_chunk ::
  "bool \<Rightarrow> sparse_file \<Rightarrow> u32 \<Rightarrow> in_fd \<Rightarrow> int \<Rightarrow> u32 \<Rightarrow> u32 \<Rightarrow> u32 option \<Rightarrow> (int \<times> read_state) outcome" where
  "process_raw_chunk alloc_ok s chunk_size fd offset blocks block crc32 =
     (let len = blocks * sf_block_size s
      in if sf_block_size s = 0 then Fault Div_By_Zero
         else if chunk_size mod sf_block_size s \<noteq> 0 then Ok (- EINVAL, s, fd, crc32)
         else if chunk_size div sf_block_size s \<noteq> blocks then Ok (- EINVAL, s, fd, crc32)
         else obind (sparse_file_add_fd alloc_ok s (fd_num fd) offset len block)
                (\<lambda>(ret, s1).
                   if ret < 0 then Ok (ret, s1, fd, crc32)
                   else (case crc32 of
                           Some c \<Rightarrow>
                             (let (ret, fd1, c1) = raw_crc_loop fd (unat len) c
                              in Ok (if ret < 0 then ret else 0, s1, fd1, Some c1))
                         | None \<Rightarrow> Ok (0, s1, snd (lseek_cur fd (uint len)), None))))"

definition process_fill_chunk ::
  "bool \<Rightarrow> sparse_file \<Rightarrow> u32 \<Rightarrow> in_fd \<Rightarrow> u32 \<Rightarrow> u32 \<Rightarrow> u32 option \<Rightarrow> (int \<times> read_state) outcome" where
  "process_fill_chunk alloc_ok s chunk_size fd blocks block crc32 =
     (let len = uint blocks * uint (sf_block_size s)
      in if chunk_size \<noteq> 4 then Ok (- EINVAL, s, fd, crc32)
         else
           let (ret, buf, fd1) = read_all fd 4
           in if ret < 0 then Ok (ret, s, fd1, crc32)
              else
                let fill_val = un_le32 buf
                in obind (sparse_file_add_fill alloc_ok s fill_val (word_of_int len) block)
                     (\<lambda>(ret, s1).
                        if ret < 0 then Ok (ret, s1, fd1, crc32)
                        else Ok (0, s1, fd1, map_option (fill_crc_loop fill_val (nat len)) crc32)))"

definition process_skip_chunk ::
  "sparse_file \<Rightarrow> u32 \<Rightarrow> in_fd \<Rightarrow> u32 \<Rightarrow> u32 option \<Rightarrow> int \<times> read_state" where
  "process_skip_chunk s chunk_size fd blocks crc32 =
     (let len = uint blocks * uint (sf_block_size s)
      in if chunk_size \<noteq> 0 then (- EINVAL, s, fd, crc32)
         else (0, s, fd, map_option (fill_crc_loop 0 (nat len)) crc32))"

definition process_crc32_chunk :: "in_fd \<Rightarrow> u32 \<Rightarrow> u32 \<Rightarrow> int \<times> in_fd" where
  "process_crc32_chunk fd chunk_size crc32 =
     (if chunk_size \<noteq> 4 then (- EINVAL, fd)
      else
        let (ret, buf, fd1) = read_all fd 4
        in if ret < 0 then (ret, fd1)
           else if un_le32 buf \<noteq> crc32 then (- EINVAL, fd1)
           else (0, fd1))"

text \<open>
  \<open>process_chunk\<close> returns the number of blocks as an \<open>int\<close>. It reads \<open>*crc_ptr\<close> for a checksum chunk even
  when the pointer is \<open>NULL\<close>. An unknown chunk type only prints a message.
\<close>

definition process_chunk ::
  "bool \<Rightarrow> sparse_file \<Rightarrow> in_fd \<Rightarrow> int \<Rightarrow> u32 \<Rightarrow> chunk_header \<Rightarrow> u32 \<Rightarrow> u32 option \<Rightarrow> (int \<times> read_state) outcome" where
  "process_chunk alloc_ok s fd offset chdr_sz h cur_block crc_ptr =
     (let chunk_data_size = total_sz h - chdr_sz
      in if chunk_type h = CHUNK_TYPE_RAW then
           obind (process_raw_chunk alloc_ok s chunk_data_size fd offset (chunk_sz h) cur_block crc_ptr)
             (\<lambda>(ret, st). Ok (if ret < 0 then ret else sint (chunk_sz h), st))
         else if chunk_type h = CHUNK_TYPE_FILL then
           obind (process_fill_chunk alloc_ok s chunk_data_size fd (chunk_sz h) cur_block crc_ptr)
             (\<lambda>(ret, st). Ok (if ret < 0 then ret else sint (chunk_sz h), st))
         else if chunk_type h = CHUNK_TYPE_DONT_CARE then
           (let (ret, st) = process_skip_chunk s chunk_data_size fd (chunk_sz h) crc_ptr
            in if chunk_data_size \<noteq> 0 \<and> ret < 0 then Ok (ret, st) else Ok (sint (chunk_sz h), st))
         else if chunk_type h = CHUNK_TYPE_CRC32 then
           (case crc_ptr of
              None \<Rightarrow> Fault Null_Deref
            | Some c \<Rightarrow>
                (let (ret, fd1) = process_crc32_chunk fd chunk_data_size c
                 in Ok (if ret < 0 then ret else 0, s, fd1, crc_ptr)))
         else Ok (0, s, fd, crc_ptr))"

section \<open>Whole files\<close>

text \<open>
  The loop over the chunks; the first argument counts the chunks that are left. The header on disk may be
  longer than the structure; the rest is skipped.
\<close>

fun read_chunks ::
  "nat \<Rightarrow> bool \<Rightarrow> u16 \<Rightarrow> u32 \<Rightarrow> read_state \<Rightarrow> (int \<times> u32 \<times> read_state) outcome" where
  "read_chunks 0 alloc_ok chdr_sz cur_block st = Ok (0, cur_block, st)"
| "read_chunks (Suc n) alloc_ok chdr_sz cur_block (s, fd, crc_ptr) =
     (let (ret, buf, fd1) = read_all fd CHUNK_HEADER_LEN
      in if ret < 0 then Ok (ret, cur_block, s, fd1, crc_ptr)
         else
           let fd2 = (if unat chdr_sz > CHUNK_HEADER_LEN
                      then snd (lseek_cur fd1 (uint chdr_sz - int CHUNK_HEADER_LEN)) else fd1);
               (offset, fd3) = lseek_cur fd2 0
           in obind (process_chunk alloc_ok s fd3 offset (ucast chdr_sz) (parse_chunk_header buf) cur_block crc_ptr)
                (\<lambda>(ret, st1). if ret < 0 then Ok (ret, cur_block, st1)
                              else read_chunks n alloc_ok chdr_sz (cur_block + word_of_int ret) st1))"

definition sparse_file_read_sparse ::
  "bool \<Rightarrow> sparse_file \<Rightarrow> in_fd \<Rightarrow> bool \<Rightarrow> (int \<times> sparse_file \<times> in_fd) outcome" where
  "sparse_file_read_sparse alloc_ok s fd crc =
     (if \<not> alloc_ok then Ok (- ENOMEM, s, fd)
      else
        let (ret, buf, fd1) = read_all fd SPARSE_HEADER_LEN; h = parse_sparse_header buf
        in if ret < 0 then Ok (ret, s, fd1)
           else if magic h \<noteq> SPARSE_HEADER_MAGIC then Ok (- EINVAL, s, fd1)
           else if major_version h \<noteq> 1 then Ok (- EINVAL, s, fd1)
           else if unat (file_hdr_sz h) < SPARSE_HEADER_LEN then Ok (- EINVAL, s, fd1)
           else if unat (chunk_hdr_sz h) < CHUNK_HEADER_LEN then Ok (- EINVAL, s, fd1)
           else
             let fd2 = (if unat (file_hdr_sz h) > SPARSE_HEADER_LEN
                        then snd (lseek_cur fd1 (uint (file_hdr_sz h) - int SPARSE_HEADER_LEN)) else fd1)
             in obind (read_chunks (unat (total_chunks h)) alloc_ok (chunk_hdr_sz h) 0
                         (s, fd2, if crc then Some 0 else None))
                  (\<lambda>(ret, cur_block, s1, fd3, _).
                     if ret < 0 then Ok (ret, s1, fd3)
                     else if total_blks h \<noteq> cur_block then Ok (- EINVAL, s1, fd3)
                     else Ok (0, s1, fd3)))"

text \<open>The test for a block of one repeated 32 bit value.\<close>

definition word_at :: "bytes \<Rightarrow> nat \<Rightarrow> u32" where
  "word_at buf i = un_le32 (drop (4 * i) buf)"

definition is_sparse_block :: "bytes \<Rightarrow> u32 \<Rightarrow> bool" where
  "is_sparse_block buf bs = list_all (\<lambda>i. word_at buf 0 = word_at buf i) [1..<unat (bs div 4)]"

text \<open>
  \<open>sparse_file_read_normal\<close> reads \<open>buf[0]\<close> of a buffer of \<open>block_size\<close> bytes, so a block size below 4 is
  read out of bounds. The return codes of the two \<open>sparse_file_add\<close> calls are dropped.
\<close>

lemma read_step_decreases:
  assumes "\<not> remain \<le> 0" and "\<not> unat (bs :: u32) < 4"
  shows "nat (remain - min remain (uint bs)) < nat remain"
proof -
  have "int 4 \<le> int (unat bs)" using assms(2) by (simp only: of_nat_le_iff not_less)
  then have "4 \<le> uint bs" by simp
  then show ?thesis using assms(1) by (simp add: min_def)
qed

function read_normal_loop ::
  "bool \<Rightarrow> sparse_file \<Rightarrow> in_fd \<Rightarrow> u32 \<Rightarrow> int \<Rightarrow> int \<Rightarrow> (int \<times> sparse_file \<times> in_fd) outcome" where
  "read_normal_loop alloc_ok s fd block remain offset =
     (if remain \<le> 0 then Ok (0, s, fd)
      else if unat (sf_block_size s) < 4 then Fault Out_Of_Bounds
      else
        let to_read = min remain (uint (sf_block_size s));
            (ret, buf, fd1) = read_all fd (nat to_read)
        in if ret < 0 then Ok (ret, s, fd1)
           else
             let sparse_block = (to_read = uint (sf_block_size s) \<and> is_sparse_block buf (sf_block_size s))
             in case (if sparse_block
                      then sparse_file_add_fill alloc_ok s (word_at buf 0) (word_of_int to_read) block
                      else sparse_file_add_fd alloc_ok s (fd_num fd1) offset (word_of_int to_read) block) of
                  Fault e \<Rightarrow> Fault e
                | Ok (_, s1) \<Rightarrow>
                    read_normal_loop alloc_ok (s\<lparr>sf_blocks := sf_blocks s1\<rparr>) fd1 (block + 1)
                      (remain - to_read) (offset + to_read))"
  by pat_completeness auto
termination
  apply (relation "measure (\<lambda>(_, _, _, _, remain, _). nat remain)")
   apply (rule wf_measure)
  apply (simp only: in_measure split_conv)
  apply (erule (1) read_step_decreases)
  done

declare read_normal_loop.simps [simp del]

definition sparse_file_read_normal ::
  "bool \<Rightarrow> sparse_file \<Rightarrow> in_fd \<Rightarrow> (int \<times> sparse_file \<times> in_fd) outcome" where
  "sparse_file_read_normal alloc_ok s fd =
     (if \<not> alloc_ok then Ok (- ENOMEM, s, fd) else read_normal_loop alloc_ok s fd 0 (sf_len s) 0)"

definition sparse_file_read ::
  "bool \<Rightarrow> sparse_file \<Rightarrow> in_fd \<Rightarrow> bool \<Rightarrow> bool \<Rightarrow> (int \<times> sparse_file \<times> in_fd) outcome" where
  "sparse_file_read alloc_ok s fd sparse crc =
     (if crc \<and> \<not> sparse then Ok (- EINVAL, s, fd)
      else if sparse then sparse_file_read_sparse alloc_ok s fd crc
      else sparse_file_read_normal alloc_ok s fd)"

definition sparse_file_import ::
  "bool \<Rightarrow> in_fd \<Rightarrow> bool \<Rightarrow> bool \<Rightarrow> (sparse_file option \<times> in_fd) outcome" where
  "sparse_file_import alloc_ok fd verbose crc =
     (let (ret, buf, fd1) = read_all fd SPARSE_HEADER_LEN; h = parse_sparse_header buf
      in if ret < 0 then Ok (None, fd1)
         else if magic h \<noteq> SPARSE_HEADER_MAGIC then Ok (None, fd1)
         else if major_version h \<noteq> 1 then Ok (None, fd1)
         else if unat (file_hdr_sz h) < SPARSE_HEADER_LEN then Ok (None, fd1)
         else if unat (chunk_hdr_sz h) < CHUNK_HEADER_LEN then Ok (None, fd1)
         else
           case sparse_file_new alloc_ok (blk_sz h) (uint (total_blks h) * uint (blk_sz h)) of
             None \<Rightarrow> Ok (None, fd1)
           | Some s \<Rightarrow>
               (let (ret, fd2) = sys_lseek fd1 0
                in if ret < 0 then Ok (None, fd2)
                   else obind (sparse_file_read alloc_ok (s\<lparr>sf_verbose := verbose\<rparr>) fd2 True crc)
                          (\<lambda>(ret, s1, fd3). Ok (if ret < 0 then None else Some s1, fd3))))"

definition sparse_file_import_auto ::
  "bool \<Rightarrow> in_fd \<Rightarrow> bool \<Rightarrow> (sparse_file option \<times> in_fd) outcome" where
  "sparse_file_import_auto alloc_ok fd crc =
     obind (sparse_file_import alloc_ok fd True crc)
       (\<lambda>(so, fd1). case so of
           Some s \<Rightarrow> Ok (Some s, fd1)
         | None \<Rightarrow>
             (let (len, fd2) = sys_lseek fd1 (int (length (fd_data fd1)))
              in if len < 0 then Ok (None, fd2)
                 else
                   let (_, fd3) = sys_lseek fd2 0
                   in case sparse_file_new alloc_ok 4096 len of
                        None \<Rightarrow> Ok (None, fd3)
                      | Some s \<Rightarrow>
                          obind (sparse_file_read_normal alloc_ok s fd3)
                            (\<lambda>(ret, s1, fd4). Ok (if ret < 0 then None else Some s1, fd4))))"

end
