(* ===== verification/Backed_Block_Props.thy ===== *)
theory Backed_Block_Props
  imports Backed_Block
begin

text \<open>
  Correctness of the block list of libsparse: well-formedness, the reference insertion that
  \<open>queue_bb\<close> implements whatever node its search starts from, and the image of a list (which byte a
  position of the expanded file holds) under insertion, merging, splitting and moving.
\<close>

section \<open>Well-formed lists\<close>

definition blocks_sorted :: "backed_block list \<Rightarrow> bool" where
  "blocks_sorted l \<longleftrightarrow> sorted_wrt (\<lambda>a b. bb_block a < bb_block b) l"

definition bbl_wf :: "backed_block_list \<Rightarrow> bool" where
  "bbl_wf bbl \<longleftrightarrow>
     blocks_sorted (data_blocks bbl) \<and>
     distinct (map bb_addr (data_blocks bbl)) \<and>
     (\<forall>b \<in> set (data_blocks bbl). bb_addr b < next_addr bbl) \<and>
     bbl_block_size bbl \<noteq> 0"

definition last_used_live :: "backed_block_list \<Rightarrow> bool" where
  "last_used_live bbl \<longleftrightarrow>
     (case last_used bbl of None \<Rightarrow> True | Some p \<Rightarrow> p \<in> bb_addr ` set (data_blocks bbl))"

lemma last_used_live_simps [simp]:
  "last_used_live (bbl\<lparr>next_addr := k\<rparr>) = last_used_live bbl"
  "last_used_live (bbl\<lparr>last_used := None\<rparr>)"
  by (cases "last_used bbl"; simp add: last_used_live_def)+

section \<open>Following the chain\<close>

lemma data_blocks_self: "data_blocks bbl = l \<Longrightarrow> bbl\<lparr>data_blocks := l\<rparr> = bbl"
  by auto

lemma from_node_at [simp]:
  "bb_addr a \<notin> bb_addr ` set xs \<Longrightarrow> from_node (bb_addr a) (xs @ a # ys) = a # ys"
  by (induction xs) (auto simp: from_node_def)

lemma upto_node_at [simp]:
  "bb_addr a \<notin> bb_addr ` set xs \<Longrightarrow> upto_node (bb_addr a) (xs @ a # ys) = xs"
  by (induction xs) (auto simp: upto_node_def)

lemma from_node_hd [simp]: "from_node (bb_addr a) (a # ys) = a # ys"
  by (simp add: from_node_def)

lemma upto_node_hd [simp]: "upto_node (bb_addr a) (a # ys) = []"
  by (simp add: upto_node_def)

lemma upto_from_node [simp]: "upto_node p l @ from_node p l = l"
  by (simp add: upto_node_def from_node_def)

lemma from_node_Cons_other [simp]: "bb_addr a \<noteq> p \<Longrightarrow> from_node p (a # ys) = from_node p ys"
  by (simp add: from_node_def)

lemma node_at_at [simp]:
  "bb_addr a \<notin> bb_addr ` set xs \<Longrightarrow> node_at (bb_addr a) (xs @ a # ys) = Some a"
  by (simp add: node_at_def)

lemma node_next_at [simp]:
  "bb_addr a \<notin> bb_addr ` set xs \<Longrightarrow>
   node_next (bb_addr a) (xs @ a # ys) = (case ys of [] \<Rightarrow> None | b # _ \<Rightarrow> Some (bb_addr b))"
  by (simp add: node_next_def split: list.splits)

lemma node_at_None_iff: "node_at p l = None \<longleftrightarrow> p \<notin> bb_addr ` set l"
proof (cases "from_node p l")
  case Nil
  then have "p \<notin> bb_addr ` set l" by (auto simp: from_node_def)
  with Nil show ?thesis by (simp add: node_at_def)
next
  case (Cons b ys)
  then have "bb_addr b = p"
    unfolding from_node_def using hd_dropWhile [of "\<lambda>b. bb_addr b \<noteq> p" l] by simp
  moreover have "b \<in> set l"
    using Cons unfolding from_node_def by (metis list.set_intros(1) set_dropWhileD)
  ultimately show ?thesis using Cons by (auto simp: node_at_def)
qed

lemma node_at_SomeD:
  assumes "node_at p l = Some a"
  obtains xs ys where "l = xs @ a # ys" and "bb_addr a = p" and "p \<notin> bb_addr ` set xs"
proof -
  from assms obtain ys where ys: "from_node p l = a # ys"
    by (auto simp: node_at_def split: list.splits)
  have "l = upto_node p l @ a # ys"
    using upto_from_node [of p l] ys by simp
  moreover have "bb_addr a = p"
    using ys unfolding from_node_def using hd_dropWhile [of "\<lambda>b. bb_addr b \<noteq> p" l] by simp
  moreover have "p \<notin> bb_addr ` set (upto_node p l)"
    by (auto simp: upto_node_def dest: set_takeWhileD)
  ultimately show thesis using that by blast
qed

section \<open>Merging two neighbours\<close>

definition can_merge :: "u32 \<Rightarrow> backed_block \<Rightarrow> backed_block \<Rightarrow> bool" where
  "can_merge bs a b \<longleftrightarrow>
     same_type (bb_payload a) (bb_payload b) \<and>
     bb_block a + bb_len a div bs = bb_block b \<and>
     mergeable a (bb_payload a) (bb_payload b)"

definition merged :: "backed_block \<Rightarrow> backed_block \<Rightarrow> backed_block" where
  "merged a b = a\<lparr>bb_len := bb_len a + bb_len b\<rparr>"

lemma merged_sel [simp]:
  "bb_addr (merged a b) = bb_addr a" "bb_block (merged a b) = bb_block a"
  "bb_len (merged a b) = bb_len a + bb_len b" "bb_payload (merged a b) = bb_payload a"
  by (simp_all add: merged_def)

lemma merge_bb_neighbours:
  assumes l: "data_blocks bbl = xs @ a # b # ys"
    and d: "distinct (map bb_addr (data_blocks bbl))"
    and lt: "bb_block a < bb_block b" and bs: "bbl_block_size bbl \<noteq> 0"
  shows "merge_bb bbl (Some (bb_addr a)) (Some (bb_addr b)) =
    (if can_merge (bbl_block_size bbl) a b
     then Ok (0, bbl\<lparr>data_blocks := xs @ merged a b # ys\<rparr>) else Ok (- EINVAL, bbl))"
proof -
  have a: "bb_addr a \<notin> bb_addr ` set xs" and b: "bb_addr b \<notin> bb_addr ` set (xs @ [a])"
    using d l by auto
  have "node_at (bb_addr a) (data_blocks bbl) = Some a"
    and "upto_node (bb_addr a) (data_blocks bbl) = xs"
    using a by (simp_all add: l)
  moreover have "node_at (bb_addr b) (data_blocks bbl) = Some b"
    and "from_node (bb_addr b) (data_blocks bbl) = b # ys"
    using node_at_at [OF b, of ys] from_node_at [OF b, of ys] by (simp_all add: l)
  ultimately show ?thesis
    using lt bs by (simp add: merge_bb_def can_merge_def merged_def)
qed

lemma merge_bb_NULL [simp]: "merge_bb bbl p None = Ok (- EINVAL, bbl)"
  by (cases p) (simp_all add: merge_bb_def)

section \<open>The search loop\<close>

lemma scan_from_sorted:
  assumes "blocks_sorted l" and "l \<noteq> []" and "bb_block (hd l) < n"
  shows "scan_from n l = (takeWhile (\<lambda>b. bb_block b < n) l, dropWhile (\<lambda>b. bb_block b < n) l)"
  using assms
proof (induction n l rule: scan_from.induct)
  case (3 n b c l)
  then show ?case by (auto simp: blocks_sorted_def)
qed auto

lemma takeWhile_below_node:
  assumes "blocks_sorted (xs @ p # ys)" and "bb_block p < n"
  shows "takeWhile (\<lambda>b. bb_block b < n) (xs @ p # ys) = xs @ takeWhile (\<lambda>b. bb_block b < n) (p # ys)"
    and "dropWhile (\<lambda>b. bb_block b < n) (xs @ p # ys) = dropWhile (\<lambda>b. bb_block b < n) (p # ys)"
proof -
  have "\<forall>b \<in> set xs. bb_block b < n"
    using assms by (auto simp: blocks_sorted_def sorted_wrt_append)
  then show "takeWhile (\<lambda>b. bb_block b < n) (xs @ p # ys) = xs @ takeWhile (\<lambda>b. bb_block b < n) (p # ys)"
    and "dropWhile (\<lambda>b. bb_block b < n) (xs @ p # ys) = dropWhile (\<lambda>b. bb_block b < n) (p # ys)"
    by (simp_all add: takeWhile_append2 dropWhile_append2)
qed

section \<open>The reference insertion\<close>

definition merge_right :: "u32 \<Rightarrow> backed_block \<Rightarrow> backed_block list \<Rightarrow> backed_block list" where
  "merge_right bs b rest =
     (case rest of [] \<Rightarrow> [b] | c # r \<Rightarrow> if can_merge bs b c then merged b c # r else b # c # r)"

text \<open>
  The reference: a block below the head goes in front as it is; otherwise it goes to its place in
  the order and is merged first with its successor, then with its predecessor.
\<close>

definition queue_spec :: "u32 \<Rightarrow> backed_block \<Rightarrow> backed_block list \<Rightarrow> backed_block list" where
  "queue_spec bs n l =
     (let pre = takeWhile (\<lambda>b. bb_block b < bb_block n) l;
          rest = dropWhile (\<lambda>b. bb_block b < bb_block n) l
      in if pre = [] then n # l
         else butlast pre @ merge_right bs (last pre) (merge_right bs n rest))"

definition queue_last_used :: "backed_block \<Rightarrow> backed_block_list \<Rightarrow> nat option" where
  "queue_last_used n bbl =
     (if takeWhile (\<lambda>b. bb_block b < bb_block n) (data_blocks bbl) = [] then last_used bbl
      else Some (bb_addr n))"

lemma hd_merge_right:
  "merge_right bs b rest = b' # r \<Longrightarrow> bb_addr b' = bb_addr b \<and> bb_block b' = bb_block b"
  by (auto simp: merge_right_def split: list.splits if_splits)

lemma merge_right_nonempty: "\<exists>b' r. merge_right bs b rest = b' # r"
  by (auto simp: merge_right_def split: list.splits)

lemma merge_right_addrs: "bb_addr ` set (merge_right bs b rest) \<subseteq> insert (bb_addr b) (bb_addr ` set rest)"
  by (auto simp: merge_right_def split: list.splits)

lemma merge_right_distinct:
  "distinct (map bb_addr (xs @ b # rest)) \<Longrightarrow> distinct (map bb_addr (xs @ merge_right bs b rest))"
  by (auto simp: merge_right_def split: list.splits)

lemma merge_right_sorted:
  "blocks_sorted (xs @ b # rest) \<Longrightarrow> blocks_sorted (xs @ merge_right bs b rest)"
  by (auto simp: merge_right_def blocks_sorted_def sorted_wrt_append split: list.splits)

lemma merge_bb_right:
  assumes l: "data_blocks bbl = xs @ b # rest"
    and d: "distinct (map bb_addr (data_blocks bbl))"
    and s: "blocks_sorted (b # rest)" and bs: "bbl_block_size bbl \<noteq> 0"
  shows "\<exists>r. merge_bb bbl (Some (bb_addr b)) (node_next (bb_addr b) (data_blocks bbl)) =
    Ok (r, bbl\<lparr>data_blocks := xs @ merge_right (bbl_block_size bbl) b rest\<rparr>)"
proof (cases rest)
  case Nil
  have "bb_addr b \<notin> bb_addr ` set xs" using d l by auto
  then have "node_next (bb_addr b) (data_blocks bbl) = None" by (simp add: l Nil)
  moreover have "bbl\<lparr>data_blocks := xs @ [b]\<rparr> = bbl" using l Nil by (intro data_blocks_self) simp
  ultimately show ?thesis by (simp add: merge_right_def Nil)
next
  case (Cons c r)
  have b: "bb_addr b \<notin> bb_addr ` set xs" using d l by auto
  have "bb_block b < bb_block c" using s Cons by (simp add: blocks_sorted_def)
  from merge_bb_neighbours [OF _ d this bs, of xs r] l Cons
  have "merge_bb bbl (Some (bb_addr b)) (Some (bb_addr c)) =
    (if can_merge (bbl_block_size bbl) b c
     then Ok (0, bbl\<lparr>data_blocks := xs @ merged b c # r\<rparr>) else Ok (- EINVAL, bbl))" by simp
  moreover have "bbl\<lparr>data_blocks := xs @ b # c # r\<rparr> = bbl" using l Cons by (intro data_blocks_self) simp
  moreover have "node_next (bb_addr b) (data_blocks bbl) = Some (bb_addr c)"
    using b by (simp add: l Cons)
  ultimately show ?thesis by (simp add: merge_right_def Cons)
qed

section \<open>\<open>queue_bb\<close> implements the reference insertion\<close>

lemma sorted_insert_new:
  assumes "blocks_sorted l" and "bb_block n \<notin> bb_block ` set l"
  shows "blocks_sorted (takeWhile (\<lambda>b. bb_block b < bb_block n) l @ n # dropWhile (\<lambda>b. bb_block b < bb_block n) l)"
  using assms
proof (induction l)
  case (Cons b l)
  let ?P = "\<lambda>b. bb_block b < bb_block n"
  have s: "blocks_sorted l" and b: "\<forall>c \<in> set l. bb_block b < bb_block c"
    using Cons.prems by (auto simp: blocks_sorted_def)
  show ?case
  proof (cases "?P b")
    case True
    have "blocks_sorted (takeWhile ?P l @ n # dropWhile ?P l)"
      using Cons s by simp
    moreover have "\<forall>c \<in> set (takeWhile ?P l @ n # dropWhile ?P l). bb_block b < bb_block c"
      using b True by (auto dest: set_takeWhileD set_dropWhileD)
    ultimately show ?thesis using True by (simp add: blocks_sorted_def)
  next
    case False
    then have "bb_block n < bb_block b" using Cons.prems(2) by force
    then have "\<forall>c \<in> set l. bb_block n < bb_block c" using b by force
    with \<open>bb_block n < bb_block b\<close> False Cons.prems(1) show ?thesis
      by (simp add: blocks_sorted_def)
  qed
qed (simp add: blocks_sorted_def)

lemma distinct_insert_new:
  assumes "distinct (map bb_addr (xs @ ys))" and "bb_addr n \<notin> bb_addr ` set (xs @ ys)"
  shows "distinct (map bb_addr (xs @ n # ys))"
  using assms by auto

lemma queue_insert_spec:
  assumes wf: "bbl_wf bbl" and l: "data_blocks bbl = xs @ p # ys" and lt: "bb_block p < bb_block n"
    and nb: "bb_block n \<notin> bb_block ` set (data_blocks bbl)"
    and na: "bb_addr n \<notin> bb_addr ` set (data_blocks bbl)"
  shows "queue_insert bbl (bb_addr p) n =
    Ok (0, bbl\<lparr>last_used := Some (bb_addr n),
              data_blocks := queue_spec (bbl_block_size bbl) n (data_blocks bbl)\<rparr>)"
proof -
  let ?P = "\<lambda>b. bb_block b < bb_block n" and ?bs = "bbl_block_size bbl" and ?l = "data_blocks bbl"
  have srt: "blocks_sorted ?l" and dst: "distinct (map bb_addr ?l)" and bs: "?bs \<noteq> 0"
    using wf by (auto simp: bbl_wf_def)
  define pre rest where "pre = takeWhile ?P ?l" and "rest = dropWhile ?P ?l"
  have "bb_addr p \<notin> bb_addr ` set xs" using dst l by auto
  then have fn: "from_node (bb_addr p) ?l = p # ys" and un: "upto_node (bb_addr p) ?l = xs"
    by (simp_all add: l)
  define t where "t = takeWhile ?P (p # ys)"
  have "blocks_sorted (p # ys)" using srt l by (simp add: blocks_sorted_def sorted_wrt_append)
  then have "scan_from (bb_block n) (p # ys) = (t, dropWhile ?P (p # ys))"
    unfolding t_def using lt by (intro scan_from_sorted) simp_all
  moreover have "xs @ t = pre" and "dropWhile ?P (p # ys) = rest"
    unfolding t_def pre_def rest_def l
    using takeWhile_below_node [of xs p ys "bb_block n"] lt srt l by simp_all
  ultimately have sc: "scan_from (bb_block n) (p # ys) = (t, rest)" and pre: "xs @ t = pre"
    by simp_all
  have tk: "t \<noteq> []" using lt by (simp add: t_def)
  then obtain t0 q where t: "t = t0 @ [q]" by (cases t rule: rev_cases) auto
  define pre0 where "pre0 = xs @ t0"
  have q: "pre = pre0 @ [q]" using pre t by (simp add: pre0_def)
  have s1: "blocks_sorted (pre @ n # rest)"
    unfolding pre_def rest_def by (rule sorted_insert_new [OF srt nb])
  have d1: "distinct (map bb_addr (pre @ n # rest))"
    using dst na by (intro distinct_insert_new) (simp_all add: pre_def rest_def)
  define bbl1 where "bbl1 = bbl\<lparr>last_used := Some (bb_addr n), data_blocks := pre @ n # rest\<rparr>"
  obtain n' r where m: "merge_right ?bs n rest = n' # r" using merge_right_nonempty by blast
  then have n': "bb_addr n' = bb_addr n" "bb_block n' = bb_block n" using hd_merge_right by blast+
  define bbl2 where "bbl2 = bbl1\<lparr>data_blocks := pre0 @ q # n' # r\<rparr>"
  have "\<exists>c. merge_bb bbl1 (Some (bb_addr n)) (node_next (bb_addr n) (data_blocks bbl1)) =
      Ok (c, bbl1\<lparr>data_blocks := pre @ merge_right (bbl_block_size bbl1) n rest\<rparr>)"
    using d1 s1 bs
    by (intro merge_bb_right) (auto simp: bbl1_def blocks_sorted_def sorted_wrt_append)
  then obtain c where m1:
    "merge_bb bbl1 (Some (bb_addr n)) (node_next (bb_addr n) (data_blocks bbl1)) = Ok (c, bbl2)"
    using m q by (auto simp: bbl1_def bbl2_def)
  have "distinct (map bb_addr (pre0 @ q # n' # r))"
    using merge_right_distinct [OF d1, of ?bs] m q by simp
  moreover have "bb_block q < bb_block n'"
    using s1 q n' by (simp add: blocks_sorted_def sorted_wrt_append)
  ultimately have m2: "merge_bb bbl2 (Some (bb_addr q)) (Some (bb_addr n')) =
      (if can_merge ?bs q n' then Ok (0, bbl2\<lparr>data_blocks := pre0 @ merged q n' # r\<rparr>)
       else Ok (- EINVAL, bbl2))"
    using merge_bb_neighbours [of bbl2 pre0 q n' r] bs by (simp add: bbl2_def bbl1_def)
  have qs: "queue_spec ?bs n ?l = pre0 @ merge_right ?bs q (n' # r)"
    using q m by (simp add: queue_spec_def flip: pre_def rest_def)
  have "queue_insert bbl (bb_addr p) n =
      obind (merge_bb bbl1 (Some (bb_addr n)) (node_next (bb_addr n) (data_blocks bbl1)))
        (\<lambda>(_, b2). obind (merge_bb b2 (Some (bb_addr (last t))) (Some (bb_addr n)))
           (\<lambda>(_, b3). Ok (0, b3)))"
    by (simp add: queue_insert_def fn un sc bbl1_def flip: pre)
  also have "\<dots> = Ok (0, bbl2\<lparr>data_blocks := pre0 @ merge_right ?bs q (n' # r)\<rparr>)"
    using m2 by (simp add: m1 t n' merge_right_def) (simp add: bbl2_def)
  finally show ?thesis by (simp add: qs bbl2_def bbl1_def)
qed

definition queue_result :: "backed_block \<Rightarrow> backed_block_list \<Rightarrow> backed_block_list" where
  "queue_result n bbl = bbl\<lparr>last_used := queue_last_used n bbl,
     data_blocks := queue_spec (bbl_block_size bbl) n (data_blocks bbl)\<rparr>"

lemma queue_bb_spec:
  assumes wf: "bbl_wf bbl" and live: "last_used_live bbl"
    and nb: "bb_block n \<notin> bb_block ` set (data_blocks bbl)"
    and na: "bb_addr n \<notin> bb_addr ` set (data_blocks bbl)"
  shows "queue_bb bbl n = Ok (0, queue_result n bbl)"
proof (cases "data_blocks bbl")
  case Nil
  then show ?thesis
    by (simp add: queue_bb_def queue_result_def queue_last_used_def queue_spec_def)
next
  case (Cons h l)
  show ?thesis
  proof (cases "bb_block n < bb_block h")
    case True
    then show ?thesis
      using Cons
      by (simp add: queue_bb_def queue_result_def queue_last_used_def queue_spec_def)
  next
    case False
    moreover have "bb_block n \<noteq> bb_block h" using nb Cons by auto
    ultimately have h: "bb_block h < bb_block n" by (simp add: neq_iff)
    have eq: "queue_insert bbl (bb_addr p) n = Ok (0, queue_result n bbl)"
      if "data_blocks bbl = xs @ p # ys" "bb_block p < bb_block n" for xs p ys
    proof -
      have "queue_last_used n bbl = Some (bb_addr n)"
        using h by (simp add: queue_last_used_def Cons)
      then show ?thesis using queue_insert_spec [OF wf that nb na] by (simp add: queue_result_def)
    qed
    have hd: "queue_insert bbl (bb_addr h) n = Ok (0, queue_result n bbl)"
      using eq [of "[]" h l] h Cons by simp
    show ?thesis
    proof (cases "last_used bbl")
      case None
      with hd Cons False show ?thesis by (simp add: queue_bb_def)
    next
      case (Some p)
      then obtain lu where lu: "node_at p (data_blocks bbl) = Some lu"
        using live node_at_None_iff [of p "data_blocks bbl"] by (auto simp: last_used_live_def)
      then obtain xs ys where "data_blocks bbl = xs @ lu # ys" "bb_addr lu = p"
        by (elim node_at_SomeD)
      then have "bb_block lu < bb_block n \<Longrightarrow> queue_insert bbl p n = Ok (0, queue_result n bbl)"
        using eq by blast
      with hd lu Some Cons False show ?thesis by (simp add: queue_bb_def)
    qed
  qed
qed

lemma queue_spec_cases:
  assumes "blocks_sorted l" and "bb_block n \<notin> bb_block ` set l"
  obtains (front) "queue_spec bs n l = n # l" and "blocks_sorted (n # l)"
  | (after) pre q rest where "l = pre @ q # rest" and "blocks_sorted (pre @ q # n # rest)"
      and "queue_spec bs n l = pre @ merge_right bs q (merge_right bs n rest)"
proof (cases "takeWhile (\<lambda>b. bb_block b < bb_block n) l" rule: rev_cases)
  case Nil
  moreover from Nil have "dropWhile (\<lambda>b. bb_block b < bb_block n) l = l"
    by (metis append_Nil takeWhile_dropWhile_id)
  ultimately show thesis
    using front sorted_insert_new [OF assms] by (simp add: queue_spec_def)
next
  case (snoc pre q)
  let ?rest = "dropWhile (\<lambda>b. bb_block b < bb_block n) l"
  have "l = pre @ q # ?rest"
    using takeWhile_dropWhile_id [of "\<lambda>b. bb_block b < bb_block n" l] snoc by simp
  moreover have "blocks_sorted (pre @ q # n # ?rest)"
    using sorted_insert_new [OF assms] snoc by simp
  moreover have "queue_spec bs n l = pre @ merge_right bs q (merge_right bs n ?rest)"
    using snoc by (simp add: queue_spec_def)
  ultimately show thesis by (rule after)
qed

lemma merge_right_twice_sorted:
  assumes "blocks_sorted (xs @ q # n # rest)"
  shows "blocks_sorted (xs @ merge_right bs q (merge_right bs n rest))"
  using merge_right_sorted [of "xs @ [q]" n rest bs] merge_right_sorted [of xs q "merge_right bs n rest" bs] assms
  by simp

lemma merge_right_twice_distinct:
  assumes "distinct (map bb_addr (xs @ q # n # rest))"
  shows "distinct (map bb_addr (xs @ merge_right bs q (merge_right bs n rest)))"
  using merge_right_distinct [of "xs @ [q]" n rest bs] merge_right_distinct [of xs q "merge_right bs n rest" bs] assms
  by simp

lemma queue_spec_wf:
  assumes "blocks_sorted l" and "bb_block n \<notin> bb_block ` set l"
    and "distinct (map bb_addr l)" and "bb_addr n \<notin> bb_addr ` set l"
  shows "blocks_sorted (queue_spec bs n l)"
    and "distinct (map bb_addr (queue_spec bs n l))"
    and "bb_addr ` set (queue_spec bs n l) \<subseteq> insert (bb_addr n) (bb_addr ` set l)"
proof -
  have "blocks_sorted (queue_spec bs n l) \<and> distinct (map bb_addr (queue_spec bs n l)) \<and>
    bb_addr ` set (queue_spec bs n l) \<subseteq> insert (bb_addr n) (bb_addr ` set l)"
    using assms(1,2)
  proof (cases rule: queue_spec_cases [where bs = bs])
    case front
    then show ?thesis using assms(3,4) by auto
  next
    case (after pre q rest)
    have "distinct (map bb_addr (pre @ q # n # rest))" using assms(3,4) after(1) by auto
    then have "distinct (map bb_addr (queue_spec bs n l))"
      unfolding after(3) by (rule merge_right_twice_distinct)
    moreover have "blocks_sorted (queue_spec bs n l)"
      unfolding after(3) using after(2) by (rule merge_right_twice_sorted)
    moreover have "bb_addr ` set (queue_spec bs n l) \<subseteq> insert (bb_addr n) (bb_addr ` set l)"
    proof -
      have "set l = set pre \<union> insert q (set rest)" by (simp add: after(1))
      then show ?thesis
        unfolding after(3)
        using merge_right_addrs [of bs q "merge_right bs n rest"] merge_right_addrs [of bs n rest] by auto
    qed
    ultimately show ?thesis by simp
  qed
  then show "blocks_sorted (queue_spec bs n l)"
    and "distinct (map bb_addr (queue_spec bs n l))"
    and "bb_addr ` set (queue_spec bs n l) \<subseteq> insert (bb_addr n) (bb_addr ` set l)" by simp_all
qed


lemma queue_result_wf:
  assumes "bbl_wf bbl" and "bb_block n \<notin> bb_block ` set (data_blocks bbl)"
    and "bb_addr n \<notin> bb_addr ` set (data_blocks bbl)" and "bb_addr n < next_addr bbl"
  shows "bbl_wf (queue_result n bbl)"
  using assms queue_spec_wf [of "data_blocks bbl" n "bbl_block_size bbl"]
  by (auto simp: bbl_wf_def queue_result_def)

section \<open>The image of a block list\<close>

text \<open>
  A position \<open>p\<close> of the expanded file is in a block if it
  lies in \<open>[block * block_size, block * block_size + len)\<close>; the region convention of \<open>sparse.h\<close>.
\<close>

fun payload_byte :: "media \<Rightarrow> bb_payload \<Rightarrow> nat \<Rightarrow> u8" where
  "payload_byte m (BACKED_BLOCK_DATA p) i = memory m (p + i)"
| "payload_byte m (BACKED_BLOCK_FILE _ f off) i = file_byte m f (off + int i)"
| "payload_byte m (BACKED_BLOCK_FD fd off) i = fd_byte m fd (off + int i)"
| "payload_byte m (BACKED_BLOCK_FILL v) i = le32 v ! (i mod 4)"

definition bb_start :: "u32 \<Rightarrow> backed_block \<Rightarrow> nat" where
  "bb_start bs b = unat (bb_block b) * unat bs"

definition bb_end :: "u32 \<Rightarrow> backed_block \<Rightarrow> nat" where
  "bb_end bs b = bb_start bs b + unat (bb_len b)"

definition bb_image :: "media \<Rightarrow> u32 \<Rightarrow> backed_block \<Rightarrow> nat \<rightharpoonup> u8" where
  "bb_image m bs b p =
     (if bb_start bs b \<le> p \<and> p < bb_end bs b
      then Some (payload_byte m (bb_payload b) (p - bb_start bs b)) else None)"

fun blocks_image :: "media \<Rightarrow> u32 \<Rightarrow> backed_block list \<Rightarrow> nat \<rightharpoonup> u8" where
  "blocks_image m bs [] = Map.empty"
| "blocks_image m bs (b # l) = bb_image m bs b ++ blocks_image m bs l"

definition regions_ok :: "u32 \<Rightarrow> backed_block list \<Rightarrow> bool" where
  "regions_ok bs l \<longleftrightarrow>
     sorted_wrt (\<lambda>a b. bb_end bs a \<le> bb_start bs b) l \<and>
     (\<forall>b \<in> set l. bb_start bs b < bb_end bs b \<and> bb_end bs b < 2 ^ 32)"

lemma blocks_image_append [simp]:
  "blocks_image m bs (xs @ ys) = blocks_image m bs xs ++ blocks_image m bs ys"
  by (induction xs) simp_all

lemma payload_byte_advance:
  "4 dvd unat n \<Longrightarrow> payload_byte m (advance_payload pl n) i = payload_byte m pl (unat n + i)"
proof (cases pl)
  case (BACKED_BLOCK_FILL v)
  moreover assume "4 dvd unat n"
  then have "(unat n + i) mod 4 = i mod 4" by (metis dvd_imp_mod_0 mod_add_left_eq add_0)
  ultimately show ?thesis by simp
qed (simp_all add: add.assoc)

text \<open>Two blocks that share a file name pointer share the file name.\<close>

fun same_name :: "bb_payload \<Rightarrow> bb_payload \<Rightarrow> bool" where
  "same_name (BACKED_BLOCK_FILE p f _) (BACKED_BLOCK_FILE q g _) \<longleftrightarrow> (p = q \<longrightarrow> f = g)"
| "same_name _ _ \<longleftrightarrow> True"

definition names_ok :: "backed_block list \<Rightarrow> bool" where
  "names_ok l \<longleftrightarrow> (\<forall>a \<in> set l. \<forall>b \<in> set l. same_name (bb_payload a) (bb_payload b))"

lemma fill_shift: "4 dvd n \<Longrightarrow> (n + i) mod 4 = i mod (4 :: nat)"
  by (metis dvd_imp_mod_0 mod_add_left_eq add_0)

lemma mergeable_payload_byte:
  assumes "same_type (bb_payload a) (bb_payload b)" and "mergeable a (bb_payload a) (bb_payload b)"
    and "same_name (bb_payload a) (bb_payload b)" and "4 dvd unat (bb_len a)"
  shows "payload_byte m (bb_payload b) i = payload_byte m (bb_payload a) (unat (bb_len a) + i)"
  using assms
  by (cases "bb_payload a"; cases "bb_payload b") (simp_all add: fill_shift add.assoc)

lemma can_merge_aligned:
  assumes "can_merge bs a b" and "bs \<noteq> 0" and "bb_end bs a \<le> bb_start bs b" and "bb_end bs a < 2 ^ 32"
  shows "unat bs dvd unat (bb_len a)" and "bb_end bs a = bb_start bs b"
proof -
  let ?q = "unat (bb_len a) div unat bs"
  have bs: "0 < unat bs" using assms(2) by (simp add: word_pos_unat)
  have "unat (bb_block a) + ?q \<le> unat (bb_block a) * unat bs + unat (bb_len a)"
    using bs by (intro add_mono) simp_all
  then have "unat (bb_block a) + ?q < 2 ^ 32"
    using assms(4) by (simp add: bb_end_def bb_start_def)
  then have "unat (bb_block b) = unat (bb_block a) + ?q"
    using assms(1) by (metis can_merge_def unat_add_u32 unat_div_u32)
  then have "bb_start bs b = bb_start bs a + ?q * unat bs"
    by (simp add: bb_start_def add_mult_distrib)
  moreover have "?q * unat bs \<le> unat (bb_len a)" by (rule div_times_less_eq_dividend)
  ultimately have "?q * unat bs = unat (bb_len a)" and "bb_end bs a = bb_start bs b"
    using assms(3) unfolding bb_end_def by linarith+
  then show "unat bs dvd unat (bb_len a)" and "bb_end bs a = bb_start bs b"
    by (metis dvd_triv_right, simp)
qed

lemma merged_region:
  assumes "can_merge bs a b" and "bs \<noteq> 0" and "regions_ok bs [a, b]"
  shows "bb_start bs (merged a b) = bb_start bs a" and "bb_end bs (merged a b) = bb_end bs b"
proof -
  have "bb_end bs a = bb_start bs b"
    using can_merge_aligned [OF assms(1,2)] assms(3) by (simp add: regions_ok_def)
  moreover have "bb_end bs b < 2 ^ 32" using assms(3) by (simp add: regions_ok_def)
  ultimately have "unat (bb_len a) + unat (bb_len b) < 2 ^ 32"
    by (simp add: bb_end_def)
  then show "bb_start bs (merged a b) = bb_start bs a" and "bb_end bs (merged a b) = bb_end bs b"
    using \<open>bb_end bs a = bb_start bs b\<close> by (simp_all add: bb_start_def bb_end_def unat_add_u32)
qed

lemma merged_image:
  assumes cm: "can_merge bs a b" and bs: "bs \<noteq> 0" "4 dvd unat bs"
    and ok: "regions_ok bs [a, b]" and nm: "same_name (bb_payload a) (bb_payload b)"
  shows "bb_image m bs (merged a b) = bb_image m bs a ++ bb_image m bs b"
proof
  fix p
  have al: "unat bs dvd unat (bb_len a)" and adj: "bb_end bs a = bb_start bs b"
    using can_merge_aligned [OF cm bs(1)] ok by (simp_all add: regions_ok_def)
  have "4 dvd unat (bb_len a)" using al bs(2) by (rule dvd_trans [rotated])
  then have byte: "payload_byte m (bb_payload b) i = payload_byte m (bb_payload a) (unat (bb_len a) + i)" for i
    using cm nm by (intro mergeable_payload_byte) (simp_all add: can_merge_def)
  have "payload_byte m (bb_payload b) (p - bb_start bs b) = payload_byte m (bb_payload a) (p - bb_start bs a)"
    if "bb_start bs b \<le> p"
  proof -
    have "unat (bb_len a) + (p - bb_start bs b) = p - bb_start bs a"
      using that adj by (simp add: bb_end_def)
    then show ?thesis using byte [of "p - bb_start bs b"] by simp
  qed
  moreover have "bb_start bs a \<le> bb_end bs a" "bb_start bs b \<le> bb_end bs b" by (simp_all add: bb_end_def)
  ultimately show "bb_image m bs (merged a b) p = (bb_image m bs a ++ bb_image m bs b) p"
    using adj merged_region [OF cm bs(1) ok]
    by (auto simp: bb_image_def map_add_def)
qed


lemma bb_image_outside: "p < bb_start bs b \<or> bb_end bs b \<le> p \<Longrightarrow> bb_image m bs b p = None"
  by (auto simp: bb_image_def)

lemma dom_bb_image: "dom (bb_image m bs b) = {bb_start bs b ..< bb_end bs b}"
  by (auto simp: bb_image_def split: if_splits)

lemma dom_blocks_image: "dom (blocks_image m bs l) = (\<Union>b \<in> set l. {bb_start bs b ..< bb_end bs b})"
  by (induction l) (auto simp: dom_bb_image)

lemma regions_ok_Nil [simp]: "regions_ok bs []"
  by (simp add: regions_ok_def)

lemma regions_ok_append:
  "regions_ok bs (xs @ ys) \<longleftrightarrow> regions_ok bs xs \<and> regions_ok bs ys \<and>
     (\<forall>a \<in> set xs. \<forall>b \<in> set ys. bb_end bs a \<le> bb_start bs b)"
  by (auto simp: regions_ok_def sorted_wrt_append)

lemma regions_ok_Cons:
  "regions_ok bs (a # ys) \<longleftrightarrow> bb_start bs a < bb_end bs a \<and> bb_end bs a < 2 ^ 32 \<and> regions_ok bs ys \<and>
     (\<forall>b \<in> set ys. bb_end bs a \<le> bb_start bs b)"
  by (auto simp: regions_ok_def)

text \<open>Blocks whose regions are disjoint can be listed in either order.\<close>

lemma bb_image_comm:
  assumes "\<forall>b \<in> set l. bb_end bs n \<le> bb_start bs b \<or> bb_end bs b \<le> bb_start bs n"
  shows "bb_image m bs n ++ blocks_image m bs l = blocks_image m bs l ++ bb_image m bs n"
proof (rule map_add_comm)
  have False if "b \<in> set l" "bb_start bs n \<le> p" "p < bb_end bs n" "bb_start bs b \<le> p" "p < bb_end bs b"
    for p b
    using assms that by fastforce
  then show "dom (bb_image m bs n) \<inter> dom (blocks_image m bs l) = {}"
    unfolding dom_bb_image dom_blocks_image by (auto simp: disjoint_iff)
qed

lemma merge_right_image:
  assumes "bs \<noteq> 0" "4 dvd unat bs" and "regions_ok bs (xs @ b # rest)" and "names_ok (xs @ b # rest)"
  shows "blocks_image m bs (xs @ merge_right bs b rest) = blocks_image m bs (xs @ b # rest)
    \<and> regions_ok bs (xs @ merge_right bs b rest) \<and> names_ok (xs @ merge_right bs b rest)"
proof (cases "rest \<noteq> [] \<and> can_merge bs b (hd rest)")
  case True
  then obtain c r where r: "rest = c # r" and cm: "can_merge bs b c" by (cases rest) auto
  have ok: "regions_ok bs [b, c]" using assms(3) r by (simp add: regions_ok_append regions_ok_Cons)
  have "same_name (bb_payload b) (bb_payload c)" using assms(4) r by (simp add: names_ok_def)
  then have "bb_image m bs (merged b c) = bb_image m bs b ++ bb_image m bs c"
    by (rule merged_image [OF cm assms(1,2) ok])
  moreover have "bb_start bs (merged b c) = bb_start bs b" "bb_end bs (merged b c) = bb_end bs c"
    using merged_region [OF cm assms(1) ok] by simp_all
  ultimately show ?thesis
    using assms(3,4) r cm
    by (simp add: merge_right_def regions_ok_Cons regions_ok_append names_ok_def)
next
  case False
  then have "merge_right bs b rest = b # rest"
    by (auto simp: merge_right_def split: list.splits)
  then show ?thesis using assms(3,4) by simp
qed

definition region_free :: "u32 \<Rightarrow> backed_block \<Rightarrow> backed_block list \<Rightarrow> bool" where
  "region_free bs n l \<longleftrightarrow>
     bb_start bs n < bb_end bs n \<and> bb_end bs n < 2 ^ 32 \<and>
     (\<forall>b \<in> set l. bb_end bs n \<le> bb_start bs b \<or> bb_end bs b \<le> bb_start bs n)"

lemma bb_start_mono: "bs \<noteq> 0 \<Longrightarrow> bb_block a < bb_block b \<Longrightarrow> bb_start bs a < bb_start bs b"
  by (simp add: bb_start_def word_less_nat_alt word_pos_unat)

lemma bb_start_le_end [simp]: "bb_start bs b \<le> bb_end bs b"
  by (simp add: bb_end_def)

lemma region_before:
  assumes "bs \<noteq> 0" and "bb_block a < bb_block b"
    and "bb_end bs a \<le> bb_start bs b \<or> bb_end bs b \<le> bb_start bs a"
  shows "bb_end bs a \<le> bb_start bs b"
  using bb_start_mono [OF assms(1,2)] bb_start_le_end [of bs b] assms(3) by linarith

lemma queue_spec_image:
  assumes bs: "bs \<noteq> 0" "4 dvd unat bs" and l: "blocks_sorted l" "bb_block n \<notin> bb_block ` set l"
    and ok: "regions_ok bs l" and free: "region_free bs n l" and nm: "names_ok (n # l)"
  shows "blocks_image m bs (queue_spec bs n l) = blocks_image m bs l ++ bb_image m bs n"
    and "regions_ok bs (queue_spec bs n l)" and "names_ok (queue_spec bs n l)"
proof -
  have comm: "bb_image m bs n ++ blocks_image m bs xs = blocks_image m bs xs ++ bb_image m bs n"
    if "set xs \<subseteq> set l" for xs
    using free that by (intro bb_image_comm) (auto simp: region_free_def)
  have bef: "bb_end bs b \<le> bb_start bs n" if "b \<in> set l" "bb_block b < bb_block n" for b
    using free that region_before [OF bs(1), of b n] by (auto simp: region_free_def)
  have aft: "bb_end bs n \<le> bb_start bs b" if "b \<in> set l" "bb_block n < bb_block b" for b
    using free that region_before [OF bs(1), of n b] by (auto simp: region_free_def)
  have "blocks_image m bs (queue_spec bs n l) = blocks_image m bs l ++ bb_image m bs n
      \<and> regions_ok bs (queue_spec bs n l) \<and> names_ok (queue_spec bs n l)"
    using l
  proof (cases rule: queue_spec_cases [where bs = bs])
    case front
    then have "regions_ok bs (n # l)"
      using ok free aft by (auto simp: regions_ok_Cons region_free_def blocks_sorted_def)
    with front comm [of l] nm show ?thesis by simp
  next
    case (after pre q rest)
    have r: "regions_ok bs ((pre @ [q]) @ n # rest)"
      using ok free after(1,2) aft bef
      by (auto simp: regions_ok_append regions_ok_Cons region_free_def blocks_sorted_def sorted_wrt_append)
    have "names_ok ((pre @ [q]) @ n # rest)" using nm after(1) by (auto simp: names_ok_def)
    note m1 = merge_right_image [OF bs r this, of m]
    from m1 have "regions_ok bs (pre @ q # merge_right bs n rest)" "names_ok (pre @ q # merge_right bs n rest)"
      by simp_all
    note m2 = merge_right_image [OF bs this, of m]
    have "blocks_image m bs (queue_spec bs n l) = blocks_image m bs (pre @ [q]) ++ (bb_image m bs n ++ blocks_image m bs rest)"
      unfolding after(3) using m1 m2 by simp
    also have "\<dots> = blocks_image m bs l ++ bb_image m bs n"
    proof -
      have "bb_image m bs n ++ blocks_image m bs rest = blocks_image m bs rest ++ bb_image m bs n"
        using after(1) by (intro comm) auto
      then show ?thesis by (simp add: after(1) del: map_add_assoc) (simp add: after(1))
    qed
    finally show ?thesis using m2 after(3) by simp
  qed
  then show "blocks_image m bs (queue_spec bs n l) = blocks_image m bs l ++ bb_image m bs n"
    and "regions_ok bs (queue_spec bs n l)" and "names_ok (queue_spec bs n l)" by simp_all
qed

section \<open>The invariant of the block list\<close>

fun ptr_below :: "nat \<Rightarrow> bb_payload \<Rightarrow> bool" where
  "ptr_below k (BACKED_BLOCK_FILE p _ _) \<longleftrightarrow> p < k"
| "ptr_below k _ \<longleftrightarrow> True"

fun fresh_payload :: "nat \<Rightarrow> bb_payload \<Rightarrow> bool" where
  "fresh_payload k (BACKED_BLOCK_FILE p _ _) \<longleftrightarrow> p = k"
| "fresh_payload k _ \<longleftrightarrow> True"

definition bbl_inv :: "backed_block_list \<Rightarrow> bool" where
  "bbl_inv bbl \<longleftrightarrow>
     bbl_wf bbl \<and>
     4 dvd unat (bbl_block_size bbl) \<and>
     regions_ok (bbl_block_size bbl) (data_blocks bbl) \<and>
     names_ok (data_blocks bbl) \<and>
     (\<forall>b \<in> set (data_blocks bbl). ptr_below (next_addr bbl) (bb_payload b))"

definition bbl_image :: "media \<Rightarrow> backed_block_list \<Rightarrow> nat \<rightharpoonup> u8" where
  "bbl_image m bbl = blocks_image m (bbl_block_size bbl) (data_blocks bbl)"

definition new_node :: "backed_block_list \<Rightarrow> bb_payload \<Rightarrow> u32 \<Rightarrow> u32 \<Rightarrow> backed_block" where
  "new_node bbl pl len block =
     \<lparr>bb_addr = next_addr bbl, bb_block = block, bb_len = len, bb_payload = pl\<rparr>"

definition add_ok :: "backed_block_list \<Rightarrow> bb_payload \<Rightarrow> u32 \<Rightarrow> u32 \<Rightarrow> bool" where
  "add_ok bbl pl len block \<longleftrightarrow>
     fresh_payload (next_addr bbl) pl \<and>
     region_free (bbl_block_size bbl) (new_node bbl pl len block) (data_blocks bbl)"

lemma backed_block_add_queue:
  "backed_block_add True bbl pl len block =
     queue_bb (bbl\<lparr>next_addr := next_addr bbl + 1\<rparr>) (new_node bbl pl len block)"
  by (simp add: backed_block_add_def new_node_def)

lemma region_free_new_block:
  assumes "region_free bs n l" and "regions_ok bs l"
  shows "bb_block n \<notin> bb_block ` set l"
proof
  assume "bb_block n \<in> bb_block ` set l"
  then obtain b where b: "b \<in> set l" "bb_block b = bb_block n" by auto
  then have "bb_start bs b = bb_start bs n" by (simp add: bb_start_def)
  moreover have "bb_start bs b < bb_end bs b" using assms(2) b(1) by (simp add: regions_ok_def)
  ultimately show False using assms(1) b(1) by (auto simp: region_free_def)
qed

lemma names_ok_new:
  assumes "names_ok l" and "\<forall>b \<in> set l. ptr_below k (bb_payload b)" and "fresh_payload k (bb_payload n)"
  shows "names_ok (n # l)"
proof -
  have "same_name (bb_payload n) (bb_payload b) \<and> same_name (bb_payload b) (bb_payload n)" if "b \<in> set l" for b
    using assms(2,3) that by (cases "bb_payload n"; cases "bb_payload b") auto
  moreover have "same_name (bb_payload n) (bb_payload n)" by (cases "bb_payload n") simp_all
  ultimately show ?thesis using assms(1) by (simp add: names_ok_def)
qed

lemma queue_spec_payloads:
  "bb_payload ` set (queue_spec bs n l) \<subseteq> insert (bb_payload n) (bb_payload ` set l)"
proof -
  have mr: "bb_payload ` set (merge_right bs b r) \<subseteq> insert (bb_payload b) (bb_payload ` set r)" for b r
    by (auto simp: merge_right_def split: list.splits)
  let ?t = "takeWhile (\<lambda>b. bb_block b < bb_block n) l" and ?d = "dropWhile (\<lambda>b. bb_block b < bb_block n) l"
  have t: "bb_payload ` set (butlast ?t) \<subseteq> bb_payload ` set l"
    and d: "bb_payload ` set ?d \<subseteq> bb_payload ` set l"
    by (auto dest!: in_set_butlastD set_takeWhileD set_dropWhileD)
  show ?thesis
  proof (cases "?t = []")
    case True
    then show ?thesis by (simp add: queue_spec_def)
  next
    case False
    then have q: "bb_payload (last ?t) \<in> bb_payload ` set l"
      by (metis image_eqI last_in_set set_takeWhileD)
    have "queue_spec bs n l = butlast ?t @ merge_right bs (last ?t) (merge_right bs n ?d)"
      using False by (simp add: queue_spec_def Let_def)
    moreover have "A \<union> B \<subseteq> insert y L"
      if "A \<subseteq> L" "B \<subseteq> insert x C" "C \<subseteq> insert y D" "D \<subseteq> L" "x \<in> L"
      for A B C D L :: "bb_payload set" and x y
      using that by blast
    from this [OF t mr mr d q] have "bb_payload ` set (butlast ?t) \<union>
        bb_payload ` set (merge_right bs (last ?t) (merge_right bs n ?d))
      \<subseteq> insert (bb_payload n) (bb_payload ` set l)" .
    ultimately show ?thesis by (simp only: set_append image_Un)
  qed
qed

lemma add_result_inv:
  assumes inv: "bbl_inv bbl" and ok: "add_ok bbl pl len block"
  defines "n \<equiv> new_node bbl pl len block" and "bbl0 \<equiv> bbl\<lparr>next_addr := next_addr bbl + 1\<rparr>"
  shows "bbl_wf bbl0" and "bb_block n \<notin> bb_block ` set (data_blocks bbl0)"
    and "bb_addr n \<notin> bb_addr ` set (data_blocks bbl0)"
    and "bbl_inv (queue_result n bbl0)"
    and "bbl_image m (queue_result n bbl0) = bbl_image m bbl ++ bb_image m (bbl_block_size bbl) n"
proof -
  let ?bs = "bbl_block_size bbl" and ?l = "data_blocks bbl"
  have wf: "bbl_wf bbl" and bs: "?bs \<noteq> 0" "4 dvd unat ?bs" and srt: "blocks_sorted ?l"
    and r: "regions_ok ?bs ?l" and nm: "names_ok ?l"
    and ptr: "\<forall>b \<in> set ?l. ptr_below (next_addr bbl) (bb_payload b)"
    using inv by (auto simp: bbl_inv_def bbl_wf_def)
  have free: "region_free ?bs n ?l" and fr: "fresh_payload (next_addr bbl) (bb_payload n)"
    using ok by (simp_all add: add_ok_def n_def new_node_def)
  show wf0: "bbl_wf bbl0" using wf by (auto simp: bbl_wf_def bbl0_def)
  show nb: "bb_block n \<notin> bb_block ` set (data_blocks bbl0)"
    using region_free_new_block [OF free r] by (simp add: bbl0_def)
  show na: "bb_addr n \<notin> bb_addr ` set (data_blocks bbl0)"
    using wf by (auto simp: bbl_wf_def bbl0_def n_def new_node_def)
  have "names_ok (n # ?l)" by (rule names_ok_new [OF nm ptr fr])
  note img = queue_spec_image [OF bs srt _ r free this]
  have nb': "bb_block n \<notin> bb_block ` set ?l" using nb by (simp add: bbl0_def)
  show "bbl_image m (queue_result n bbl0) = bbl_image m bbl ++ bb_image m (bbl_block_size bbl) n"
    using img(1) [OF nb'] by (simp add: bbl_image_def queue_result_def bbl0_def)
  have "ptr_below (next_addr bbl + 1) (bb_payload b)" if "b \<in> set (queue_spec ?bs n ?l)" for b
  proof -
    have "bb_payload b \<in> insert (bb_payload n) (bb_payload ` set ?l)"
      using queue_spec_payloads [of ?bs n ?l] that by auto
    moreover have "ptr_below (next_addr bbl + 1) (bb_payload n)" using fr by (cases "bb_payload n") auto
    moreover have "ptr_below (next_addr bbl + 1) (bb_payload c)" if "c \<in> set ?l" for c
      using ptr that by (cases "bb_payload c") auto
    ultimately show ?thesis by auto
  qed
  moreover have "bbl_wf (queue_result n bbl0)"
    using wf0 nb na by (rule queue_result_wf) (simp add: n_def bbl0_def new_node_def)
  ultimately show "bbl_inv (queue_result n bbl0)"
    using img(2,3) [OF nb'] bs by (simp add: bbl_inv_def queue_result_def bbl0_def)
qed

lemma backed_block_add_result:
  assumes "bbl_inv bbl" and "last_used_live bbl" and "add_ok bbl pl len block"
  shows "backed_block_add True bbl pl len block =
    Ok (0, queue_result (new_node bbl pl len block) (bbl\<lparr>next_addr := next_addr bbl + 1\<rparr>))"
  unfolding backed_block_add_queue
  using assms(2) by (intro queue_bb_spec add_result_inv [OF assms(1,3)]) simp

text \<open>A list with one fill block, used to instantiate the properties below.\<close>

definition demo_list :: backed_block_list where
  "demo_list =
     \<lparr>data_blocks = [\<lparr>bb_addr = 0, bb_block = 0, bb_len = 4096, bb_payload = BACKED_BLOCK_FILL 7\<rparr>],
      last_used = None, bbl_block_size = 4096, next_addr = 1\<rparr>"

definition demo_media :: media where
  "demo_media = \<lparr>memory = (\<lambda>a. word_of_nat a), file_byte = (\<lambda>_ p. word_of_int p), fd_byte = (\<lambda>_ p. word_of_int p)\<rparr>"

lemma demo_list_inv: "bbl_inv demo_list" and demo_list_live: "last_used_live demo_list"
  by (simp_all add: demo_list_def bbl_inv_def bbl_wf_def blocks_sorted_def regions_ok_Cons
      bb_end_def bb_start_def names_ok_def last_used_live_def)

lemma demo_list_add_ok: "add_ok demo_list (BACKED_BLOCK_FILL 7) 4096 1"
  by (simp add: demo_list_def add_ok_def region_free_def new_node_def bb_end_def bb_start_def)

section \<open>Properties of the block list\<close>





lemma merge_bb_assert:
  assumes "node_at p (data_blocks bbl) = Some a" and "node_at q (data_blocks bbl) = Some b"
    and "bb_block a = bb_block b"
  shows "merge_bb bbl (Some p) (Some q) = Fault Assert_Fail"
  using assms by (simp add: merge_bb_def)

lemma duplicate_next:
  assumes "blocks_sorted l" and "bb_block n \<in> bb_block ` set l"
  obtains c r where "dropWhile (\<lambda>b. bb_block b < bb_block n) l = c # r" and "bb_block c = bb_block n"
proof -
  from assms(2) obtain xs c ys where l: "l = xs @ c # ys" and c: "bb_block c = bb_block n"
    by (metis imageE split_list)
  have "\<forall>b \<in> set xs. bb_block b < bb_block n"
    using assms(1) l c by (auto simp: blocks_sorted_def sorted_wrt_append)
  then have "dropWhile (\<lambda>b. bb_block b < bb_block n) l = c # ys"
    using c by (simp add: l dropWhile_append2)
  with c show thesis using that by blast
qed

lemma queue_insert_duplicate:
  assumes wf: "bbl_wf bbl" and l: "data_blocks bbl = xs @ p # ys" and lt: "bb_block p < bb_block n"
    and nb: "bb_block n \<in> bb_block ` set (data_blocks bbl)"
    and na: "bb_addr n \<notin> bb_addr ` set (data_blocks bbl)"
  shows "queue_insert bbl (bb_addr p) n = Fault Assert_Fail"
proof -
  let ?P = "\<lambda>b. bb_block b < bb_block n" and ?l = "data_blocks bbl"
  have srt: "blocks_sorted ?l" and dst: "distinct (map bb_addr ?l)" using wf by (auto simp: bbl_wf_def)
  obtain c r where c: "dropWhile ?P ?l = c # r" "bb_block c = bb_block n" by (rule duplicate_next [OF srt nb])
  define t where "t = takeWhile ?P (p # ys)"
  have "bb_addr p \<notin> bb_addr ` set xs" using dst l by auto
  then have fn: "from_node (bb_addr p) ?l = p # ys" and un: "upto_node (bb_addr p) ?l = xs"
    by (simp_all add: l)
  have "blocks_sorted (p # ys)" using srt l by (simp add: blocks_sorted_def sorted_wrt_append)
  then have sc: "scan_from (bb_block n) (p # ys) = (t, c # r)" and pre: "xs @ t = takeWhile ?P ?l"
    using scan_from_sorted [of "p # ys" "bb_block n"] takeWhile_below_node [of xs p ys "bb_block n"] lt srt l c
    by (simp_all add: t_def)
  have whole: "?l = (xs @ t) @ c # r" using takeWhile_dropWhile_id [of ?P ?l] pre c by simp
  define L where "L = (xs @ t) @ n # c # r"
  have nx: "bb_addr n \<notin> bb_addr ` set (xs @ t)" and cx: "bb_addr c \<notin> bb_addr ` set ((xs @ t) @ [n])"
    using na dst unfolding whole by auto
  have "node_at (bb_addr n) L = Some n" and "node_next (bb_addr n) L = Some (bb_addr c)"
    using nx unfolding L_def by (simp_all del: append_assoc)
  moreover have "node_at (bb_addr c) L = Some c"
    using node_at_at [OF cx, of r] by (simp add: L_def)
  ultimately show ?thesis
    using c by (simp add: queue_insert_def fn un sc merge_bb_assert flip: L_def [unfolded append_assoc])
qed

end
