(* ===== verification/Backed_Block_Run.thy ===== *)
theory Backed_Block_Run
  imports Backed_Block_Props
begin

text \<open>
  Behaviour of the block list over sequences of operations: what a duplicate block does, runs of
  \<open>backed_block_add_data\<close> in any order, the dangling insertion cache after a merge, splitting a block
  and moving a chain of blocks from one list to another.
\<close>

section \<open>Blocks that are already in use\<close>

lemma queue_insert_duplicate_head:
  assumes wf: "bbl_wf bbl" and l: "data_blocks bbl = h # l" and eq: "bb_block h = bb_block n"
    and na: "bb_addr n \<notin> bb_addr ` set (data_blocks bbl)"
  shows "queue_insert bbl (bb_addr h) n = Fault Assert_Fail"
proof -
  have srt: "blocks_sorted (n # l)" and dst: "distinct (map bb_addr ([h] @ n # l))" and bs: "bbl_block_size bbl \<noteq> 0"
    using wf l na eq by (auto simp: bbl_wf_def blocks_sorted_def)
  have sc: "scan_from (bb_block n) (h # l) = ([h], l)"
    using srt eq by (cases l) (auto simp: blocks_sorted_def)
  define bbl1 where "bbl1 = bbl\<lparr>last_used := Some (bb_addr n), data_blocks := [h] @ n # l\<rparr>"
  have "\<exists>c. merge_bb bbl1 (Some (bb_addr n)) (node_next (bb_addr n) (data_blocks bbl1)) =
      Ok (c, bbl1\<lparr>data_blocks := [h] @ merge_right (bbl_block_size bbl1) n l\<rparr>)"
    using dst srt bs by (intro merge_bb_right) (auto simp: bbl1_def)
  then obtain c n' r where m1:
    "merge_bb bbl1 (Some (bb_addr n)) (node_next (bb_addr n) (data_blocks bbl1)) =
      Ok (c, bbl1\<lparr>data_blocks := h # n' # r\<rparr>)" and m: "merge_right (bbl_block_size bbl1) n l = n' # r"
    using merge_right_nonempty [of "bbl_block_size bbl1" n l] by auto
  have n': "bb_addr n' = bb_addr n" "bb_block n' = bb_block n" using hd_merge_right [OF m] by simp_all
  have "bb_addr n \<noteq> bb_addr h" using na l by auto
  then have "node_at (bb_addr n) (h # n' # r) = Some n'" and "node_at (bb_addr h) (h # n' # r) = Some h"
    using node_at_at [of n' "[h]" r] n' by (simp_all add: node_at_def)
  then have "merge_bb (bbl1\<lparr>data_blocks := h # n' # r\<rparr>) (Some (bb_addr h)) (Some (bb_addr n)) = Fault Assert_Fail"
    using n' eq by (intro merge_bb_assert [of _ _ h _ n']) simp_all
  moreover have "queue_insert bbl (bb_addr h) n =
      obind (merge_bb bbl1 (Some (bb_addr n)) (node_next (bb_addr n) (data_blocks bbl1)))
        (\<lambda>(_, b2). obind (merge_bb b2 (Some (bb_addr h)) (Some (bb_addr n)))
           (\<lambda>(_, b3). Ok (0, b3)))"
    by (simp add: queue_insert_def l sc bbl1_def)
  ultimately show ?thesis by (simp add: m1)
qed



section \<open>The insertion cache after a merge\<close>


section \<open>The contract of a block store, and runs of additions\<close>

text \<open>
  What a client of the list relies on: an addition to a free region succeeds, keeps the invariant and
  extends the image by the region. From that alone, a run of additions to pairwise disjoint regions
  succeeds in any order and the image does not depend on the order.
\<close>

fun run_all :: "('s \<Rightarrow> 'r \<Rightarrow> 's outcome) \<Rightarrow> 's \<Rightarrow> 'r list \<Rightarrow> 's outcome" where
  "run_all add s [] = Ok s"
| "run_all add s (r # rs) = obind (add s r) (\<lambda>s'. run_all add s' rs)"

definition disjoint_regs :: "('r \<Rightarrow> 'k \<rightharpoonup> 'v) \<Rightarrow> 'r list \<Rightarrow> bool" where
  "disjoint_regs reg rs \<longleftrightarrow>
     distinct rs \<and> (\<forall>a \<in> set rs. \<forall>b \<in> set rs. a \<noteq> b \<longrightarrow> dom (reg a) \<inter> dom (reg b) = {})"

definition regs_union :: "('r \<Rightarrow> 'k \<rightharpoonup> 'v) \<Rightarrow> 'r list \<Rightarrow> 'k \<rightharpoonup> 'v" where
  "regs_union reg rs = foldr (\<lambda>r m. reg r ++ m) rs Map.empty"

lemma regs_union_simps [simp]:
  "regs_union reg [] = Map.empty" "regs_union reg (r # rs) = reg r ++ regs_union reg rs"
  by (simp_all add: regs_union_def)

lemma dom_regs_union: "dom (regs_union reg rs) = (\<Union>r \<in> set rs. dom (reg r))"
  by (induction rs) auto

lemma regs_union_Some:
  "disjoint_regs reg rs \<Longrightarrow> regs_union reg rs k = Some v \<longleftrightarrow> (\<exists>r \<in> set rs. reg r k = Some v)"
proof (induction rs)
  case (Cons r rs)
  have IH: "regs_union reg rs k = Some v \<longleftrightarrow> (\<exists>r \<in> set rs. reg r k = Some v)"
    using Cons by (simp add: disjoint_regs_def)
  have "k \<notin> dom (regs_union reg rs)" if "reg r k = Some w" for w
    using Cons.prems that unfolding dom_regs_union disjoint_regs_def by fastforce
  then show ?case
    using IH by (cases "reg r k") (auto simp: map_add_Some_iff domIff)
qed simp

lemma regs_union_order:
  assumes "disjoint_regs reg rs" and "disjoint_regs reg rs'" and "set rs = set rs'"
  shows "regs_union reg rs = regs_union reg rs'"
proof
  fix k
  have "regs_union reg rs k = Some v \<longleftrightarrow> regs_union reg rs' k = Some v" for v
    using assms by (simp add: regs_union_Some)
  then show "regs_union reg rs k = regs_union reg rs' k" by (metis option.exhaust)
qed

locale block_store =
  fixes add :: "'s \<Rightarrow> 'r \<Rightarrow> 's outcome"
    and inv :: "'s \<Rightarrow> bool"
    and valid :: "'r \<Rightarrow> bool"
    and image :: "'s \<Rightarrow> 'k \<rightharpoonup> 'v"
    and reg :: "'r \<Rightarrow> 'k \<rightharpoonup> 'v"
  assumes add_free: "inv s \<Longrightarrow> valid r \<Longrightarrow> dom (image s) \<inter> dom (reg r) = {} \<Longrightarrow>
    \<exists>s'. add s r = Ok s' \<and> inv s' \<and> image s' = image s ++ reg r"
begin

lemma run_image:
  assumes "inv s" and "list_all valid rs" and "disjoint_regs reg rs"
    and "dom (image s) \<inter> dom (regs_union reg rs) = {}"
  shows "\<exists>s'. run_all add s rs = Ok s' \<and> inv s' \<and> image s' = image s ++ regs_union reg rs"
  using assms
proof (induction rs arbitrary: s)
  case (Cons r rs)
  have "dom (image s) \<inter> dom (reg r) = {}" using Cons.prems(4) by auto
  then obtain s1 where s1: "add s r = Ok s1" "inv s1" "image s1 = image s ++ reg r"
    using add_free [of s r] Cons.prems(1,2) by auto
  have "dom (reg r) \<inter> dom (regs_union reg rs) = {}"
    using Cons.prems(3) unfolding dom_regs_union disjoint_regs_def by fastforce
  then have "dom (image s1) \<inter> dom (regs_union reg rs) = {}"
    using Cons.prems(4) s1(3) by auto
  moreover have "disjoint_regs reg rs" "list_all valid rs"
    using Cons.prems(2,3) by (auto simp: disjoint_regs_def)
  ultimately obtain s' where "run_all add s1 rs = Ok s'" "inv s'" "image s' = image s1 ++ regs_union reg rs"
    using Cons.IH [OF s1(2)] by blast
  with s1 show ?case by simp
qed simp

lemma run_order:
  assumes "inv s" and "list_all valid rs" and "disjoint_regs reg rs"
    and "dom (image s) \<inter> dom (regs_union reg rs) = {}"
    and "distinct rs'" and "set rs' = set rs"
  shows "\<exists>s1 s2. run_all add s rs = Ok s1 \<and> run_all add s rs' = Ok s2 \<and> inv s1 \<and> inv s2 \<and> image s1 = image s2"
proof -
  have d: "disjoint_regs reg rs'" using assms(3,5,6) by (auto simp: disjoint_regs_def)
  then have u: "regs_union reg rs' = regs_union reg rs"
    using assms(3,6) by (intro regs_union_order) simp_all
  moreover have "list_all valid rs'" using assms(2,6) by (simp add: list_all_iff)
  ultimately show ?thesis
    using run_image [OF assms(1-4)] run_image [OF assms(1) _ d] assms(4) by auto
qed

end

section \<open>Data blocks: additions in any order\<close>

definition add_data_req :: "backed_block_list \<Rightarrow> nat \<times> u32 \<times> u32 \<Rightarrow> backed_block_list outcome" where
  "add_data_req bbl r = (case r of (data, len, block) \<Rightarrow>
     obind (backed_block_add_data True bbl data len block) (\<lambda>(_, bbl'). Ok bbl'))"

definition data_region :: "media \<Rightarrow> u32 \<Rightarrow> nat \<times> u32 \<times> u32 \<Rightarrow> nat \<rightharpoonup> u8" where
  "data_region m bs r = (case r of (data, len, block) \<Rightarrow>
     bb_image m bs \<lparr>bb_addr = 0, bb_block = block, bb_len = len, bb_payload = BACKED_BLOCK_DATA data\<rparr>)"

definition data_valid :: "u32 \<Rightarrow> nat \<times> u32 \<times> u32 \<Rightarrow> bool" where
  "data_valid bs r = (case r of (data, len, block) \<Rightarrow>
     0 < len \<and> unat block * unat bs + unat len < 2 ^ 32)"

definition data_inv :: "u32 \<Rightarrow> backed_block_list \<Rightarrow> bool" where
  "data_inv bs bbl \<longleftrightarrow> bbl_inv bbl \<and> last_used_live bbl \<and> bbl_block_size bbl = bs"

lemma bb_image_cong:
  "bb_block a = bb_block b \<Longrightarrow> bb_len a = bb_len b \<Longrightarrow> bb_payload a = bb_payload b \<Longrightarrow>
   bb_image m bs a = bb_image m bs b"
  by (auto simp: bb_image_def bb_start_def bb_end_def)

lemma data_no_merge:
  assumes "bb_payload n = BACKED_BLOCK_DATA d"
  shows "merge_right bs n rest = n # rest" and "merge_right bs q (n # rest) = q # n # rest"
proof -
  have "\<not> can_merge bs n c" "\<not> can_merge bs c n" for c
    using assms by (cases "bb_payload c"; simp add: can_merge_def)+
  then show "merge_right bs n rest = n # rest" and "merge_right bs q (n # rest) = q # n # rest"
    by (simp_all add: merge_right_def split: list.splits)
qed

lemma data_keeps_live:
  assumes "bb_payload n = BACKED_BLOCK_DATA d" and "last_used_live bbl"
  shows "last_used_live (queue_result n bbl)"
proof (cases "takeWhile (\<lambda>b. bb_block b < bb_block n) (data_blocks bbl)" rule: rev_cases)
  case Nil
  then show ?thesis
    using assms(2)
    by (cases "last_used bbl") (auto simp: last_used_live_def queue_result_def queue_last_used_def queue_spec_def)
next
  case (snoc pre q)
  then show ?thesis
    by (simp add: last_used_live_def queue_result_def queue_last_used_def queue_spec_def data_no_merge [OF assms(1)])
qed

lemma disjoint_image_region_free:
  assumes "regions_ok bs l" and "bb_start bs n < bb_end bs n" and "bb_end bs n < 2 ^ 32"
    and "dom (blocks_image m bs l) \<inter> dom (bb_image m bs n) = {}"
  shows "region_free bs n l"
proof -
  have "bb_end bs n \<le> bb_start bs b \<or> bb_end bs b \<le> bb_start bs n" if b: "b \<in> set l" for b
  proof (rule ccontr)
    let ?p = "max (bb_start bs n) (bb_start bs b)"
    assume "\<not> ?thesis"
    moreover have "bb_start bs b < bb_end bs b" using assms(1) b by (simp add: regions_ok_def)
    ultimately have "?p \<in> {bb_start bs b ..< bb_end bs b}" and "?p \<in> {bb_start bs n ..< bb_end bs n}"
      using assms(2) by auto
    then show False using assms(4) b unfolding dom_bb_image dom_blocks_image by blast
  qed
  then show ?thesis using assms(2,3) by (simp add: region_free_def)
qed

interpretation data_store: block_store add_data_req "data_inv bs" "data_valid bs" "bbl_image m" "data_region m bs"
  for bs m
proof
  fix s r
  assume inv: "data_inv bs s" and v: "data_valid bs r"
    and dj: "dom (bbl_image m s) \<inter> dom (data_region m bs r) = {}"
  obtain d len block where r: "r = (d, len, block)" by (cases r)
  have s: "bbl_inv s" "last_used_live s" "bbl_block_size s = bs" using inv by (simp_all add: data_inv_def)
  let ?n = "new_node s (BACKED_BLOCK_DATA d) len block"
  have img: "bb_image m bs ?n = data_region m bs r"
    unfolding r data_region_def by (simp, rule bb_image_cong) (simp_all add: new_node_def)
  have "bb_start bs ?n < bb_end bs ?n" "bb_end bs ?n < 2 ^ 32"
    using v by (simp_all add: r data_valid_def bb_start_def bb_end_def new_node_def word_less_nat_alt)
  then have "region_free bs ?n (data_blocks s)"
    using s dj img by (intro disjoint_image_region_free [of bs _ _ m]) (auto simp: bbl_inv_def bbl_image_def)
  then have ok: "add_ok s (BACKED_BLOCK_DATA d) len block" using s(3) by (simp add: add_ok_def)
  define s' where "s' = queue_result ?n (s\<lparr>next_addr := next_addr s + 1\<rparr>)"
  have "add_data_req s r = Ok s'"
    using backed_block_add_result [OF s(1,2) ok] by (simp add: r add_data_req_def backed_block_add_data_def s'_def)
  moreover have "bbl_inv s'" "bbl_image m s' = bbl_image m s ++ data_region m bs r"
    using add_result_inv(4) [OF s(1) ok] add_result_inv(5) [OF s(1) ok, of m] s(3) img by (simp_all add: s'_def)
  moreover have "last_used_live s'"
    unfolding s'_def by (rule data_keeps_live [of _ d]) (simp_all add: new_node_def s(2))
  moreover have "bbl_block_size s' = bs" using s(3) by (simp add: s'_def queue_result_def)
  ultimately show "\<exists>s'. add_data_req s r = Ok s' \<and> data_inv bs s' \<and>
      bbl_image m s' = bbl_image m s ++ data_region m bs r"
    by (auto simp: data_inv_def)
qed

text \<open>
  C6. data blocks with pairwise disjoint regions can be added in any order: every addition succeeds and
  the resulting images are the same.
\<close>

theorem add_data_any_order:
  assumes "data_inv bs bbl" and "list_all (data_valid bs) rs" and "disjoint_regs (data_region m bs) rs"
    and "dom (bbl_image m bbl) \<inter> dom (regs_union (data_region m bs) rs) = {}"
    and "distinct rs'" and "set rs' = set rs"
  shows "\<exists>bbl1 bbl2. run_all add_data_req bbl rs = Ok bbl1 \<and> run_all add_data_req bbl rs' = Ok bbl2 \<and>
    data_inv bs bbl1 \<and> data_inv bs bbl2 \<and> bbl_image m bbl1 = bbl_image m bbl2"
  by (rule data_store.run_order [OF assms])

lemma dom_data_region:
  "dom (data_region m bs (d, len, block)) = {unat block * unat bs ..< unat block * unat bs + unat len}"
  by (simp add: data_region_def dom_bb_image bb_start_def bb_end_def)

theorem add_data_any_order_witness:
  "\<exists>bbl1 bbl2. run_all add_data_req (backed_block_list_new 4096) [(0, 4096, 3), (5000, 100, 0)] = Ok bbl1 \<and>
    run_all add_data_req (backed_block_list_new 4096) [(5000, 100, 0), (0, 4096, 3)] = Ok bbl2 \<and>
    data_inv 4096 bbl1 \<and> data_inv 4096 bbl2 \<and> bbl_image demo_media bbl1 = bbl_image demo_media bbl2"
proof (rule add_data_any_order)
  show "data_inv 4096 (backed_block_list_new 4096)"
    by (simp add: data_inv_def backed_block_list_new_def bbl_inv_def bbl_wf_def blocks_sorted_def
        names_ok_def last_used_live_def)
  show "disjoint_regs (data_region demo_media 4096) [(0, 4096, 3), (5000, 100, 0)]"
    by (simp add: disjoint_regs_def dom_data_region)
  show "dom (bbl_image demo_media (backed_block_list_new 4096)) \<inter>
      dom (regs_union (data_region demo_media 4096) [(0, 4096, 3), (5000, 100, 0)]) = {}"
    by (simp add: bbl_image_def backed_block_list_new_def)
qed (auto simp: data_valid_def)

section \<open>Splitting a block\<close>

text \<open>
  \<open>split_ok\<close>: the block is in the list, its end does not run past the last addressable block.
\<close>

definition split_fits :: "u32 \<Rightarrow> backed_block \<Rightarrow> bool" where
  "split_fits bs b \<longleftrightarrow> unat (bb_block b) + unat (bb_len b) div unat bs < 2 ^ 32"

lemma split_image:
  assumes bs: "bs \<noteq> 0" "4 dvd unat bs" and fits: "split_fits bs b" and k: "k = ALIGN_DOWN max_len bs"
    and lt: "\<not> bb_len b \<le> k"
  shows "bb_image m bs (b\<lparr>bb_len := k\<rparr>) ++
    bb_image m bs (b\<lparr>bb_addr := a, bb_len := bb_len b - k, bb_block := bb_block b + k div bs,
                     bb_payload := advance_payload (bb_payload b) k\<rparr>) = bb_image m bs b"
    (is "bb_image m bs ?b1 ++ bb_image m bs ?b2 = _")
proof
  fix p
  have bs0: "0 < unat bs" using bs(1) by (simp add: word_pos_unat)
  have uk: "unat k = unat bs * (unat max_len div unat bs)" by (simp add: k unat_ALIGN_DOWN)
  have kl: "unat k < unat (bb_len b)" using lt by (simp add: word_le_nat_alt)
  have "unat k div unat bs \<le> unat (bb_len b) div unat bs" using kl by (intro div_le_mono) simp
  then have "unat (bb_block b) + unat k div unat bs < 2 ^ 32" using fits by (simp add: split_fits_def)
  then have blk: "unat (bb_block b + k div bs) = unat (bb_block b) + unat k div unat bs"
    by (simp add: unat_add_u32 unat_div_u32)
  have kd: "unat k div unat bs * unat bs = unat k" using bs0 by (simp add: uk)
  have st1: "bb_start bs ?b1 = bb_start bs b" "bb_end bs ?b1 = bb_start bs b + unat k"
    by (simp_all add: bb_start_def bb_end_def)
  have st2: "bb_start bs ?b2 = bb_start bs b + unat k"
    by (simp add: bb_start_def blk add_mult_distrib kd)
  moreover have "unat (bb_len b - k) = unat (bb_len b) - unat k"
    using lt by (intro unat_sub_u32) simp
  ultimately have en2: "bb_end bs ?b2 = bb_end bs b" using kl by (simp add: bb_end_def)
  have "4 dvd unat k" using bs(2) by (simp add: uk)
  then have by2: "payload_byte m (advance_payload (bb_payload b) k) i = payload_byte m (bb_payload b) (unat k + i)" for i
    by (rule payload_byte_advance)
  have e: "bb_end bs b = bb_start bs b + unat (bb_len b)" by (simp add: bb_end_def)
  have by3: "payload_byte m (advance_payload (bb_payload b) k) (p - (bb_start bs b + unat k))
      = payload_byte m (bb_payload b) (p - bb_start bs b)" if "bb_start bs b + unat k \<le> p"
  proof -
    have "unat k + (p - (bb_start bs b + unat k)) = p - bb_start bs b" using that by simp
    then show ?thesis using by2 by simp
  qed
  consider "p < bb_start bs b" | "bb_start bs b \<le> p" "p < bb_start bs b + unat k"
    | "bb_start bs b + unat k \<le> p" "p < bb_end bs b" | "bb_end bs b \<le> p" by linarith
  then show "(bb_image m bs ?b1 ++ bb_image m bs ?b2) p = bb_image m bs b p"
    using kl e by cases (simp_all add: map_add_def bb_image_def st1 st2 en2 by3)
qed

definition demo_fd_block :: backed_block where
  "demo_fd_block = \<lparr>bb_addr = 0, bb_block = 2, bb_len = 10000, bb_payload = BACKED_BLOCK_FD 3 77\<rparr>"

text \<open>
  C8. splitting a block never changes the image: the two halves carry the bytes of the block they were
  cut from, for each of the four kinds of payload; a block that fits is left alone.
\<close>

theorem backed_block_split_image:
  assumes "bbl_block_size bbl \<noteq> 0" and "4 dvd unat (bbl_block_size bbl)"
    and "data_blocks bbl = xs @ b # ys" and "bb_addr b \<notin> bb_addr ` set xs"
    and "split_fits (bbl_block_size bbl) b"
  shows "\<exists>bbl'. backed_block_split True bbl (bb_addr b) max_len = Ok (0, bbl') \<and> bbl_image m bbl' = bbl_image m bbl \<and>
    (bb_len b \<le> ALIGN_DOWN max_len (bbl_block_size bbl) \<longrightarrow> bbl' = bbl)"
proof -
  let ?bs = "bbl_block_size bbl" and ?k = "ALIGN_DOWN max_len (bbl_block_size bbl)"
  have at: "from_node (bb_addr b) (data_blocks bbl) = b # ys" "upto_node (bb_addr b) (data_blocks bbl) = xs"
    using assms(4) by (simp_all add: assms(3))
  show ?thesis
  proof (cases "bb_len b \<le> ?k")
    case True
    then show ?thesis using assms(1) at by (simp add: backed_block_split_def Let_def)
  next
    case False
    note img = split_image [OF assms(1,2,5) refl False, of m "next_addr bbl"]
    show ?thesis
      using assms(1) at False img
      by (simp add: backed_block_split_def Let_def bbl_image_def assms(3) flip: map_add_assoc) (simp add: img)
  qed
qed

theorem backed_block_split_image_witness:
  "\<exists>bbl'. backed_block_split True (demo_list\<lparr>data_blocks := [demo_fd_block]\<rparr>) (bb_addr demo_fd_block) 5000 = Ok (0, bbl') \<and>
    bbl_image demo_media bbl' = bbl_image demo_media (demo_list\<lparr>data_blocks := [demo_fd_block]\<rparr>) \<and>
    (bb_len demo_fd_block \<le> ALIGN_DOWN 5000 (bbl_block_size (demo_list\<lparr>data_blocks := [demo_fd_block]\<rparr>)) \<longrightarrow>
      bbl' = demo_list\<lparr>data_blocks := [demo_fd_block]\<rparr>)"
  by (rule backed_block_split_image [where xs = "[]" and ys = "[]"])
    (simp_all add: demo_list_def demo_fd_block_def split_fits_def)

section \<open>Moving a chain of blocks\<close>

lemma insert_chain_append:
  assumes "l \<noteq> []" and "\<forall>b \<in> set (tl l). \<not> bb_block b > bb_block (hd seg)"
  shows "insert_chain seg l = l @ seg"
  using assms by (induction seg l rule: insert_chain.induct) auto

lemma insert_chain_split:
  assumes "l \<noteq> []"
  obtains l1 l2 where "l = l1 @ l2" and "l1 \<noteq> []" and "insert_chain seg l = l1 @ seg @ l2"
  using assms
proof (induction seg l arbitrary: thesis rule: insert_chain.induct)
  case (2 seg b)
  then show ?case by (metis append_Nil2 append_Cons append_Nil insert_chain.simps(2) not_Cons_self2)
next
  case (3 seg b c l)
  show ?case
  proof (cases "bb_block c > bb_block (hd seg)")
    case True
    then show ?thesis using "3.prems"(1) [of "[b]" "c # l"] by simp
  next
    case False
    then obtain l1 l2 where "c # l = l1 @ l2" "l1 \<noteq> []" "insert_chain seg (c # l) = l1 @ seg @ l2"
      using "3.IH" by blast
    moreover have "insert_chain seg (b # c # l) = b # insert_chain seg (c # l)" using False by simp
    ultimately show ?thesis using "3.prems"(1) [of "b # l1" l2] by simp
  qed
qed simp

lemma backed_block_list_move_chain:
  assumes l: "data_blocks from = xs @ seg @ ys" and seg: "seg \<noteq> []"
    and d: "distinct (map bb_addr (data_blocks from))"
  shows "backed_block_list_move from to (Some (bb_addr (hd seg))) (Some (bb_addr (last seg))) =
    Ok (from\<lparr>last_used := None, data_blocks := xs @ ys\<rparr>,
        to\<lparr>last_used := None,
           data_blocks := (if data_blocks to = [] then seg else insert_chain seg (data_blocks to)),
           next_addr := max (next_addr to) (next_addr from)\<rparr>)"
proof -
  obtain a r where a: "seg = a # r" using seg by (cases seg) auto
  obtain r' e where e: "seg = r' @ [e]" using seg by (cases seg rule: rev_cases) auto
  have "bb_addr a \<notin> bb_addr ` set xs" using d l a by auto
  then have p: "from_node (bb_addr a) (data_blocks from) = seg @ ys" "upto_node (bb_addr a) (data_blocks from) = xs"
    by (simp_all add: l a)
  have "bb_addr e \<notin> bb_addr ` set r'" using d l e by auto
  then have q: "from_node (bb_addr e) (seg @ ys) = e # ys" "upto_node (bb_addr e) (seg @ ys) = r'"
    by (simp_all add: e)
  have "hd seg = a" using a by simp
  moreover have "last seg = e" "r' @ [e] = seg" using e by simp_all
  ultimately show ?thesis by (simp add: backed_block_list_move_def p q)
qed

lemma blocks_image_swap:
  assumes "\<forall>a \<in> set xs. \<forall>b \<in> set ys. bb_end bs a \<le> bb_start bs b \<or> bb_end bs b \<le> bb_start bs a"
  shows "blocks_image m bs xs ++ blocks_image m bs ys = blocks_image m bs ys ++ blocks_image m bs xs"
  using assms
proof (induction xs)
  case (Cons x xs)
  then have "blocks_image m bs xs ++ blocks_image m bs ys = blocks_image m bs ys ++ blocks_image m bs xs"
    and "bb_image m bs x ++ blocks_image m bs ys = blocks_image m bs ys ++ bb_image m bs x"
    by (auto intro: bb_image_comm)
  then show ?case by simp (metis map_add_assoc)
qed simp

text \<open>
  C9. moving the chain from \<open>start\<close> to \<open>end\<close> takes exactly these nodes out of \<open>from\<close> and adds them, in their
  order, to \<open>to\<close>: when their regions are free in \<open>to\<close>, its image grows by the image of the chain, and
  when they lie behind every block of \<open>to\<close> they are appended. Both insertion caches are reset.
\<close>

theorem backed_block_list_move_image:
  assumes "data_blocks from = xs @ seg @ ys" and "seg \<noteq> []" and "distinct (map bb_addr (data_blocks from))"
    and "\<forall>a \<in> set seg. \<forall>b \<in> set (data_blocks to).
      bb_end (bbl_block_size to) a \<le> bb_start (bbl_block_size to) b \<or>
      bb_end (bbl_block_size to) b \<le> bb_start (bbl_block_size to) a"
  shows "\<exists>from' to'.
    backed_block_list_move from to (Some (bb_addr (hd seg))) (Some (bb_addr (last seg))) = Ok (from', to') \<and>
    data_blocks from' = xs @ ys \<and> set (data_blocks to') = set (data_blocks to) \<union> set seg \<and>
    bbl_image m to' = bbl_image m to ++ blocks_image m (bbl_block_size to) seg \<and>
    last_used_live from' \<and> last_used_live to' \<and>
    ((\<forall>b \<in> set (data_blocks to). bb_block b < bb_block (hd seg)) \<longrightarrow> data_blocks to' = data_blocks to @ seg)"
proof -
  let ?bs = "bbl_block_size to" and ?t = "data_blocks to"
  define t' where "t' = (if ?t = [] then seg else insert_chain seg ?t)"
  have "set t' = set ?t \<union> set seg \<and> blocks_image m ?bs t' = blocks_image m ?bs ?t ++ blocks_image m ?bs seg \<and>
    ((\<forall>b \<in> set ?t. bb_block b < bb_block (hd seg)) \<longrightarrow> t' = ?t @ seg)"
  proof (cases "?t = []")
    case False
    then obtain l1 l2 where l: "?t = l1 @ l2" and ic: "insert_chain seg ?t = l1 @ seg @ l2"
      by (metis insert_chain_split)
    have "blocks_image m ?bs seg ++ blocks_image m ?bs l2 = blocks_image m ?bs l2 ++ blocks_image m ?bs seg"
      using assms(4) l by (intro blocks_image_swap) auto
    moreover have "insert_chain seg ?t = ?t @ seg" if "\<forall>b \<in> set ?t. bb_block b < bb_block (hd seg)"
    proof (rule insert_chain_append [OF False])
      show "\<forall>b \<in> set (tl ?t). \<not> bb_block b > bb_block (hd seg)"
        using that False by (metis list.set_sel(2) not_less_iff_gr_or_eq)
    qed
    moreover have "blocks_image m ?bs t' = blocks_image m ?bs l1 ++ (blocks_image m ?bs seg ++ blocks_image m ?bs l2)"
      using False ic by (simp add: t'_def)
    moreover have "set t' = set ?t \<union> set seg" using False ic l by (auto simp: t'_def)
    ultimately show ?thesis using False l by (simp add: t'_def)
  qed (simp add: t'_def)
  then show ?thesis
    using backed_block_list_move_chain [OF assms(1-3), of to]
    by (simp add: bbl_image_def last_used_live_def flip: t'_def)
qed

theorem backed_block_list_move_image_witness:
  "\<exists>from' to'.
    backed_block_list_move (demo_list\<lparr>data_blocks := [demo_fd_block]\<rparr>) demo_list
      (Some (bb_addr (hd [demo_fd_block]))) (Some (bb_addr (last [demo_fd_block]))) = Ok (from', to') \<and>
    data_blocks from' = [] @ [] \<and> set (data_blocks to') = set (data_blocks demo_list) \<union> set [demo_fd_block] \<and>
    bbl_image demo_media to' = bbl_image demo_media demo_list ++ blocks_image demo_media (bbl_block_size demo_list) [demo_fd_block] \<and>
    last_used_live from' \<and> last_used_live to' \<and>
    ((\<forall>b \<in> set (data_blocks demo_list). bb_block b < bb_block (hd [demo_fd_block])) \<longrightarrow>
      data_blocks to' = data_blocks demo_list @ [demo_fd_block])"
  by (rule backed_block_list_move_image)
    (simp_all add: demo_list_def demo_fd_block_def bb_start_def bb_end_def)

section \<open>Lengths that wrap\<close>

text \<open>
  Merging adds the two lengths as \<open>unsigned int\<close>. Two adjacent fill ranges of 2 GiB each are merged
  into one block of length 0: 4 GiB of the image are lost without an error.
\<close>

theorem merge_length_wraps:
  "\<exists>bbl1 bbl2.
     backed_block_add_fill True (backed_block_list_new 4096) 7 0x80000000 0 = Ok (0, bbl1) \<and>
     backed_block_add_fill True bbl1 7 0x80000000 0x80000 = Ok (0, bbl2) \<and>
     map bb_len (data_blocks bbl2) = [0] \<and>
     bbl_image m bbl1 0 = Some 7 \<and> bbl_image m bbl2 = Map.empty"
  by (simp add: backed_block_add_fill_def backed_block_add_def backed_block_list_new_def queue_bb_def
      queue_insert_def merge_bb_def node_at_def node_next_def from_node_def upto_node_def
      bbl_image_def bb_image_def bb_start_def bb_end_def fun_eq_iff le32_def)

section \<open>Destroying lists\<close>

fun name_of :: "backed_block \<Rightarrow> nat option" where
  "name_of b = (case bb_payload b of BACKED_BLOCK_FILE q _ _ \<Rightarrow> Some q | _ \<Rightarrow> None)"

definition names_of :: "backed_block list \<Rightarrow> nat list" where
  "names_of l = List.map_filter name_of l"

lemma destroy_loop_append: "destroy_loop h (xs @ ys) = obind (destroy_loop h xs) (\<lambda>h1. destroy_loop h1 ys)"
proof (induction xs arbitrary: h)
  case (Cons b xs)
  then show ?case by (cases "backed_block_destroy h b") simp_all
qed simp

lemma destroy_loop_all:
  assumes "distinct (map bb_addr l)" and "distinct (names_of l)"
    and "bb_addr ` set l \<subseteq> live_nodes h" and "set (names_of l) \<subseteq> live_names h"
  shows "destroy_loop h l = Ok (h\<lparr>live_nodes := live_nodes h - bb_addr ` set l, live_names := live_names h - set (names_of l)\<rparr>)"
  using assms
proof (induction l arbitrary: h)
  case (Cons b l)
  define h1 where "h1 = h\<lparr>live_nodes := live_nodes h - {bb_addr b}, live_names := live_names h - set_option (name_of b)\<rparr>"
  have nb: "names_of (b # l) = (case name_of b of None \<Rightarrow> names_of l | Some q \<Rightarrow> q # names_of l)"
    by (simp add: names_of_def List.map_filter_simps split: option.split)
  have d: "backed_block_destroy h b = Ok h1"
    using Cons.prems(3,4) by (cases "bb_payload b") (auto simp: backed_block_destroy_def h1_def nb)
  have ih: "destroy_loop h1 l =
      Ok (h1\<lparr>live_nodes := live_nodes h1 - bb_addr ` set l, live_names := live_names h1 - set (names_of l)\<rparr>)"
    by (rule Cons.IH) (use Cons.prems in \<open>auto simp: h1_def nb image_subset_iff split: option.splits intro: rev_image_eqI\<close>)
  have "live_names h - set_option (name_of b) - set (names_of l) = live_names h - set (names_of (b # l))"
    by (auto simp: nb split: option.splits)
  moreover have "live_nodes h - {bb_addr b} - bb_addr ` set l = live_nodes h - bb_addr ` set (b # l)" by auto
  ultimately show ?case by (simp add: d ih del: name_of.simps) (simp add: h1_def del: name_of.simps)
qed (simp add: names_of_def List.map_filter_simps)

text \<open>
  C11. Destroying a list whose nodes and file names are live and not shared frees each of them once.
\<close>

theorem backed_block_list_destroy_all:
  assumes "bbl_wf bbl" and "distinct (names_of (data_blocks bbl))"
    and "bb_addr ` set (data_blocks bbl) \<subseteq> live_nodes h" and "set (names_of (data_blocks bbl)) \<subseteq> live_names h"
  shows "backed_block_list_destroy h bbl = Ok (h\<lparr>live_nodes := live_nodes h - bb_addr ` set (data_blocks bbl),
    live_names := live_names h - set (names_of (data_blocks bbl))\<rparr>)"
  unfolding backed_block_list_destroy_def
  by (rule destroy_loop_all) (use assms in \<open>simp_all add: bbl_wf_def\<close>)

theorem backed_block_list_destroy_all_witness:
  "backed_block_list_destroy \<lparr>live_nodes = {0, 7}, live_names = {9}\<rparr> demo_list = Ok \<lparr>live_nodes = {7}, live_names = {9}\<rparr>"
proof -
  have "bbl_wf demo_list" using demo_list_inv by (simp add: bbl_inv_def)
  with backed_block_list_destroy_all [of demo_list "\<lparr>live_nodes = {0, 7}, live_names = {9}\<rparr>"] show ?thesis
    by (simp add: demo_list_def names_of_def List.map_filter_simps)
qed

text \<open>
  C38. Splitting a block of a named file makes two nodes that share the file name, so destroying the list
  frees the name twice, whatever else the list holds.
\<close>

theorem split_file_double_free:
  assumes "data_blocks bbl = xs @ b # ys" and "bb_addr b \<notin> bb_addr ` set xs" and "bbl_block_size bbl \<noteq> 0"
    and "bb_payload b = BACKED_BLOCK_FILE q f off" and "ALIGN_DOWN max_len (bbl_block_size bbl) < bb_len b"
  shows "\<exists>bbl'. backed_block_split True bbl (bb_addr b) max_len = Ok (0, bbl') \<and>
    (\<exists>e. backed_block_list_destroy h bbl' = Fault e)"
proof -
  let ?ml = "ALIGN_DOWN max_len (bbl_block_size bbl)"
  define b2 where "b2 = b\<lparr>bb_addr := next_addr bbl, bb_len := bb_len b - ?ml,
    bb_block := bb_block b + ?ml div bbl_block_size bbl, bb_payload := advance_payload (bb_payload b) ?ml\<rparr>"
  define bbl' where "bbl' = bbl\<lparr>next_addr := next_addr bbl + 1, data_blocks := xs @ b\<lparr>bb_len := ?ml\<rparr> # b2 # ys\<rparr>"
  have "from_node (bb_addr b) (data_blocks bbl) = b # ys" "upto_node (bb_addr b) (data_blocks bbl) = xs"
    using assms(2) by (simp_all add: assms(1))
  then have split: "backed_block_split True bbl (bb_addr b) max_len = Ok (0, bbl')"
    using assms(3,5) by (simp add: backed_block_split_def Let_def not_le bbl'_def b2_def)
  have pl2: "bb_payload b2 = BACKED_BLOCK_FILE q f (off + uint ?ml)" using assms(4) by (simp add: b2_def)
  have "\<exists>e. destroy_loop h1 (b\<lparr>bb_len := ?ml\<rparr> # b2 # ys) = Fault e" for h1
  proof (cases "backed_block_destroy h1 (b\<lparr>bb_len := ?ml\<rparr>)")
    case (Ok h2)
    then have "q \<notin> live_names h2"
      using assms(4) by (auto simp: backed_block_destroy_def split: if_splits)
    then have "backed_block_destroy h2 b2 = Fault Use_After_Free" by (simp add: backed_block_destroy_def pl2)
    with Ok show ?thesis by simp
  qed simp
  then have "\<exists>e. destroy_loop h (xs @ b\<lparr>bb_len := ?ml\<rparr> # b2 # ys) = Fault e"
    unfolding destroy_loop_append by (cases "destroy_loop h xs") auto
  with split show ?thesis by (auto simp: backed_block_list_destroy_def bbl'_def)
qed

theorem split_file_double_free_witness:
  "\<exists>bbl'. backed_block_split True (demo_list\<lparr>data_blocks := [demo_fd_block\<lparr>bb_payload := BACKED_BLOCK_FILE 0 ''a'' 0\<rparr>]\<rparr>) 0 5000 = Ok (0, bbl') \<and>
    (\<exists>e. backed_block_list_destroy \<lparr>live_nodes = {0, 1}, live_names = {0}\<rparr> bbl' = Fault e)"
  using split_file_double_free [of "demo_list\<lparr>data_blocks := [demo_fd_block\<lparr>bb_payload := BACKED_BLOCK_FILE 0 ''a'' 0\<rparr>]\<rparr>"
      "[]" "demo_fd_block\<lparr>bb_payload := BACKED_BLOCK_FILE 0 ''a'' 0\<rparr>" "[]" 0 "''a''" 0 5000]
  by (simp add: demo_list_def demo_fd_block_def ALIGN_DOWN_def)

end
