(* ===== verification/Sparse_Write_Props.thy ===== *)
theory Sparse_Write_Props
  imports Sparse_File Backed_Block_Run
begin

text \<open>
  What the writer of sparse images produces. A sparse image is a header followed by the encodings of a
  list of chunks; \<open>file_chunks\<close> is that list for a sparse file. The laws a device has to obey are a
  locale; the writer is proved once over it and the locale is interpreted for plain files and for the
  byte counter.
\<close>

section \<open>Chunks and their encodings\<close>

datatype chunk = Raw bytes | Fill u32 u32 | Skip u32 | Crc u32

definition chunk_hdr :: "u16 \<Rightarrow> u32 \<Rightarrow> u32 \<Rightarrow> bytes" where
  "chunk_hdr ty sz tot =
     chunk_header_bytes \<lparr>chunk_type = ty, reserved1 = 0, chunk_sz = sz, total_sz = tot\<rparr>"

fun encode_chunk :: "u32 \<Rightarrow> chunk \<Rightarrow> bytes" where
  "encode_chunk bs (Raw d) =
     chunk_hdr CHUNK_TYPE_RAW (word_of_nat (length d div unat bs)) (12 + word_of_nat (length d)) @ d"
| "encode_chunk bs (Fill v n) = chunk_hdr CHUNK_TYPE_FILL n 16 @ le32 v"
| "encode_chunk bs (Skip n) = chunk_hdr CHUNK_TYPE_DONT_CARE n 12"
| "encode_chunk bs (Crc c) = chunk_hdr CHUNK_TYPE_CRC32 0 16 @ le32 c"

definition encode_chunks :: "u32 \<Rightarrow> chunk list \<Rightarrow> bytes" where
  "encode_chunks bs cs = concat (map (encode_chunk bs) cs)"

lemma length_chunk_hdr [simp]: "length (chunk_hdr ty sz tot) = 12"
  by (simp add: chunk_hdr_def chunk_header_bytes_def)

lemma length_sparse_header_bytes [simp]: "length (sparse_header_bytes h) = 28"
  by (simp add: sparse_header_bytes_def)

lemma encode_chunks_simps [simp]:
  "encode_chunks bs [] = []" "encode_chunks bs (c # cs) = encode_chunk bs c @ encode_chunks bs cs"
  "encode_chunks bs (cs @ ds) = encode_chunks bs cs @ encode_chunks bs ds"
  by (simp_all add: encode_chunks_def)

text \<open>The checksum the writer accumulates.\<close>

fun chunk_crc :: "u32 \<Rightarrow> u32 \<Rightarrow> chunk \<Rightarrow> u32" where
  "chunk_crc bs crc (Raw d) = sparse_crc32 crc d"
| "chunk_crc bs crc (Fill v n) = crc_repeat (unat (bs div 4)) crc (le32 v)"
| "chunk_crc bs crc (Skip n) = crc"
| "chunk_crc bs crc (Crc c) = crc"

definition chunks_crc :: "u32 \<Rightarrow> u32 \<Rightarrow> chunk list \<Rightarrow> u32" where
  "chunks_crc bs crc cs = foldl (chunk_crc bs) crc cs"

text \<open>
  \<open>emits view app out cs out'\<close>: from \<open>out\<close> to \<open>out'\<close> exactly the chunks \<open>cs\<close> have been written, counted and
  added to the checksum, and nothing else has changed.
\<close>

definition same_config :: "'s output_file \<Rightarrow> 's output_file \<Rightarrow> bool" where
  "same_config out out' \<longleftrightarrow>
     ops out' = ops out \<and> sparse_ops out' = sparse_ops out \<and> use_crc out' = use_crc out \<and>
     out_block_size out' = out_block_size out \<and> out_len out' = out_len out \<and> zero_buf out' = zero_buf out"

definition emits ::
  "('s \<Rightarrow> 'v) \<Rightarrow> ('v \<Rightarrow> bytes \<Rightarrow> 'v) \<Rightarrow> 's output_file \<Rightarrow> chunk list \<Rightarrow> 's output_file \<Rightarrow> bool" where
  "emits view app out cs out' \<longleftrightarrow>
     view (dev out') = app (view (dev out)) (encode_chunks (out_block_size out) cs) \<and>
     chunk_cnt out' = chunk_cnt out + word_of_nat (length cs) \<and>
     out_crc32 out' = (if use_crc out then chunks_crc (out_block_size out) (out_crc32 out) cs
                       else out_crc32 out) \<and>
     same_config out out'"

definition writer_ok :: "'s output_file_ops \<Rightarrow> 's output_file \<Rightarrow> bool" where
  "writer_ok dops out \<longleftrightarrow>
     ops out = dops \<and> sparse_ops out = sparse_file_ops \<and> out_block_size out \<noteq> 0 \<and>
     zero_buf out = replicate (unat (out_block_size out)) 0"

lemma writer_ok_config: "writer_ok dops out \<Longrightarrow> same_config out out' \<Longrightarrow> writer_ok dops out'"
  by (simp add: writer_ok_def same_config_def)

text \<open>The data of a block is padded with zeros to a multiple of the block size.\<close>

definition pad_block :: "u32 \<Rightarrow> bytes \<Rightarrow> bytes" where
  "pad_block bs d = d @ replicate (align_up (length d) (unat bs) - length d) 0"

definition payload_bytes :: "media \<Rightarrow> bb_payload \<Rightarrow> nat \<Rightarrow> bytes" where
  "payload_bytes m pl n = map (payload_byte m pl) [0..<n]"

lemma length_payload_bytes [simp]: "length (payload_bytes m pl n) = n"
  by (simp add: payload_bytes_def)

lemma payload_bytes_simps:
  "payload_bytes m (BACKED_BLOCK_DATA p) n = map (\<lambda>i. memory m (p + i)) [0..<n]"
  "payload_bytes m (BACKED_BLOCK_FILE q f off) n = map (\<lambda>i. file_byte m f (off + int i)) [0..<n]"
  "payload_bytes m (BACKED_BLOCK_FD fd off) n = map (\<lambda>i. fd_byte m fd (off + int i)) [0..<n]"
  by (simp_all add: payload_bytes_def)

definition block_chunk :: "media \<Rightarrow> u32 \<Rightarrow> backed_block \<Rightarrow> chunk" where
  "block_chunk m bs bb =
     (case bb_payload bb of
        BACKED_BLOCK_FILL v \<Rightarrow> Fill v (DIV_ROUND_UP (bb_len bb) bs)
      | pl \<Rightarrow> Raw (pad_block bs (payload_bytes m pl (unat (bb_len bb)))))"

text \<open>The chunks of a list of blocks when everything below block \<open>last_block\<close> has been written.\<close>

definition gap_chunk :: "u32 \<Rightarrow> u32 \<Rightarrow> chunk list" where
  "gap_chunk last_block b = (if b > last_block then [Skip (b - last_block)] else [])"

fun block_chunks :: "media \<Rightarrow> u32 \<Rightarrow> u32 \<Rightarrow> backed_block list \<Rightarrow> chunk list" where
  "block_chunks m bs last_block [] = []"
| "block_chunks m bs last_block (bb # l) =
     gap_chunk last_block (bb_block bb) @ block_chunk m bs bb # block_chunks m bs (bb_block bb + DIV_ROUND_UP (bb_len bb) bs) l"

fun end_block :: "u32 \<Rightarrow> u32 \<Rightarrow> backed_block list \<Rightarrow> u32" where
  "end_block bs last_block [] = last_block"
| "end_block bs last_block (bb # l) = end_block bs (bb_block bb + DIV_ROUND_UP (bb_len bb) bs) l"

definition tail_len :: "sparse_file \<Rightarrow> int" where
  "tail_len s = sf_len s - uint (end_block (sf_block_size s) 0 (data_blocks (sf_blocks s))) * uint (sf_block_size s)"

definition file_chunks :: "media \<Rightarrow> sparse_file \<Rightarrow> chunk list" where
  "file_chunks m s =
     block_chunks m (sf_block_size s) 0 (data_blocks (sf_blocks s)) @
     (if tail_len s > 0 then [Skip (word_of_int (tail_len s div uint (sf_block_size s)))] else [])"

text \<open>What the writer needs to find in its environment: mappings succeed, and names open as the file they name.\<close>

definition mappable :: "io_env \<Rightarrow> int \<Rightarrow> int \<Rightarrow> u32 \<Rightarrow> bool" where
  "mappable env fd off len \<longleftrightarrow> 0 \<le> env_mmap env fd (off - off mod 4096) (uint len + off mod 4096)"

fun payload_readable :: "io_env \<Rightarrow> u32 \<Rightarrow> bb_payload \<Rightarrow> bool" where
  "payload_readable env len (BACKED_BLOCK_FD fd off) \<longleftrightarrow> mappable env fd off len"
| "payload_readable env len (BACKED_BLOCK_FILE _ f off) \<longleftrightarrow>
     0 \<le> env_open env f \<and> mappable env (env_open env f) off len \<and>
     fd_byte (env_media env) (env_open env f) = file_byte (env_media env) f"
| "payload_readable env len _ \<longleftrightarrow> True"

definition block_writable :: "io_env \<Rightarrow> u32 \<Rightarrow> backed_block \<Rightarrow> bool" where
  "block_writable env bs bb \<longleftrightarrow>
     payload_readable env (bb_len bb) (bb_payload bb) \<and> unat (bb_len bb) + unat bs \<le> 2 ^ 31"

lemma page_diff: "(off :: int) - (off AND NOT 4095) = off mod 4096"
proof -
  have "off AND NOT (mask 12) = push_bit 12 (drop_bit 12 off)"
    by (rule bit_eqI) (auto simp: bit_simps)
  moreover have "push_bit 12 (drop_bit 12 off) + take_bit 12 off = off" by (rule bits_ident)
  ultimately show ?thesis by (simp add: take_bit_eq_mod mask_eq_exp_minus_1)
qed

lemma drop_mapping:
  "drop k (map (\<lambda>i. g (int i)) [0..<n + k]) = map (\<lambda>i. g (int k + int i)) [0..<n]"
  by (rule nth_equalityI) simp_all

lemma write_fd_chunk_mapped:
  assumes "mappable env fd off len"
  shows "write_fd_chunk env out len fd off =
    write_data_chunk out len (payload_bytes (env_media env) (BACKED_BLOCK_FD fd off) (unat len))"
proof -
  have a: "off AND - 4096 = off - off mod 4096" using page_diff [of off] by simp
  have n: "nat (uint len + off mod 4096) = unat len + nat (off mod 4096)"
    by (simp add: nat_add_distrib)
  have d: "drop (nat (off mod 4096)) (map (\<lambda>i. fd_byte (env_media env) fd (off - off mod 4096 + int i))
        [0..<unat len + nat (off mod 4096)]) = payload_bytes (env_media env) (BACKED_BLOCK_FD fd off) (unat len)"
    using drop_mapping [of "nat (off mod 4096)" "\<lambda>i. fd_byte (env_media env) fd (off - off mod 4096 + i)"]
    by (simp add: payload_bytes_def)
  from assms show ?thesis by (simp add: write_fd_chunk_def a mappable_def n d)
qed

definition image_chunks :: "media \<Rightarrow> sparse_file \<Rightarrow> bool \<Rightarrow> chunk list" where
  "image_chunks m s crc =
     file_chunks m s @ (if crc then [Crc (chunks_crc (sf_block_size s) 0 (file_chunks m s))] else [])"

definition image_header :: "media \<Rightarrow> sparse_file \<Rightarrow> bool \<Rightarrow> sparse_header" where
  "image_header m s crc =
     \<lparr>magic = SPARSE_HEADER_MAGIC, major_version = 1, minor_version = 0, file_hdr_sz = 28, chunk_hdr_sz = 12,
      blk_sz = sf_block_size s, total_blks = word_of_int (sf_len s div uint (sf_block_size s)),
      total_chunks = word_of_nat (length (image_chunks m s crc)), image_checksum = 0\<rparr>"

definition sparse_image :: "media \<Rightarrow> sparse_file \<Rightarrow> bool \<Rightarrow> bytes" where
  "sparse_image m s crc =
     sparse_header_bytes (image_header m s crc) @ encode_chunks (sf_block_size s) (image_chunks m s crc)"

definition sf_writable :: "io_env \<Rightarrow> sparse_file \<Rightarrow> bool" where
  "sf_writable env s \<longleftrightarrow>
     sf_block_size s \<noteq> 0 \<and> (\<forall>b \<in> set (data_blocks (sf_blocks s)). block_writable env (sf_block_size s) b) \<and>
     0 \<le> tail_len s \<and> uint (sf_block_size s) dvd sf_len s"

lemma count_loop_chunks:
  "count_loop bs last_block n l = (end_block bs last_block l, n + word_of_nat (length (block_chunks m bs last_block l)))"
  by (induction l arbitrary: last_block n) (simp_all add: gap_chunk_def)

lemma less_zdiv_iff:
  fixes x :: int
  assumes b: "0 < b"
  shows "q < x div b \<longleftrightarrow> (q + 1) * b \<le> x"
proof
  assume "q < x div b"
  then have "(q + 1) * b \<le> (x div b) * b" using b by (intro mult_right_mono) auto
  also have "\<dots> \<le> x" using b by (metis div_mult_mod_eq le_add_same_cancel1 pos_mod_sign)
  finally show "(q + 1) * b \<le> x" .
next
  assume "(q + 1) * b \<le> x"
  then have "(q + 1) * b div b \<le> x div b" using b by (rule zdiv_mono1)
  then show "q < x div b" using b by simp
qed

lemma tail_pos_iff:
  assumes "bs \<noteq> 0"
  shows "uint b < DIV_ROUND_UP64 n bs \<longleftrightarrow> 0 < n - uint b * uint bs"
proof -
  have bs: "0 < uint bs" using assms by (simp add: word_neq_0_conv word_less_def)
  have "uint b < (n + uint bs - 1) div uint bs \<longleftrightarrow> (uint b + 1) * uint bs \<le> n + uint bs - 1"
    by (rule less_zdiv_iff [OF bs])
  then show ?thesis by (simp add: DIV_ROUND_UP64_def distrib_right)
qed

lemma sparse_count_chunks_file:
  assumes "sf_block_size s \<noteq> 0"
  shows "sparse_count_chunks s = Ok (word_of_nat (length (file_chunks m s)))"
  using assms
  by (simp add: sparse_count_chunks_def count_loop_chunks [of _ _ _ _ m] tail_pos_iff file_chunks_def tail_len_def)

section \<open>The laws of a device\<close>

text \<open>
  \<open>room s n\<close>: the device in state \<open>s\<close> accepts \<open>n\<close> more bytes. \<open>view\<close> is what an observer sees of the
  device, \<open>app\<close> how written bytes change it.
\<close>

locale sink =
  fixes dops :: "'s output_file_ops"
    and view :: "'s \<Rightarrow> 'v"
    and app :: "'v \<Rightarrow> bytes \<Rightarrow> 'v"
    and room :: "'s \<Rightarrow> nat \<Rightarrow> bool"
  assumes app_Nil: "app v [] = v"
    and app_append: "app (app v xs) ys = app v (xs @ ys)"
    and write_room: "room s (length data + k) \<Longrightarrow> int (length data) \<le> INT_MAX \<Longrightarrow>
      \<exists>s'. ops_write dops s data (int (length data)) = (0, s') \<and> view s' = app (view s) data \<and> room s' k"
begin

lemma out_write_room:
  assumes "ops out = dops" and "room (dev out) (length data + k)" and "int (length data) \<le> INT_MAX"
    and "n = int (length data)"
  shows "\<exists>d. out_write out data n = (0, out\<lparr>dev := d\<rparr>) \<and> view d = app (view (dev out)) data \<and> room d k"
  using write_room [OF assms(2,3)] assms(1,4) by (auto simp: out_write_def)

lemma emits_Nil: "emits view app out [] out"
  by (simp add: emits_def same_config_def chunks_crc_def app_Nil)

lemma emits_append:
  "emits view app out cs out1 \<Longrightarrow> emits view app out1 ds out2 \<Longrightarrow> emits view app out (cs @ ds) out2"
  by (simp add: emits_def same_config_def chunks_crc_def app_append)

lemma write_sparse_skip_chunk_emits:
  assumes w: "writer_ok dops out" and r: "room (dev out) (12 + k)" and n: "skip_len = int n * uint (out_block_size out)"
  shows "\<exists>out'. write_sparse_skip_chunk out skip_len = Ok (0, out') \<and>
    emits view app out [Skip (word_of_nat n)] out' \<and> room (dev out') k"
proof -
  let ?h = "chunk_hdr CHUNK_TYPE_DONT_CARE (word_of_nat n) 12"
  have bs: "uint (out_block_size out) \<noteq> 0" using w by (simp add: writer_ok_def uint_0_iff)
  have "\<exists>d. out_write out ?h 12 = (0, out\<lparr>dev := d\<rparr>) \<and> view d = app (view (dev out)) ?h \<and> room d k"
    by (rule out_write_room) (use w r in \<open>simp_all add: writer_ok_def\<close>)
  then obtain d where "out_write out ?h 12 = (0, out\<lparr>dev := d\<rparr>)" "view d = app (view (dev out)) ?h" "room d k"
    by blast
  with w bs show ?thesis
    by (simp add: write_sparse_skip_chunk_def writer_ok_def n emits_def same_config_def chunks_crc_def
        flip: chunk_hdr_def)
qed

lemma write_sparse_fill_chunk_emits:
  assumes w: "writer_ok dops out" and r: "room (dev out) (16 + k)"
    and len: "unat len + unat (out_block_size out) \<le> 2 ^ 32"
  shows "\<exists>out'. write_sparse_fill_chunk out len v = Ok (0, out') \<and>
    emits view app out [Fill v (DIV_ROUND_UP len (out_block_size out))] out' \<and> room (dev out') k"
proof -
  let ?n = "DIV_ROUND_UP len (out_block_size out)" and ?h = "chunk_hdr CHUNK_TYPE_FILL (DIV_ROUND_UP len (out_block_size out)) 16"
  have bs: "out_block_size out \<noteq> 0" and o: "ops out = dops" using w by (simp_all add: writer_ok_def)
  have "\<exists>d. out_write out ?h 12 = (0, out\<lparr>dev := d\<rparr>) \<and> view d = app (view (dev out)) ?h \<and> room d (4 + k)"
    by (rule out_write_room) (use o r in simp_all)
  then obtain d where d: "out_write out ?h 12 = (0, out\<lparr>dev := d\<rparr>)" "view d = app (view (dev out)) ?h" "room d (4 + k)"
    by blast
  have "\<exists>e. out_write (out\<lparr>dev := d\<rparr>) (le32 v) 4 = (0, out\<lparr>dev := d, dev := e\<rparr>) \<and>
      view e = app (view (dev (out\<lparr>dev := d\<rparr>))) (le32 v) \<and> room e k"
    by (rule out_write_room) (use o d(3) in simp_all)
  then obtain e where e: "out_write (out\<lparr>dev := d\<rparr>) (le32 v) 4 = (0, out\<lparr>dev := e\<rparr>)"
      "view e = app (view d) (le32 v)" "room e k"
    by simp blast
  have "ALIGN len (out_block_size out) div out_block_size out = ?n" by (rule DIV_ROUND_UP_eq [OF bs len])
  with bs d e show ?thesis
    by (simp add: write_sparse_fill_chunk_def Let_def emits_def same_config_def chunks_crc_def app_append
        flip: chunk_hdr_def)
qed

lemma write_sparse_data_chunk_emits:
  assumes w: "writer_ok dops out" and dl: "length data = unat len"
    and r: "room (dev out) (12 + align_up (unat len) (unat (out_block_size out)) + k)"
    and len: "unat len + unat (out_block_size out) \<le> 2 ^ 31"
  shows "\<exists>out'. write_sparse_data_chunk out len data = Ok (0, out') \<and>
    emits view app out [Raw (pad_block (out_block_size out) data)] out' \<and> room (dev out') k"
proof -
  let ?bs = "out_block_size out"
  define rl where "rl = ALIGN len ?bs"
  define z where "z = rl - len"
  have bs: "?bs \<noteq> 0" and o: "ops out = dops" and zb: "zero_buf out = replicate (unat ?bs) 0"
    using w by (simp_all add: writer_ok_def)
  have bs0: "0 < unat ?bs" using bs by (simp add: word_pos_unat)
  have len32: "unat len + unat ?bs \<le> 2 ^ 32" using len by simp
  have rl: "unat rl = align_up (unat len) (unat ?bs)" unfolding rl_def by (rule unat_ALIGN [OF bs len32])
  have rb: "unat len \<le> unat rl" "unat rl < unat len + unat ?bs"
    using align_up_props [OF bs0, of "unat len"] by (simp_all add: rl)
  have z: "unat z = unat rl - unat len"
    unfolding z_def by (rule unat_sub_u32) (simp add: word_le_nat_alt rb)
  have pad: "pad_block ?bs data = data @ replicate (unat z) 0" by (simp add: pad_block_def dl rl z)
  have lp: "length (pad_block ?bs data) = unat rl" using rb by (simp add: pad dl z)
  define h where "h = chunk_hdr CHUNK_TYPE_RAW (rl div ?bs) (12 + rl)"
  have enc: "encode_chunk ?bs (Raw (pad_block ?bs data)) = (h @ data) @ replicate (unat z) 0"
    by (simp add: lp h_def unat_div_u32 flip: pad) (simp add: pad word_arith_nat_div)
  have "\<exists>d. out_write out h 12 = (0, out\<lparr>dev := d\<rparr>) \<and> view d = app (view (dev out)) h \<and> room d (unat rl + k)"
    by (rule out_write_room) (use o r in \<open>simp_all add: h_def rl add.assoc\<close>)
  then obtain d where d: "out_write out h 12 = (0, out\<lparr>dev := d\<rparr>)" "view d = app (view (dev out)) h" "room d (unat rl + k)"
    by blast
  have sl: "sint len = int (unat len)" and il: "uint len \<le> INT_MAX"
    using len bs0 by (intro sint_small uint_le_INT_MAX; simp)+
  have "\<exists>e. out_write (out\<lparr>dev := d\<rparr>) data (sint len) = (0, out\<lparr>dev := d, dev := e\<rparr>) \<and>
      view e = app (view (dev (out\<lparr>dev := d\<rparr>))) data \<and> room e (unat z + k)"
    by (rule out_write_room) (use o d(3) dl z rb sl il in simp_all)
  then obtain e where e: "out_write (out\<lparr>dev := d\<rparr>) data (sint len) = (0, out\<lparr>dev := e\<rparr>)"
      "view e = app (view d) data" "room e (unat z + k)"
    by simp blast
  have sz: "sint z = int (unat z)" and iz: "uint z \<le> INT_MAX"
    using len bs0 z rb by (intro sint_small uint_le_INT_MAX; simp)+
  have tz: "take (unat z) (zero_buf out) = replicate (unat z) 0" using z rb by (simp add: zb min_absorb1)
  have "\<exists>f. (z \<noteq> 0 \<longrightarrow> out_write (out\<lparr>dev := e\<rparr>) (replicate (unat z) 0) (sint z) = (0, out\<lparr>dev := f\<rparr>)) \<and>
      (z = 0 \<longrightarrow> e = f) \<and> view f = app (view e) (replicate (unat z) 0) \<and> room f k"
  proof (cases "z = 0")
    case False
    have "\<exists>f. out_write (out\<lparr>dev := e\<rparr>) (replicate (unat z) 0) (sint z) = (0, out\<lparr>dev := e, dev := f\<rparr>) \<and>
        view f = app (view (dev (out\<lparr>dev := e\<rparr>))) (replicate (unat z) 0) \<and> room f k"
      by (rule out_write_room) (use o e(3) sz iz in simp_all)
    with False show ?thesis by simp
  next
    case True
    with e show ?thesis by (auto simp: app_Nil)
  qed
  then obtain f where f: "z \<noteq> 0 \<Longrightarrow> out_write (out\<lparr>dev := e\<rparr>) (replicate (unat z) 0) (sint z) = (0, out\<lparr>dev := f\<rparr>)"
      "z = 0 \<Longrightarrow> e = f" "view f = app (view e) (replicate (unat z) 0)" "room f k" by blast
  define c where "c = (if use_crc out then sparse_crc32 (out_crc32 out) (pad_block ?bs data) else out_crc32 out)"
  have "write_sparse_data_chunk out len data =
      Ok (0, out\<lparr>dev := f, out_crc32 := c, cur_out_ptr := cur_out_ptr out + sint rl, chunk_cnt := chunk_cnt out + 1\<rparr>)"
    using bs d(1) e(1)
    by (cases "z = 0"; cases "use_crc out")
      (simp_all add: write_sparse_data_chunk_def Let_def tz f(1,2) c_def pad sparse_crc32_append
        flip: chunk_hdr_def rl_def z_def h_def)
  moreover have "emits view app out [Raw (pad_block ?bs data)]
      (out\<lparr>dev := f, out_crc32 := c, cur_out_ptr := cur_out_ptr out + sint rl, chunk_cnt := chunk_cnt out + 1\<rparr>)"
    using d(2) e(2) f(3)
    by (simp only: emits_def same_config_def chunks_crc_def encode_chunks_simps append_Nil2 enc)
      (simp add: app_append c_def)
  ultimately show ?thesis using f(4) by simp
qed

lemma write_sparse_end_chunk_emits:
  assumes w: "writer_ok dops out" and r: "room (dev out) (16 + k)" and c: "use_crc out"
  shows "\<exists>out'. write_sparse_end_chunk out = (0, out') \<and> emits view app out [Crc (out_crc32 out)] out' \<and> room (dev out') k"
proof -
  let ?h = "chunk_hdr CHUNK_TYPE_CRC32 0 16"
  have o: "ops out = dops" using w by (simp add: writer_ok_def)
  have "\<exists>d. out_write out ?h 12 = (0, out\<lparr>dev := d\<rparr>) \<and> view d = app (view (dev out)) ?h \<and> room d (4 + k)"
    by (rule out_write_room) (use o r in simp_all)
  then obtain d where d: "out_write out ?h 12 = (0, out\<lparr>dev := d\<rparr>)" "view d = app (view (dev out)) ?h" "room d (4 + k)"
    by blast
  have "\<exists>e. out_write (out\<lparr>dev := d\<rparr>) (le32 (out_crc32 out)) 4 = (0, out\<lparr>dev := d, dev := e\<rparr>) \<and>
      view e = app (view (dev (out\<lparr>dev := d\<rparr>))) (le32 (out_crc32 out)) \<and> room e k"
    by (rule out_write_room) (use o d(3) in simp_all)
  then obtain e where e: "out_write (out\<lparr>dev := d\<rparr>) (le32 (out_crc32 out)) 4 = (0, out\<lparr>dev := e\<rparr>)"
      "view e = app (view d) (le32 (out_crc32 out))" "room e k"
    by simp blast
  from c d e show ?thesis
    by (simp add: write_sparse_end_chunk_def Let_def emits_def same_config_def chunks_crc_def app_append
        flip: chunk_hdr_def)
qed

lemma sparse_file_write_block_emits:
  assumes w: "writer_ok dops out" and b: "block_writable env (out_block_size out) bb"
    and r: "room (dev out) (length (encode_chunk (out_block_size out) (block_chunk (env_media env) (out_block_size out) bb)) + k)"
  shows "\<exists>out'. sparse_file_write_block env out bb = Ok out' \<and>
    emits view app out [block_chunk (env_media env) (out_block_size out) bb] out' \<and> room (dev out') k"
proof -
  let ?m = "env_media env" and ?bs = "out_block_size out" and ?pl = "bb_payload bb" and ?n = "unat (bb_len bb)"
  have len: "?n + unat ?bs \<le> 2 ^ 31" using b by (simp add: block_writable_def)
  have so: "sparse_ops out = sparse_file_ops" and bs0: "0 < unat ?bs"
    using w by (simp_all add: writer_ok_def word_pos_unat)
  have lp: "length (pad_block ?bs (payload_bytes ?m ?pl ?n)) = align_up ?n (unat ?bs)"
    using align_up_props(1) [OF bs0, of ?n] by (simp add: pad_block_def)
  show ?thesis
  proof (cases "\<exists>v. ?pl = BACKED_BLOCK_FILL v")
    case True
    then obtain v where v: "?pl = BACKED_BLOCK_FILL v" by blast
    have "\<exists>out'. write_sparse_fill_chunk out (bb_len bb) v = Ok (0, out') \<and>
        emits view app out [Fill v (DIV_ROUND_UP (bb_len bb) ?bs)] out' \<and> room (dev out') k"
      by (rule write_sparse_fill_chunk_emits [OF w]) (use r len v in \<open>simp_all add: block_chunk_def\<close>)
    then show ?thesis
      by (auto simp: sparse_file_write_block_def v write_fill_chunk_def so block_chunk_def)
  next
    case False
    then have c: "block_chunk ?m ?bs bb = Raw (pad_block ?bs (payload_bytes ?m ?pl ?n))"
      by (cases ?pl) (simp_all add: block_chunk_def)
    have "sparse_file_write_block env out bb =
        obind (write_sparse_data_chunk out (bb_len bb) (payload_bytes ?m ?pl ?n)) (\<lambda>(_, out'). Ok out')"
      using b False
      by (cases ?pl) (simp_all add: sparse_file_write_block_def block_writable_def write_file_chunk_def
          write_fd_chunk_mapped write_data_chunk_def so payload_bytes_simps)
    moreover have "\<exists>out'. write_sparse_data_chunk out (bb_len bb) (payload_bytes ?m ?pl ?n) = Ok (0, out') \<and>
        emits view app out [Raw (pad_block ?bs (payload_bytes ?m ?pl ?n))] out' \<and> room (dev out') k"
      by (rule write_sparse_data_chunk_emits [OF w]) (use r c lp len in simp_all)
    ultimately show ?thesis by (auto simp: c)
  qed
qed

lemma emits_writer:
  assumes "emits view app out cs out'" and "writer_ok dops out"
  shows "writer_ok dops out'" and "out_block_size out' = out_block_size out"
  using assms by (auto simp: emits_def same_config_def writer_ok_def)

lemma write_gap_emits:
  assumes w: "writer_ok dops out" and bs: "out_block_size out = bs"
    and r: "room (dev out) (length (encode_chunks bs (gap_chunk last_block b)) + k)"
  shows "\<exists>out'. (if b > last_block
        then obind (write_skip_chunk out (uint (b - last_block) * uint bs)) (\<lambda>(_, out'). Ok out')
        else Ok out) = Ok out' \<and> emits view app out (gap_chunk last_block b) out' \<and> room (dev out') k"
proof (cases "b > last_block")
  case True
  have "\<exists>out'. write_sparse_skip_chunk out (uint (b - last_block) * uint bs) = Ok (0, out') \<and>
      emits view app out [Skip (word_of_nat (unat (b - last_block)))] out' \<and> room (dev out') k"
    by (rule write_sparse_skip_chunk_emits) (use w bs r True in \<open>simp_all add: gap_chunk_def\<close>)
  with True w show ?thesis by (auto simp: gap_chunk_def write_skip_chunk_def writer_ok_def)
next
  case False
  with r show ?thesis by (simp add: gap_chunk_def emits_Nil)
qed

lemma write_blocks_loop_emits:
  assumes "writer_ok dops out" and "out_block_size out = bs" and "\<forall>b \<in> set l. block_writable env bs b"
    and "room (dev out) (length (encode_chunks bs (block_chunks (env_media env) bs last_block l)) + k)"
  shows "\<exists>out'. write_blocks_loop env bs last_block out l = Ok (end_block bs last_block l, out') \<and>
    emits view app out (block_chunks (env_media env) bs last_block l) out' \<and> room (dev out') k"
  using assms
proof (induction l arbitrary: last_block out)
  case Nil
  then show ?case by (simp add: emits_Nil)
next
  case (Cons bb l)
  let ?m = "env_media env" and ?gap = "gap_chunk last_block (bb_block bb)"
  define nxt where "nxt = bb_block bb + DIV_ROUND_UP (bb_len bb) bs"
  define rest where "rest = block_chunks ?m bs nxt l"
  define c where "c = block_chunk ?m bs bb"
  have bs: "bs \<noteq> 0" using Cons.prems by (simp add: writer_ok_def)
  have "\<exists>out1. (if bb_block bb > last_block
        then obind (write_skip_chunk out (uint (bb_block bb - last_block) * uint bs)) (\<lambda>(_, out'). Ok out')
        else Ok out) = Ok out1 \<and> emits view app out ?gap out1 \<and>
      room (dev out1) (length (encode_chunk bs c) + (length (encode_chunks bs rest) + k))"
    by (rule write_gap_emits) (use Cons.prems in \<open>simp_all add: rest_def c_def nxt_def add.assoc\<close>)
  then obtain out1 where o1: "(if bb_block bb > last_block
        then obind (write_skip_chunk out (uint (bb_block bb - last_block) * uint bs)) (\<lambda>(_, out'). Ok out')
        else Ok out) = Ok out1" "emits view app out ?gap out1"
      "room (dev out1) (length (encode_chunk bs c) + (length (encode_chunks bs rest) + k))" by blast
  note w1 = emits_writer [OF o1(2) Cons.prems(1), unfolded Cons.prems(2)]
  have "\<exists>out2. sparse_file_write_block env out1 bb = Ok out2 \<and> emits view app out1 [block_chunk ?m (out_block_size out1) bb] out2 \<and>
      room (dev out2) (length (encode_chunks bs rest) + k)"
    by (rule sparse_file_write_block_emits) (use w1 o1(3) Cons.prems(3) in \<open>simp_all add: c_def\<close>)
  then obtain out2 where o2: "sparse_file_write_block env out1 bb = Ok out2" "emits view app out1 [c] out2"
      "room (dev out2) (length (encode_chunks bs rest) + k)" unfolding w1 c_def by blast
  note w2 = emits_writer [OF o2(2) w1(1), unfolded w1(2)]
  have "\<exists>out'. write_blocks_loop env bs nxt out2 l = Ok (end_block bs nxt l, out') \<and>
      emits view app out2 rest out' \<and> room (dev out') k"
    unfolding rest_def by (rule Cons.IH) (use w2 o2(3) Cons.prems(3) in \<open>simp_all add: rest_def\<close>)
  then obtain out' where o3: "write_blocks_loop env bs nxt out2 l = Ok (end_block bs nxt l, out')"
      "emits view app out2 rest out'" "room (dev out') k" by blast
  have "emits view app out (?gap @ [c] @ rest) out'"
    by (rule emits_append [OF o1(2) emits_append [OF o2(2) o3(2)]])
  with bs o1(1) o2(1) o3 show ?case by (auto simp: c_def rest_def nxt_def)
qed

lemma write_all_blocks_tail:
  assumes "write_blocks_loop env (sf_block_size s) 0 out (data_blocks (sf_blocks s)) =
    Ok (end_block (sf_block_size s) 0 (data_blocks (sf_blocks s)), out1)"
  shows "write_all_blocks env s out =
    (if tail_len s < 0 then Fault Assert_Fail
     else if tail_len s > 0 then obind (write_skip_chunk out1 (tail_len s)) (\<lambda>(_, out2). Ok (0, out2))
     else Ok (0, out1))"
  using assms by (simp add: write_all_blocks_def tail_len_def Let_def)

lemma write_all_blocks_emits:
  assumes w: "writer_ok dops out" and bs: "out_block_size out = sf_block_size s" and sf: "sf_writable env s"
    and r: "room (dev out) (length (encode_chunks (sf_block_size s) (file_chunks (env_media env) s)) + k)"
  shows "\<exists>out'. write_all_blocks env s out = Ok (0, out') \<and>
    emits view app out (file_chunks (env_media env) s) out' \<and> room (dev out') k"
proof -
  let ?bs = "sf_block_size s" and ?l = "data_blocks (sf_blocks s)" and ?m = "env_media env"
  define tl where "tl = (if tail_len s > 0 then [Skip (word_of_int (tail_len s div uint ?bs))] else [])"
  define cs where "cs = block_chunks ?m ?bs 0 ?l"
  have fc: "file_chunks ?m s = cs @ tl" by (simp add: file_chunks_def cs_def tl_def)
  have "\<exists>out1. write_blocks_loop env ?bs 0 out ?l = Ok (end_block ?bs 0 ?l, out1) \<and>
      emits view app out (block_chunks ?m ?bs 0 ?l) out1 \<and> room (dev out1) (length (encode_chunks ?bs tl) + k)"
    by (rule write_blocks_loop_emits)
      (use w bs sf r in \<open>simp_all add: sf_writable_def fc cs_def add.assoc\<close>)
  then obtain out1 where o1: "write_blocks_loop env ?bs 0 out ?l = Ok (end_block ?bs 0 ?l, out1)"
      "emits view app out cs out1" "room (dev out1) (length (encode_chunks ?bs tl) + k)"
    unfolding cs_def by blast
  note w1 = emits_writer [OF o1(2) w, unfolded bs]
  have dv: "uint ?bs dvd tail_len s" and t0: "0 \<le> tail_len s"
    using sf by (simp_all add: sf_writable_def tail_len_def)
  show ?thesis
  proof (cases "tail_len s > 0")
    case True
    have q0: "0 \<le> tail_len s div uint ?bs" using t0 by (simp add: div_int_pos_iff)
    have n: "word_of_nat (nat (tail_len s div uint ?bs)) = (word_of_int (tail_len s div uint ?bs) :: u32)"
      by (metis q0 nat_0_le of_int_of_nat_eq)
    have "\<exists>out2. write_sparse_skip_chunk out1 (tail_len s) = Ok (0, out2) \<and>
        emits view app out1 [Skip (word_of_nat (nat (tail_len s div uint ?bs)))] out2 \<and> room (dev out2) k"
      by (rule write_sparse_skip_chunk_emits)
        (use w1 o1(3) True dv q0 in \<open>simp_all add: tl_def\<close>)
    then obtain out2 where o2: "write_sparse_skip_chunk out1 (tail_len s) = Ok (0, out2)"
        "emits view app out1 tl out2" "room (dev out2) k"
      using True n by (auto simp: tl_def)
    have "emits view app out (cs @ tl) out2" by (rule emits_append [OF o1(2) o2(2)])
    moreover have "write_all_blocks env s out = Ok (0, out2)"
      using o2(1) True w1(1)
      by (simp add: write_all_blocks_tail [OF o1(1)] write_skip_chunk_def writer_ok_def)
    ultimately show ?thesis using o2(3) fc by simp
  next
    case False
    with t0 o1 show ?thesis
      by (simp add: write_all_blocks_tail [OF o1(1)] tl_def fc)
  qed
qed

lemma output_file_open_header:
  assumes r: "room d (28 + k)" and bs: "sf_block_size s \<noteq> 0"
  shows "\<exists>out. output_file_open True dops d (sf_block_size s) (sf_len s) True (word_of_nat (length (file_chunks m s))) crc =
      Ok (Some out) \<and> writer_ok dops out \<and> out_block_size out = sf_block_size s \<and> use_crc out = crc \<and>
      out_crc32 out = 0 \<and> chunk_cnt out = 0 \<and>
      view (dev out) = app (view d) (sparse_header_bytes (image_header m s crc)) \<and> room (dev out) k"
proof -
  define out where "out = \<lparr>cur_out_ptr = 0, chunk_cnt = 0, out_crc32 = 0, ops = dops, sparse_ops = sparse_file_ops,
     use_crc = crc, out_block_size = sf_block_size s, out_len = sf_len s,
     zero_buf = replicate (unat (sf_block_size s)) 0, fill_buf = replicate (unat (sf_block_size s)) 0, dev = d\<rparr>"
  let ?h = "sparse_header_bytes (image_header m s crc)"
  have "\<exists>e. out_write out ?h 28 = (0, out\<lparr>dev := e\<rparr>) \<and> view e = app (view (dev out)) ?h \<and> room e k"
    by (rule out_write_room) (use r in \<open>simp_all add: out_def\<close>)
  then obtain e where e: "out_write out ?h 28 = (0, out\<lparr>dev := e\<rparr>)" "view e = app (view d) ?h" "room e k"
    by (auto simp: out_def)
  have h: "image_header m s crc =
     \<lparr>magic = SPARSE_HEADER_MAGIC, major_version = 1, minor_version = 0, file_hdr_sz = 28, chunk_hdr_sz = 12,
      blk_sz = sf_block_size s, total_blks = word_of_int (sf_len s div uint (sf_block_size s)),
      total_chunks = (if crc then word_of_nat (length (file_chunks m s)) + 1 else word_of_nat (length (file_chunks m s))),
      image_checksum = 0\<rparr>"
    by (simp add: image_header_def image_chunks_def)
  have "output_file_open True dops d (sf_block_size s) (sf_len s) True (word_of_nat (length (file_chunks m s))) crc =
      Ok (Some (out\<lparr>dev := e\<rparr>))"
    using bs e(1) by (simp add: output_file_open_def output_file_init_def Let_def flip: out_def h)
  with bs e show ?thesis by (simp add: writer_ok_def) (simp add: out_def)
qed

lemma write_sparse_to_image:
  assumes sf: "sf_writable env s" and r: "room d (length (sparse_image (env_media env) s crc) + k)"
  shows "\<exists>d'. write_sparse_to env True dops d s True crc = Ok (Inr (0, d')) \<and>
    view d' = app (view d) (sparse_image (env_media env) s crc) \<and> room d' k"
proof -
  let ?m = "env_media env" and ?bs = "sf_block_size s"
  let ?cs = "file_chunks ?m s" and ?hdr = "sparse_header_bytes (image_header ?m s crc)"
  define fin where "fin = (if crc then [Crc (chunks_crc ?bs 0 ?cs)] else [])"
  have ic: "image_chunks ?m s crc = ?cs @ fin" by (simp add: image_chunks_def fin_def)
  have bs: "?bs \<noteq> 0" using sf by (simp add: sf_writable_def)
  have r1: "room d (28 + (length (encode_chunks ?bs ?cs) + (length (encode_chunks ?bs fin) + k)))"
    using r by (simp add: sparse_image_def ic add.assoc)
  obtain out where o: "output_file_open True dops d ?bs (sf_len s) True (word_of_nat (length ?cs)) crc = Ok (Some out)"
      "writer_ok dops out" "out_block_size out = ?bs" "use_crc out = crc" "out_crc32 out = 0"
      "view (dev out) = app (view d) ?hdr" "room (dev out) (length (encode_chunks ?bs ?cs) + (length (encode_chunks ?bs fin) + k))"
    using output_file_open_header [OF r1 bs, of ?m crc] by blast
  obtain out1 where o1: "write_all_blocks env s out = Ok (0, out1)" "emits view app out ?cs out1"
      "room (dev out1) (length (encode_chunks ?bs fin) + k)"
    using write_all_blocks_emits [OF o(2,3) sf o(7)] by blast
  note w1 = emits_writer [OF o1(2) o(2), unfolded o(3)]
  have c1: "use_crc out1 = crc" "crc \<Longrightarrow> out_crc32 out1 = chunks_crc ?bs 0 ?cs"
    using o1(2) o(3-5) by (auto simp: emits_def same_config_def)
  have "\<exists>out2. write_end_chunk out1 = (0, out2) \<and> emits view app out1 fin out2 \<and> room (dev out2) k"
  proof (cases crc)
    case True
    with w1 c1 o1(3) show ?thesis
      using write_sparse_end_chunk_emits [of out1 k] by (simp add: fin_def write_end_chunk_def writer_ok_def)
  next
    case False
    with w1 c1 o1(3) show ?thesis
      by (simp add: fin_def write_end_chunk_def write_sparse_end_chunk_def writer_ok_def emits_Nil)
  qed
  then obtain out2 where o2: "write_end_chunk out1 = (0, out2)" "emits view app out1 fin out2" "room (dev out2) k"
    by blast
  have "emits view app out (?cs @ fin) out2" by (rule emits_append [OF o1(2) o2(2)])
  then have "view (dev out2) = app (view d) (sparse_image ?m s crc)"
    using o(3,6) by (simp add: emits_def app_append sparse_image_def ic)
  moreover have "write_sparse_to env True dops d s True crc = Ok (Inr (0, dev out2))"
    using bs o(1) o1(1) o2(1)
    by (simp add: write_sparse_to_def sparse_count_chunks_file [of s ?m] output_file_close_def)
  ultimately show ?thesis using o2(3) by blast
qed

lemma write_sparse_to_unaligned:
  assumes b: "\<forall>b \<in> set (data_blocks (sf_blocks s)). block_writable env (sf_block_size s) b"
    and bs: "sf_block_size s \<noteq> 0" and t: "0 < tail_len s" and nd: "\<not> uint (sf_block_size s) dvd sf_len s"
    and r: "room d (28 + (length (encode_chunks (sf_block_size s)
        (block_chunks (env_media env) (sf_block_size s) 0 (data_blocks (sf_blocks s)))) + k))"
  shows "\<exists>d'. write_sparse_to env True dops d s True False = Ok (Inr (0, d')) \<and>
    view d' = app (view d) (sparse_header_bytes (image_header (env_media env) s False) @
      encode_chunks (sf_block_size s) (block_chunks (env_media env) (sf_block_size s) 0 (data_blocks (sf_blocks s))))"
proof -
  let ?m = "env_media env" and ?bs = "sf_block_size s" and ?l = "data_blocks (sf_blocks s)"
  obtain out where o: "output_file_open True dops d ?bs (sf_len s) True (word_of_nat (length (file_chunks ?m s))) False = Ok (Some out)"
      "writer_ok dops out" "out_block_size out = ?bs" "use_crc out = False"
      "view (dev out) = app (view d) (sparse_header_bytes (image_header ?m s False))"
      "room (dev out) (length (encode_chunks ?bs (block_chunks ?m ?bs 0 ?l)) + k)"
    using output_file_open_header [OF r bs, of ?m False] by blast
  obtain out1 where o1: "write_blocks_loop env ?bs 0 out ?l = Ok (end_block ?bs 0 ?l, out1)"
      "emits view app out (block_chunks ?m ?bs 0 ?l) out1"
    using write_blocks_loop_emits [OF o(2,3) b o(6)] by blast
  note w1 = emits_writer [OF o1(2) o(2), unfolded o(3)]
  have "\<not> uint ?bs dvd tail_len s" using nd by (simp add: tail_len_def dvd_diff_left_iff)
  then have "write_skip_chunk out1 (tail_len s) = Ok (-1, out1)"
    using w1 bs by (simp add: write_skip_chunk_def write_sparse_skip_chunk_def writer_ok_def dvd_eq_mod_eq_0)
  with t o1(1) have wa: "write_all_blocks env s out = Ok (0, out1)"
    by (simp add: write_all_blocks_tail [OF o1(1)])
  have c1: "use_crc out1 = False" using o1(2) o(4) by (simp add: emits_def same_config_def)
  have "write_sparse_to env True dops d s True False = Ok (Inr (0, dev out1))"
    using bs o(1) wa c1 w1
    by (simp add: write_sparse_to_def sparse_count_chunks_file [of s ?m] output_file_close_def
        write_end_chunk_def write_sparse_end_chunk_def writer_ok_def)
  then show ?thesis using o1(2) o(3,5) by (simp add: emits_def app_append)
qed

end

section \<open>Plain files and the byte counter are devices\<close>

definition file_room :: "posix_file \<Rightarrow> nat \<Rightarrow> bool" where
  "file_room f n \<longleftrightarrow> pf_pos f = length (pf_contents f) \<and> pf_pos f + n \<le> pf_limit f"

interpretation file_sink: sink file_ops pf_contents "(@)" file_room
proof
  fix s :: posix_file and data :: bytes and k
  assume r: "file_room s (length data + k)"
  then have lim: "length data \<le> pf_limit s - pf_pos s" unfolding file_room_def by linarith
  have ow: "overwrite (pf_contents s) (pf_pos s) data = pf_contents s @ data"
    using r by (simp add: overwrite_def file_room_def)
  show "\<exists>s'. ops_write file_ops s data (int (length data)) = (0, s') \<and>
      pf_contents s' = pf_contents s @ data \<and> file_room s' k"
    using lim ow r
    by (simp add: file_ops_def file_write_def sys_write_def Let_def min_absorb1 file_room_def)
qed simp_all

interpretation counter_sink: sink "callback_file_ops out_counter_write" "\<lambda>c. c" "\<lambda>c d. c + int (length d)" "\<lambda>_ _. True"
  by unfold_locales (simp_all add: callback_file_ops_def callback_file_write_def out_counter_write_def)

section \<open>Properties of the writer\<close>

definition demo_env :: io_env where
  "demo_env = \<lparr>env_media = demo_media, env_mmap = (\<lambda>_ _ _. 0), env_open = (\<lambda>_. 3)\<rparr>"

definition demo_sf :: sparse_file where
  "demo_sf = \<lparr>sf_block_size = 8, sf_len = 48, sf_verbose = False, sf_blocks =
     \<lparr>data_blocks = [\<lparr>bb_addr = 0, bb_block = 1, bb_len = 8, bb_payload = BACKED_BLOCK_FILL 7\<rparr>,
        \<lparr>bb_addr = 1, bb_block = 3, bb_len = 5, bb_payload = BACKED_BLOCK_DATA 100\<rparr>,
        \<lparr>bb_addr = 2, bb_block = 4, bb_len = 8, bb_payload = BACKED_BLOCK_FD 3 5000\<rparr>],
      last_used = None, bbl_block_size = 8, next_addr = 3\<rparr>\<rparr>"

definition demo_out :: posix_file where
  "demo_out = \<lparr>pf_contents = [], pf_pos = 0, pf_limit = 1000\<rparr>"

lemma demo_sf_writable: "sf_writable demo_env demo_sf"
  by (simp add: sf_writable_def demo_sf_def demo_env_def block_writable_def mappable_def tail_len_def DIV_ROUND_UP_def)

lemma demo_sf_room: "file_room demo_out (length (sparse_image (env_media demo_env) demo_sf crc))"
  by (simp add: file_room_def demo_out_def demo_env_def demo_sf_def sparse_image_def image_chunks_def file_chunks_def
      tail_len_def DIV_ROUND_UP_def gap_chunk_def block_chunk_def pad_block_def align_up_def)





lemma write_all_blocks_ret: "write_all_blocks env s out = Ok (ret, out') \<Longrightarrow> ret = 0"
  by (auto simp: write_all_blocks_def Let_def split: if_splits)

lemma write_sparse_to_ret: "write_sparse_to env ok dops d s sparse crc = Ok (Inr (ret, d')) \<Longrightarrow> ret = 0"
  by (auto simp: write_sparse_to_def split: option.splits dest: write_all_blocks_ret)

text \<open>
  C14. The only error that \<open>sparse_file_write\<close> can report is that the output file could not be opened: whatever
  fails after that, a full disk or a failed mapping, the call returns 0 (\<open>sparse.h\<close> promises a negative errno).
\<close>

theorem sparse_file_write_hides_errors:
  assumes "sparse_file_write env alloc_ok s fd sparse crc = Ok (ret, fd')"
  shows "ret = 0 \<or> ret = - ENOMEM"
proof -
  obtain r where r: "write_sparse_to env alloc_ok file_ops fd s sparse crc = Ok r"
      "(case r of Inl _ \<Rightarrow> Ok (- ENOMEM, fd) | Inr rf \<Rightarrow> Ok rf) = Ok (ret, fd')"
    using assms by (auto simp: sparse_file_write_def)
  then show ?thesis by (cases r) (auto dest: write_sparse_to_ret)
qed

theorem sparse_file_write_hides_errors_witness:
  "\<exists>fd'. sparse_file_write demo_env True (demo_sf\<lparr>sf_len := 4104, sf_blocks := demo_list\<rparr>) (demo_out\<lparr>pf_limit := 30\<rparr>) True False = Ok (0, fd') \<and>
    length (pf_contents fd') = 30 \<and> ((0 :: int) = 0 \<or> 0 = - ENOMEM)"
  using sparse_file_write_hides_errors [of demo_env True "demo_sf\<lparr>sf_len := 4104, sf_blocks := demo_list\<rparr>"
     "demo_out\<lparr>pf_limit := 30\<rparr>" True False 0]
  by (simp add: sparse_file_write_def write_sparse_to_def sparse_count_chunks_def demo_sf_def demo_out_def demo_list_def
    output_file_open_def output_file_init_def out_write_def file_ops_def file_write_def sys_write_def
    write_all_blocks_def sparse_file_write_block_def write_fill_chunk_def write_sparse_fill_chunk_def
    write_skip_chunk_def write_sparse_skip_chunk_def
    DIV_ROUND_UP_def DIV_ROUND_UP64_def ALIGN_def Let_def overwrite_def output_file_close_def write_end_chunk_def write_sparse_end_chunk_def
    chunk_header_bytes_def)

text \<open>
  When the length of the file is not a multiple of the block size the image is malformed: the header counts a
  don't-care chunk for the tail, but writing that chunk fails (its length is not a multiple of the block size), the
  failure is dropped, and the file ends one chunk short of \<open>total_chunks\<close>.
\<close>

theorem unaligned_length_loses_chunk:
  assumes "\<forall>b \<in> set (data_blocks (sf_blocks s)). block_writable env (sf_block_size s) b"
    and "sf_block_size s \<noteq> 0" and "0 < tail_len s" and "\<not> uint (sf_block_size s) dvd sf_len s"
    and "cs = block_chunks (env_media env) (sf_block_size s) 0 (data_blocks (sf_blocks s))"
    and "file_room fd (28 + length (encode_chunks (sf_block_size s) cs))"
  shows "\<exists>fd' h. sparse_file_write env True s fd True False = Ok (0, fd') \<and>
    pf_contents fd' = pf_contents fd @ sparse_header_bytes h @ encode_chunks (sf_block_size s) cs \<and>
    total_chunks h = word_of_nat (length cs + 1)"
proof -
  have "total_chunks (image_header (env_media env) s False) = word_of_nat (length cs + 1)"
    using assms(3,5) by (simp add: image_header_def image_chunks_def file_chunks_def)
  then show ?thesis
    using file_sink.write_sparse_to_unaligned [OF assms(1-4), of fd 0] assms(5,6)
    by (auto simp: sparse_file_write_def)
qed

theorem unaligned_length_loses_chunk_witness:
  "\<exists>fd' h. sparse_file_write demo_env True (demo_sf\<lparr>sf_len := 41\<rparr>) demo_out True False = Ok (0, fd') \<and>
    pf_contents fd' = pf_contents demo_out @ sparse_header_bytes h @
      encode_chunks 8 (block_chunks demo_media 8 0 (data_blocks (sf_blocks demo_sf))) \<and>
    total_chunks h = word_of_nat (length (block_chunks demo_media 8 0 (data_blocks (sf_blocks demo_sf))) + 1)"
proof -
  have a: "\<forall>b \<in> set (data_blocks (sf_blocks (demo_sf\<lparr>sf_len := 41\<rparr>))). block_writable demo_env (sf_block_size (demo_sf\<lparr>sf_len := 41\<rparr>)) b"
    using demo_sf_writable by (simp add: sf_writable_def)
  show ?thesis
    using unaligned_length_loses_chunk [OF a, of "block_chunks demo_media 8 0 (data_blocks (sf_blocks demo_sf))" demo_out]
    by (simp add: demo_sf_def demo_env_def tail_len_def DIV_ROUND_UP_def file_room_def demo_out_def gap_chunk_def
        block_chunk_def pad_block_def align_up_def)
qed

end
