(* ===== verification/Sparse_Read_Props.thy ===== *)
theory Sparse_Read_Props
  imports Sparse_Read Sparse_Write_Props
begin

text \<open>
  What the reader of sparse images makes of the encoding of a list of chunks: reading bytes, headers and chunks,
  the blocks the reader adds for each chunk, and the image those blocks show.
\<close>

section \<open>Reading bytes\<close>

text \<open>
  \<open>fd_at fd pre rest\<close>: \<open>fd\<close> is a seekable file positioned between \<open>pre\<close> and \<open>rest\<close> whose reads always transfer
  something before the end of the file. Short reads are allowed.
\<close>

definition fd_at :: "in_fd \<Rightarrow> bytes \<Rightarrow> bytes \<Rightarrow> bool" where
  "fd_at fd pre rest \<longleftrightarrow>
     fd_data fd = pre @ rest \<and> fd_pos fd = length pre \<and> fd_seekable fd \<and>
     (\<forall>p n. p < length (fd_data fd) \<longrightarrow> 0 < n \<longrightarrow> 0 < fd_read fd p n)"

lemma fd_at_advance: "fd_at fd pre (xs @ rest) \<Longrightarrow> fd_at (fd\<lparr>fd_pos := length pre + length xs\<rparr>) (pre @ xs) rest"
  by (simp add: fd_at_def)

lemma sys_read_progress:
  assumes at: "fd_at fd pre rest" and n: "0 < n" "n \<le> length rest"
  shows "\<exists>k. 0 < k \<and> k \<le> n \<and> sys_read fd n = (int k, take k rest, fd\<lparr>fd_pos := length pre + k\<rparr>)"
proof -
  define r where "r = fd_read fd (length pre) n"
  have "length pre < length (fd_data fd)" and "\<forall>p n. p < length (fd_data fd) \<longrightarrow> 0 < n \<longrightarrow> 0 < fd_read fd p n"
    using at n by (auto simp: fd_at_def)
  then have r: "0 < r" using n unfolding r_def by blast
  define k where "k = min (nat r) n"
  have "min (nat r) (min n (length rest)) = k" using n by (simp add: k_def)
  then have "sys_read fd n = (int k, take k rest, fd\<lparr>fd_pos := length pre + k\<rparr>)"
    using at r by (simp add: sys_read_def fd_at_def Let_def flip: r_def)
  moreover have "0 < k" "k \<le> n" using r n by (auto simp: k_def)
  ultimately show ?thesis by blast
qed

lemma read_loop_prefix:
  assumes "fd_at fd pre rest" and "n \<le> length rest"
  shows "read_loop fd n buf = (0, buf @ take n rest, fd\<lparr>fd_pos := length pre + n\<rparr>)"
  using assms
proof (induction n arbitrary: fd pre rest buf rule: less_induct)
  case (less n)
  show ?case
  proof (cases "n = 0")
    case True
    with less.prems show ?thesis by (simp add: read_loop.simps fd_at_def)
  next
    case False
    then obtain k where k: "0 < k" "k \<le> n" "sys_read fd n = (int k, take k rest, fd\<lparr>fd_pos := length pre + k\<rparr>)"
      using sys_read_progress [OF less.prems(1)] less.prems(2) by blast
    have kl: "k \<le> length rest" using k(2) less.prems(2) by simp
    have at: "fd_at (fd\<lparr>fd_pos := length pre + k\<rparr>) (pre @ take k rest) (drop k rest)"
      using fd_at_advance [of fd pre "take k rest" "drop k rest"] less.prems(1) kl by (simp add: min_absorb1)
    have "read_loop (fd\<lparr>fd_pos := length pre + k\<rparr>) (n - k) (buf @ take k rest) =
        (0, (buf @ take k rest) @ take (n - k) (drop k rest),
          fd\<lparr>fd_pos := length pre + k, fd_pos := length (pre @ take k rest) + (n - k)\<rparr>)"
      by (rule less.IH [OF _ at]) (use k(1,2) less.prems(2) in auto)
    moreover have "take k rest @ take (n - k) (drop k rest) = take n rest"
      using k(2) by (metis take_add le_add_diff_inverse)
    ultimately show ?thesis
      using k kl False by (simp add: read_loop.simps [of fd n] min_absorb1)
  qed
qed

lemma read_all_prefix:
  assumes "fd_at fd pre (xs @ rest)" and "length xs = n"
  shows "read_all fd n = (0, xs, fd\<lparr>fd_pos := length pre + n\<rparr>)"
    and "fd_at (fd\<lparr>fd_pos := length pre + n\<rparr>) (pre @ xs) rest"
  using read_loop_prefix [OF assms(1), of n "[]"] fd_at_advance [OF assms(1)] assms(2)
  by (simp_all add: read_all_def)

lemma raw_crc_loop_bytes:
  assumes "fd_at fd pre (xs @ rest)"
  shows "raw_crc_loop fd (length xs) crc = (0, fd\<lparr>fd_pos := length pre + length xs\<rparr>, sparse_crc32 crc xs)"
  using assms
proof (induction "length xs" arbitrary: fd pre xs crc rule: less_induct)
  case less
  show ?case
  proof (cases "xs = []")
    case True
    with less.prems show ?thesis by (simp add: raw_crc_loop.simps fd_at_def)
  next
    case False
    define k where "k = min (length xs) 1048576"
    define ys where "ys = take k xs"
    define zs where "zs = drop k xs"
    have xs: "xs = ys @ zs" and k: "length ys = k" "0 < k" using False by (simp_all add: ys_def zs_def k_def)
    have at: "fd_at fd pre (ys @ zs @ rest)" using less.prems xs by simp
    note r = read_all_prefix [OF at k(1)]
    have "raw_crc_loop (fd\<lparr>fd_pos := length pre + k\<rparr>) (length zs) (sparse_crc32 crc ys) =
        (0, fd\<lparr>fd_pos := length pre + k, fd_pos := length (pre @ ys) + length zs\<rparr>, sparse_crc32 (sparse_crc32 crc ys) zs)"
      by (rule less.hyps [OF _ r(2)]) (use k xs in simp)
    moreover have "raw_crc_loop fd (length xs) crc =
        raw_crc_loop (fd\<lparr>fd_pos := length pre + k\<rparr>) (length zs) (sparse_crc32 crc ys)"
      using False r(1) by (simp add: raw_crc_loop.simps [of fd "length xs"] Let_def zs_def flip: k_def)
    ultimately show ?thesis using k by (simp add: sparse_crc32_append xs add.assoc)
  qed
qed

lemma length_fill_bytes [simp]: "length (fill_bytes v n) = n"
  by (simp add: fill_bytes_def)

lemma fill_bytes_0 [simp]: "fill_bytes v 0 = []"
  by (simp add: fill_bytes_def)

lemma fill_bytes_add:
  assumes "4 dvd k"
  shows "fill_bytes v (k + n) = fill_bytes v k @ fill_bytes v n"
proof -
  have "i mod 4 = (i - k) mod 4" if "\<not> i < k" for i
    using fill_shift [OF assms, of "i - k"] that by simp
  then show ?thesis by (intro nth_equalityI) (auto simp: fill_bytes_def nth_append)
qed

lemma fill_bytes_mult: "4 dvd k \<Longrightarrow> fill_bytes v (m * k) = concat (replicate m (fill_bytes v k))"
  by (induction m) (simp_all add: fill_bytes_add)

lemma fill_crc_loop_bytes: "fill_crc_loop v n crc = sparse_crc32 crc (fill_bytes v n)"
proof (induction n arbitrary: crc rule: less_induct)
  case (less n)
  show ?case
  proof (cases "n = 0")
    case True
    then show ?thesis by (simp add: fill_crc_loop.simps fill_bytes_def)
  next
    case False
    define k where "k = min n 1048576"
    have k: "0 < k" "k \<le> n" using False by (auto simp: k_def)
    have "fill_crc_loop v n crc = fill_crc_loop v (n - k) (sparse_crc32 crc (fill_bytes v k))"
      using False by (simp add: fill_crc_loop.simps [of v n] Let_def flip: k_def)
    also have "\<dots> = sparse_crc32 crc (fill_bytes v k @ fill_bytes v (n - k))"
      using less.IH [of "n - k"] k by (simp add: sparse_crc32_append)
    also have "fill_bytes v k @ fill_bytes v (n - k) = fill_bytes v n"
    proof (cases "n \<le> 1048576")
      case True
      then show ?thesis by (simp add: k_def fill_bytes_def)
    next
      case False
      then have "4 dvd k" by (simp add: k_def)
      from fill_bytes_add [OF this, of v "n - k"] k show ?thesis by simp
    qed
    finally show ?thesis .
  qed
qed

section \<open>Headers\<close>

lemma drop_le [simp]:
  "drop 2 (le16 a @ r) = r" "drop 4 (le32 b @ r) = r"
  by simp_all

lemma parse_chunk_header_bytes [simp]: "parse_chunk_header (chunk_header_bytes h) = h"
proof -
  have "chunk_header_bytes h = le16 (chunk_type h) @ le16 (reserved1 h) @ le32 (chunk_sz h) @ le32 (total_sz h) @ []"
    by (simp add: chunk_header_bytes_def)
  then show ?thesis by (simp add: parse_chunk_header_def del: append_Nil2)
qed

lemma parse_sparse_header_bytes [simp]: "parse_sparse_header (sparse_header_bytes h) = h"
proof -
  have "sparse_header_bytes h =
      le32 (magic h) @ le16 (major_version h) @ le16 (minor_version h) @ le16 (file_hdr_sz h) @
      le16 (chunk_hdr_sz h) @ le32 (blk_sz h) @ le32 (total_blks h) @ le32 (total_chunks h) @
      le32 (image_checksum h) @ []"
    by (simp add: sparse_header_bytes_def)
  then show ?thesis by (simp add: parse_sparse_header_def del: append_Nil2)
qed

lemma un_le32_le32_only [simp]: "un_le32 (le32 w) = w"
  using un_le32_le32 [of w "[]"] by simp

section \<open>Adding a block behind the others\<close>

lemma backed_block_add_last:
  assumes wf: "bbl_wf bbl" and live: "last_used_live bbl"
    and lt: "\<forall>b \<in> set (data_blocks bbl). bb_block b < block"
    and nm: "\<forall>b \<in> set (data_blocks bbl). \<not> can_merge (bbl_block_size bbl) b (new_node bbl pl len block)"
  shows "\<exists>lu. backed_block_add True bbl pl len block =
      Ok (0, bbl\<lparr>data_blocks := data_blocks bbl @ [new_node bbl pl len block], last_used := lu, next_addr := next_addr bbl + 1\<rparr>) \<and>
    bbl_wf (bbl\<lparr>data_blocks := data_blocks bbl @ [new_node bbl pl len block], last_used := lu, next_addr := next_addr bbl + 1\<rparr>) \<and>
    last_used_live (bbl\<lparr>data_blocks := data_blocks bbl @ [new_node bbl pl len block], last_used := lu, next_addr := next_addr bbl + 1\<rparr>)"
proof -
  let ?n = "new_node bbl pl len block" and ?l = "data_blocks bbl"
  let ?bbl0 = "bbl\<lparr>next_addr := next_addr bbl + 1\<rparr>"
  have tw: "takeWhile (\<lambda>b. bb_block b < bb_block ?n) ?l = ?l"
    using lt by (simp add: takeWhile_eq_all_conv new_node_def)
  have dw: "dropWhile (\<lambda>b. bb_block b < bb_block ?n) ?l = []"
    using lt by (simp add: dropWhile_eq_Nil_conv new_node_def)
  have mr: "merge_right (bbl_block_size bbl) ?n [] = [?n]" by (simp add: merge_right_def)
  have qs: "queue_spec (bbl_block_size bbl) ?n ?l = ?l @ [?n]"
  proof (cases "?l = []")
    case False
    then have "last ?l \<in> set ?l" by simp
    with nm have "merge_right (bbl_block_size bbl) (last ?l) [?n] = [last ?l, ?n]" by (simp add: merge_right_def)
    with False show ?thesis by (simp add: queue_spec_def Let_def tw dw mr)
  qed (simp add: queue_spec_def)
  have wf0: "bbl_wf ?bbl0" using wf by (auto simp: bbl_wf_def)
  have "backed_block_add True bbl pl len block = queue_bb ?bbl0 ?n"
    by (simp add: backed_block_add_def new_node_def)
  also have "\<dots> = Ok (0, queue_result ?n ?bbl0)"
    by (rule queue_bb_spec [OF wf0]) (use live lt wf in \<open>auto simp: new_node_def bbl_wf_def\<close>)
  finally have add: "backed_block_add True bbl pl len block = Ok (0, queue_result ?n ?bbl0)" .
  moreover have "queue_result ?n ?bbl0 =
      bbl\<lparr>data_blocks := ?l @ [?n], last_used := queue_last_used ?n ?bbl0, next_addr := next_addr bbl + 1\<rparr>"
    by (simp add: queue_result_def qs)
  moreover have "bbl_wf (bbl\<lparr>data_blocks := ?l @ [?n], last_used := lu, next_addr := next_addr bbl + 1\<rparr>)" for lu
    using wf lt by (auto simp: bbl_wf_def new_node_def blocks_sorted_def sorted_wrt_append less_Suc_eq)
  moreover have "last_used_live (bbl\<lparr>data_blocks := ?l @ [?n], last_used := queue_last_used ?n ?bbl0, next_addr := next_addr bbl + 1\<rparr>)"
    using live by (auto simp: last_used_live_def queue_last_used_def split: option.splits)
  ultimately show ?thesis by auto
qed

section \<open>The state of the reader\<close>

text \<open>
  \<open>read_inv s pos cur prev\<close>: everything \<open>s\<close> holds lies below block \<open>cur\<close> and, where it refers to the file
  being read, before \<open>pos\<close>; a fill block that ends at \<open>cur\<close> has the value \<open>prev\<close>.
\<close>

definition node_old :: "u32 \<Rightarrow> int \<Rightarrow> nat \<Rightarrow> u32 option \<Rightarrow> backed_block \<Rightarrow> bool" where
  "node_old bs pos cur prev b \<longleftrightarrow>
     unat (bb_block b) < cur \<and> unat (bb_block b) + unat (bb_len b) div unat bs \<le> cur \<and>
     (case bb_payload b of
        BACKED_BLOCK_FD _ off \<Rightarrow> off + uint (bb_len b) \<le> pos
      | BACKED_BLOCK_FILL v \<Rightarrow> unat (bb_block b) + unat (bb_len b) div unat bs = cur \<longrightarrow> prev = Some v
      | _ \<Rightarrow> True)"

definition read_inv :: "sparse_file \<Rightarrow> int \<Rightarrow> nat \<Rightarrow> u32 option \<Rightarrow> bool" where
  "read_inv s pos cur prev \<longleftrightarrow>
     bbl_wf (sf_blocks s) \<and> last_used_live (sf_blocks s) \<and> bbl_block_size (sf_blocks s) = sf_block_size s \<and>
     (\<forall>b \<in> set (data_blocks (sf_blocks s)). node_old (sf_block_size s) pos cur prev b)"

fun payload_new :: "int \<Rightarrow> u32 option \<Rightarrow> bb_payload \<Rightarrow> bool" where
  "payload_new pos prev (BACKED_BLOCK_FD _ off) \<longleftrightarrow> pos < off"
| "payload_new pos prev (BACKED_BLOCK_FILL v) \<longleftrightarrow> prev \<noteq> Some v"
| "payload_new pos prev _ \<longleftrightarrow> False"

definition read_step :: "sparse_file \<Rightarrow> backed_block list \<Rightarrow> sparse_file \<Rightarrow> bool" where
  "read_step s nodes s' \<longleftrightarrow>
     sf_block_size s' = sf_block_size s \<and> sf_len s' = sf_len s \<and> sf_verbose s' = sf_verbose s \<and>
     data_blocks (sf_blocks s') = data_blocks (sf_blocks s) @ nodes \<and>
     next_addr (sf_blocks s') = next_addr (sf_blocks s) + length nodes"

lemma node_old_no_merge:
  assumes old: "node_old bs pos cur prev b" and new: "payload_new pos prev (bb_payload n)"
    and blk: "unat (bb_block n) = cur"
  shows "\<not> can_merge bs b n"
proof
  assume m: "can_merge bs b n"
  have le: "unat (bb_block b) + unat (bb_len b div bs) \<le> cur"
    using old by (simp add: node_old_def unat_div_u32)
  then have "unat (bb_block b) + unat (bb_len b div bs) < 2 ^ 32"
    using blk unsigned_less [of "bb_block n", where ?'a = nat] by simp
  then have "unat (bb_block b + bb_len b div bs) = unat (bb_block b) + unat (bb_len b div bs)"
    by (rule unat_add_u32)
  then have "unat (bb_block b) + unat (bb_len b) div unat bs = cur"
    using m blk by (simp add: can_merge_def unat_div_u32)
  with m old new show False
    by (cases "bb_payload b"; cases "bb_payload n") (auto simp: can_merge_def node_old_def)
qed

lemma node_old_later:
  assumes "node_old bs pos cur prev b" and "cur < cur'" and "pos \<le> pos'"
  shows "node_old bs pos' cur' prev' b"
  using assms by (auto simp: node_old_def split: bb_payload.splits)

lemma read_inv_later: "read_inv s pos cur prev \<Longrightarrow> cur < cur' \<Longrightarrow> pos \<le> pos' \<Longrightarrow> read_inv s pos' cur' prev'"
  by (auto simp: read_inv_def intro: node_old_later)

lemma sf_update_add:
  assumes inv: "read_inv s pos cur prev" and cur: "cur < 2 ^ 32" and new: "payload_new pos prev pl"
    and later: "cur < cur'" "pos \<le> pos'"
    and node: "node_old (sf_block_size s) pos' cur' prev' (new_node (sf_blocks s) pl len (word_of_nat cur))"
  shows "\<exists>s'. sf_update s (backed_block_add True (sf_blocks s) pl len (word_of_nat cur)) = Ok (0, s') \<and>
    read_step s [new_node (sf_blocks s) pl len (word_of_nat cur)] s' \<and> read_inv s' pos' cur' prev'"
proof -
  let ?bbl = "sf_blocks s" and ?w = "word_of_nat cur :: u32"
  have w: "unat ?w = cur" using cur by (simp add: unat_of_nat)
  have "\<exists>lu. backed_block_add True ?bbl pl len ?w =
      Ok (0, ?bbl\<lparr>data_blocks := data_blocks ?bbl @ [new_node ?bbl pl len ?w], last_used := lu, next_addr := next_addr ?bbl + 1\<rparr>) \<and>
    bbl_wf (?bbl\<lparr>data_blocks := data_blocks ?bbl @ [new_node ?bbl pl len ?w], last_used := lu, next_addr := next_addr ?bbl + 1\<rparr>) \<and>
    last_used_live (?bbl\<lparr>data_blocks := data_blocks ?bbl @ [new_node ?bbl pl len ?w], last_used := lu, next_addr := next_addr ?bbl + 1\<rparr>)"
  proof (rule backed_block_add_last)
    show "bbl_wf ?bbl" "last_used_live ?bbl" using inv by (simp_all add: read_inv_def)
    show "\<forall>b \<in> set (data_blocks ?bbl). bb_block b < ?w"
      using inv w by (auto simp: read_inv_def node_old_def word_less_nat_alt)
    show "\<forall>b \<in> set (data_blocks ?bbl). \<not> can_merge (bbl_block_size ?bbl) b (new_node ?bbl pl len ?w)"
    proof
      fix b
      assume "b \<in> set (data_blocks ?bbl)"
      then have "node_old (sf_block_size s) pos cur prev b" using inv by (simp add: read_inv_def)
      then have "\<not> can_merge (sf_block_size s) b (new_node ?bbl pl len ?w)"
        by (rule node_old_no_merge) (use new w in \<open>simp_all add: new_node_def\<close>)
      then show "\<not> can_merge (bbl_block_size ?bbl) b (new_node ?bbl pl len ?w)" using inv by (simp add: read_inv_def)
    qed
  qed
  then obtain lu where a: "backed_block_add True ?bbl pl len ?w =
      Ok (0, ?bbl\<lparr>data_blocks := data_blocks ?bbl @ [new_node ?bbl pl len ?w], last_used := lu, next_addr := next_addr ?bbl + 1\<rparr>)"
    "bbl_wf (?bbl\<lparr>data_blocks := data_blocks ?bbl @ [new_node ?bbl pl len ?w], last_used := lu, next_addr := next_addr ?bbl + 1\<rparr>)"
    "last_used_live (?bbl\<lparr>data_blocks := data_blocks ?bbl @ [new_node ?bbl pl len ?w], last_used := lu, next_addr := next_addr ?bbl + 1\<rparr>)"
    by blast
  define s' where "s' = s\<lparr>sf_blocks := ?bbl\<lparr>data_blocks := data_blocks ?bbl @ [new_node ?bbl pl len ?w], last_used := lu, next_addr := next_addr ?bbl + 1\<rparr>\<rparr>"
  have "read_inv s' pos' cur' prev'"
    using a(2,3) node inv later by (auto simp: s'_def read_inv_def intro: node_old_later)
  with a(1) show ?thesis by (auto simp: sf_update_def read_step_def s'_def)
qed

section \<open>Reading one chunk\<close>

fun chunk_blks :: "u32 \<Rightarrow> chunk \<Rightarrow> nat" where
  "chunk_blks bs (Raw d) = length d div unat bs"
| "chunk_blks bs (Fill v n) = unat n"
| "chunk_blks bs (Skip n) = unat n"
| "chunk_blks bs (Crc c) = 0"

fun chunk_value :: "chunk \<Rightarrow> u32 option" where
  "chunk_value (Fill v n) = Some v"
| "chunk_value _ = None"

text \<open>A chunk that can follow one of value \<open>prev\<close> at block \<open>cur\<close>.\<close>

fun chunk_ok :: "u32 \<Rightarrow> nat \<Rightarrow> u32 option \<Rightarrow> chunk \<Rightarrow> bool" where
  "chunk_ok bs cur prev (Raw d) \<longleftrightarrow> d \<noteq> [] \<and> unat bs dvd length d \<and> cur * unat bs + length d < 2 ^ 32"
| "chunk_ok bs cur prev (Fill v n) \<longleftrightarrow> n \<noteq> 0 \<and> (cur + unat n) * unat bs < 2 ^ 32 \<and> prev \<noteq> Some v"
| "chunk_ok bs cur prev (Skip n) \<longleftrightarrow> n \<noteq> 0 \<and> (cur + unat n) * unat bs < 2 ^ 32"
| "chunk_ok bs cur prev (Crc c) \<longleftrightarrow> False"

fun chunk_node :: "u32 \<Rightarrow> int \<Rightarrow> nat \<Rightarrow> nat \<Rightarrow> nat \<Rightarrow> chunk \<Rightarrow> backed_block list" where
  "chunk_node bs fdn pos cur addr (Raw d) =
     [\<lparr>bb_addr = addr, bb_block = word_of_nat cur, bb_len = word_of_nat (length d),
       bb_payload = BACKED_BLOCK_FD fdn (int pos + 12)\<rparr>]"
| "chunk_node bs fdn pos cur addr (Fill v n) =
     [\<lparr>bb_addr = addr, bb_block = word_of_nat cur, bb_len = n * bs, bb_payload = BACKED_BLOCK_FILL v\<rparr>]"
| "chunk_node bs fdn pos cur addr _ = []"

text \<open>The checksum the reader accumulates.\<close>

fun reader_crc :: "u32 \<Rightarrow> u32 \<Rightarrow> chunk \<Rightarrow> u32" where
  "reader_crc bs c (Raw d) = sparse_crc32 c d"
| "reader_crc bs c (Fill v n) = sparse_crc32 c (fill_bytes v (unat n * unat bs))"
| "reader_crc bs c (Skip n) = sparse_crc32 c (fill_bytes 0 (unat n * unat bs))"
| "reader_crc bs c (Crc _) = c"

lemma lseek_cur_at:
  assumes "fd_at fd pre rest"
  shows "lseek_cur fd (int n) = (int (length pre + n), fd\<lparr>fd_pos := length pre + n\<rparr>)"
  using assms by (simp add: lseek_cur_def sys_lseek_def fd_at_def nat_add_distrib flip: of_nat_add)

lemma div_multiple_word:
  assumes "bs \<noteq> 0" and "unat bs dvd n" and "n < 2 ^ 32"
  shows "(word_of_nat n :: u32) mod bs = 0" and "(word_of_nat n :: u32) div bs = word_of_nat (n div unat bs)"
    and "word_of_nat (n div unat bs) * bs = (word_of_nat n :: u32)"
proof -
  have n: "unat (word_of_nat n :: u32) = n" using assms(3) by (simp add: unat_of_nat)
  show "(word_of_nat n :: u32) mod bs = 0"
    using assms(2) n by (simp add: word_arith_nat_mod)
  show d: "(word_of_nat n :: u32) div bs = word_of_nat (n div unat bs)"
    using n by (simp add: word_arith_nat_div)
  have "word_of_nat (n div unat bs) * bs = (word_of_nat (n div unat bs * unat bs) :: u32)" by simp
  then show "word_of_nat (n div unat bs) * bs = (word_of_nat n :: u32)"
    using assms(2) by simp
qed

lemma factor_less: "0 < k \<Longrightarrow> a * k < n \<Longrightarrow> a < (n :: nat)"
  by (rule le_less_trans [of _ "a * k"]) simp_all

lemma process_raw_chunk_ok:
  assumes at: "fd_at fd pre (d @ rest)" and inv: "read_inv s pos cur prev" and p: "pos < int (length pre)"
    and ok: "chunk_ok (sf_block_size s) cur prev (Raw d)" and bs: "sf_block_size s \<noteq> 0"
  shows "\<exists>s'. process_raw_chunk True s (word_of_nat (length d)) fd (int (length pre))
        (word_of_nat (length d div unat (sf_block_size s))) (word_of_nat cur) crc =
      Ok (0, s', fd\<lparr>fd_pos := length pre + length d\<rparr>, map_option (\<lambda>c. sparse_crc32 c d) crc) \<and>
    read_step s [new_node (sf_blocks s) (BACKED_BLOCK_FD (fd_num fd) (int (length pre))) (word_of_nat (length d)) (word_of_nat cur)] s' \<and>
    read_inv s' (int (length pre + length d)) (cur + length d div unat (sf_block_size s)) None"
proof -
  let ?bs = "sf_block_size s" and ?w = "word_of_nat (length d) :: u32"
  have bs0: "0 < unat ?bs" using bs by (simp add: word_pos_unat)
  have dv: "unat ?bs dvd length d" and ln: "length d < 2 ^ 32" and d0: "0 < length d" and cb: "cur * unat ?bs < 2 ^ 32"
    using ok by auto
  have cur: "cur < 2 ^ 32" by (rule factor_less [OF bs0 cb])
  have w: "unat ?w = length d" using ln by (simp add: unat_of_nat)
  have wi: "uint ?w = int (length d)" using arg_cong [OF w, of int] by (simp only: of_nat_unat)
  have q: "0 < length d div unat ?bs" using dv d0 bs0 by (simp add: div_greater_zero_iff dvd_imp_le)
  note dm = div_multiple_word [OF bs dv ln]
  have "\<exists>s'. sf_update s (backed_block_add True (sf_blocks s) (BACKED_BLOCK_FD (fd_num fd) (int (length pre))) ?w (word_of_nat cur)) = Ok (0, s') \<and>
    read_step s [new_node (sf_blocks s) (BACKED_BLOCK_FD (fd_num fd) (int (length pre))) ?w (word_of_nat cur)] s' \<and>
    read_inv s' (int (length pre + length d)) (cur + length d div unat ?bs) None"
    by (rule sf_update_add [OF inv cur])
      (use p q w wi cur in \<open>simp_all add: node_old_def new_node_def unat_of_nat\<close>)
  then obtain s' where s': "sparse_file_add_fd True s (fd_num fd) (int (length pre)) ?w (word_of_nat cur) = Ok (0, s')"
    "read_step s [new_node (sf_blocks s) (BACKED_BLOCK_FD (fd_num fd) (int (length pre))) ?w (word_of_nat cur)] s'"
    "read_inv s' (int (length pre + length d)) (cur + length d div unat ?bs) None"
    by (auto simp: sparse_file_add_fd_def backed_block_add_fd_def)
  have "process_raw_chunk True s ?w fd (int (length pre)) (word_of_nat (length d div unat ?bs)) (word_of_nat cur) crc =
      Ok (0, s', fd\<lparr>fd_pos := length pre + length d\<rparr>, map_option (\<lambda>c. sparse_crc32 c d) crc)"
    using bs s'(1) raw_crc_loop_bytes [OF at] lseek_cur_at [OF at, of "length d"]
    by (cases crc) (simp_all add: process_raw_chunk_def Let_def dm w wi del: unsigned_of_nat)
  with s' show ?thesis by blast
qed

lemma process_fill_chunk_ok:
  assumes at: "fd_at fd pre (le32 v @ rest)" and inv: "read_inv s pos cur prev" and p: "pos \<le> pos'"
    and ok: "chunk_ok (sf_block_size s) cur prev (Fill v n)" and bs: "sf_block_size s \<noteq> 0"
  shows "\<exists>s'. process_fill_chunk True s 4 fd n (word_of_nat cur) crc =
      Ok (0, s', fd\<lparr>fd_pos := length pre + 4\<rparr>, map_option (\<lambda>c. reader_crc (sf_block_size s) c (Fill v n)) crc) \<and>
    read_step s [new_node (sf_blocks s) (BACKED_BLOCK_FILL v) (n * sf_block_size s) (word_of_nat cur)] s' \<and>
    read_inv s' pos' (cur + unat n) (Some v)"
proof -
  let ?bs = "sf_block_size s"
  have bs0: "0 < unat ?bs" and n0: "0 < unat n" using bs ok by (simp_all add: word_pos_unat)
  have nb: "cur * unat ?bs < 2 ^ 32" "unat n * unat ?bs < 2 ^ 32" using ok by (simp_all add: distrib_right)
  have cur: "cur < 2 ^ 32" by (rule factor_less [OF bs0 nb(1)])
  have w: "unat (n * ?bs) = unat n * unat ?bs" by (rule unat_mult_u32 [OF nb(2)])
  have "\<exists>s'. sf_update s (backed_block_add True (sf_blocks s) (BACKED_BLOCK_FILL v) (n * ?bs) (word_of_nat cur)) = Ok (0, s') \<and>
    read_step s [new_node (sf_blocks s) (BACKED_BLOCK_FILL v) (n * ?bs) (word_of_nat cur)] s' \<and>
    read_inv s' pos' (cur + unat n) (Some v)"
    by (rule sf_update_add [OF inv cur])
      (use p n0 w cur ok bs0 in \<open>simp_all add: node_old_def new_node_def unat_of_nat\<close>)
  then obtain s' where s': "sparse_file_add_fill True s v (n * ?bs) (word_of_nat cur) = Ok (0, s')"
    "read_step s [new_node (sf_blocks s) (BACKED_BLOCK_FILL v) (n * ?bs) (word_of_nat cur)] s'"
    "read_inv s' pos' (cur + unat n) (Some v)"
    by (auto simp: sparse_file_add_fill_def backed_block_add_fill_def)
  have m: "nat (uint n * uint ?bs) = unat n * unat ?bs" by (simp add: nat_mult_distrib)
  have "process_fill_chunk True s 4 fd n (word_of_nat cur) crc =
      Ok (0, s', fd\<lparr>fd_pos := length pre + 4\<rparr>, map_option (\<lambda>c. reader_crc ?bs c (Fill v n)) crc)"
    using s'(1) read_all_prefix(1) [OF at]
    by (cases crc) (simp_all add: process_fill_chunk_def Let_def fill_crc_loop_bytes m)
  with s' show ?thesis by blast
qed

fun chunk_header_of :: "u32 \<Rightarrow> chunk \<Rightarrow> chunk_header" where
  "chunk_header_of bs (Raw d) =
     \<lparr>chunk_type = CHUNK_TYPE_RAW, reserved1 = 0, chunk_sz = word_of_nat (length d div unat bs), total_sz = 12 + word_of_nat (length d)\<rparr>"
| "chunk_header_of bs (Fill v n) = \<lparr>chunk_type = CHUNK_TYPE_FILL, reserved1 = 0, chunk_sz = n, total_sz = 16\<rparr>"
| "chunk_header_of bs (Skip n) = \<lparr>chunk_type = CHUNK_TYPE_DONT_CARE, reserved1 = 0, chunk_sz = n, total_sz = 12\<rparr>"
| "chunk_header_of bs (Crc c) = \<lparr>chunk_type = CHUNK_TYPE_CRC32, reserved1 = 0, chunk_sz = 0, total_sz = 16\<rparr>"

fun chunk_body :: "chunk \<Rightarrow> bytes" where
  "chunk_body (Raw d) = d"
| "chunk_body (Fill v n) = le32 v"
| "chunk_body (Skip n) = []"
| "chunk_body (Crc c) = le32 c"

lemma encode_chunk_split: "encode_chunk bs c = chunk_header_bytes (chunk_header_of bs c) @ chunk_body c"
  by (cases c) (simp_all add: chunk_hdr_def)

lemma length_chunk_header_bytes [simp]: "length (chunk_header_bytes h) = 12"
  by (simp add: chunk_header_bytes_def)

lemma count_small:
  assumes "4 \<le> k" and "n * k < 2 ^ 32"
  shows "n < (2 :: nat) ^ 30"
proof -
  have "4 * n \<le> n * k" using assms(1) by (metis mult.commute mult_le_mono2)
  then have "4 * n < 2 ^ 32" using assms(2) by (rule le_less_trans)
  then show ?thesis by simp
qed

lemma sint_block_count:
  assumes "4 \<le> unat bs" and "n * unat bs < 2 ^ 32"
  shows "sint (word_of_nat n :: u32) = int n"
proof -
  have n: "n < 2 ^ 30" by (rule count_small [OF assms])
  then have u: "unat (word_of_nat n :: u32) = n" by (simp add: unat_of_nat)
  have "sint (word_of_nat n :: u32) = int (unat (word_of_nat n :: u32))" by (rule sint_small) (use n u in simp)
  with u show ?thesis by simp
qed

lemma process_chunk_ok:
  assumes at: "fd_at fd pre (chunk_body c @ rest)" and inv: "read_inv s pos cur prev" and k: "length pre = k + 12" and p: "pos \<le> int k"
    and ok: "chunk_ok (sf_block_size s) cur prev c" and bs: "4 \<le> unat (sf_block_size s)"
  shows "\<exists>s'. process_chunk True s fd (int (length pre)) 12 (chunk_header_of (sf_block_size s) c) (word_of_nat cur) crc =
      Ok (int (chunk_blks (sf_block_size s) c), s', fd\<lparr>fd_pos := length pre + length (chunk_body c)\<rparr>,
        map_option (\<lambda>x. reader_crc (sf_block_size s) x c) crc) \<and>
    read_step s (chunk_node (sf_block_size s) (fd_num fd) k cur (next_addr (sf_blocks s)) c) s' \<and>
    read_inv s' (int (length pre + length (chunk_body c))) (cur + chunk_blks (sf_block_size s) c) (chunk_value c)"
proof (cases c)
  case (Raw d)
  let ?bs = "sf_block_size s"
  have ok': "chunk_ok ?bs cur prev (Raw d)" and bs0: "?bs \<noteq> 0" and at': "fd_at fd pre (d @ rest)"
    using ok bs at Raw by auto
  have "length d div unat ?bs * unat ?bs < 2 ^ 32" using ok' by (simp add: dvd_div_mult_self)
  then have sz: "sint (word_of_nat (length d div unat ?bs) :: u32) = int (length d div unat ?bs)"
    by (rule sint_block_count [OF bs])
  have p': "pos < int (length pre)" using p k by simp
  from process_raw_chunk_ok [OF at' inv p' ok' bs0, of crc]
  obtain s' where "process_raw_chunk True s (word_of_nat (length d)) fd (int (length pre))
      (word_of_nat (length d div unat ?bs)) (word_of_nat cur) crc =
      Ok (0, s', fd\<lparr>fd_pos := length pre + length d\<rparr>, map_option (\<lambda>c. sparse_crc32 c d) crc)"
    "read_step s [new_node (sf_blocks s) (BACKED_BLOCK_FD (fd_num fd) (int (length pre))) (word_of_nat (length d)) (word_of_nat cur)] s'"
    "read_inv s' (int (length pre + length d)) (cur + length d div unat ?bs) None" by blast
  with k show ?thesis
    by (intro exI [of _ s']) (simp add: Raw process_chunk_def Let_def new_node_def sz add.commute)
next
  case (Fill v n)
  let ?bs = "sf_block_size s"
  have ok': "chunk_ok ?bs cur prev (Fill v n)" and bs0: "?bs \<noteq> 0" and at': "fd_at fd pre (le32 v @ rest)"
    using ok bs at Fill by auto
  have "unat n * unat ?bs < 2 ^ 32" using ok' by (simp add: distrib_right)
  then have sz: "sint n = int (unat n)" using sint_block_count [OF bs, of "unat n"] by simp
  have p': "pos \<le> int (length pre + 4)" using p k by simp
  from process_fill_chunk_ok [OF at' inv p' ok' bs0, of crc]
  obtain s' where "process_fill_chunk True s 4 fd n (word_of_nat cur) crc =
      Ok (0, s', fd\<lparr>fd_pos := length pre + 4\<rparr>, map_option (\<lambda>c. reader_crc ?bs c (Fill v n)) crc)"
    "read_step s [new_node (sf_blocks s) (BACKED_BLOCK_FILL v) (n * ?bs) (word_of_nat cur)] s'"
    "read_inv s' (int (length pre + 4)) (cur + unat n) (Some v)" by blast
  then show ?thesis
    by (intro exI [of _ s']) (simp add: Fill process_chunk_def Let_def new_node_def sz)
next
  case (Skip n)
  let ?bs = "sf_block_size s"
  have ok': "chunk_ok ?bs cur prev (Skip n)" using ok Skip by simp
  have "unat n * unat ?bs < 2 ^ 32" using ok' by (simp add: distrib_right)
  then have sz: "sint n = int (unat n)" using sint_block_count [OF bs, of "unat n"] by simp
  have m: "nat (uint n * uint ?bs) = unat n * unat ?bs" by (simp add: nat_mult_distrib)
  have "read_inv s (int (length pre)) (cur + unat n) None"
    by (rule read_inv_later [OF inv]) (use p k ok' in \<open>simp_all add: word_pos_unat\<close>)
  moreover have "fd\<lparr>fd_pos := length pre\<rparr> = fd" using at by (simp add: fd_at_def)
  ultimately show ?thesis
    by (cases crc) (simp_all add: Skip process_chunk_def process_skip_chunk_def read_step_def sz m fill_crc_loop_bytes)
next
  case (Crc x)
  then show ?thesis using ok by simp
qed

section \<open>Reading a list of chunks\<close>

fun chunks_ok :: "u32 \<Rightarrow> nat \<Rightarrow> u32 option \<Rightarrow> chunk list \<Rightarrow> bool" where
  "chunks_ok bs cur prev [] \<longleftrightarrow> True"
| "chunks_ok bs cur prev (c # cs) \<longleftrightarrow>
     chunk_ok bs cur prev c \<and> chunks_ok bs (cur + chunk_blks bs c) (chunk_value c) cs"

definition chunks_blks :: "u32 \<Rightarrow> chunk list \<Rightarrow> nat" where
  "chunks_blks bs cs = sum_list (map (chunk_blks bs) cs)"

fun chunk_nodes :: "u32 \<Rightarrow> int \<Rightarrow> nat \<Rightarrow> nat \<Rightarrow> nat \<Rightarrow> chunk list \<Rightarrow> backed_block list" where
  "chunk_nodes bs fdn pos cur addr [] = []"
| "chunk_nodes bs fdn pos cur addr (c # cs) =
     chunk_node bs fdn pos cur addr c @
     chunk_nodes bs fdn (pos + length (encode_chunk bs c)) (cur + chunk_blks bs c)
       (addr + length (chunk_node bs fdn pos cur addr c)) cs"

lemma read_step_trans: "read_step s xs s1 \<Longrightarrow> read_step s1 ys s2 \<Longrightarrow> read_step s (xs @ ys) s2"
  by (simp add: read_step_def)

lemma read_chunks_step:
  assumes at: "fd_at fd pre (encode_chunk (sf_block_size s) c @ rest)" and inv: "read_inv s pos cur prev"
    and p: "pos \<le> int (length pre)" and ok: "chunk_ok (sf_block_size s) cur prev c" and bs: "4 \<le> unat (sf_block_size s)"
  shows "\<exists>s'. read_chunks (Suc n) True 12 (word_of_nat cur) (s, fd, crc) =
      read_chunks n True 12 (word_of_nat (cur + chunk_blks (sf_block_size s) c))
        (s', fd\<lparr>fd_pos := length pre + length (encode_chunk (sf_block_size s) c)\<rparr>, map_option (\<lambda>x. reader_crc (sf_block_size s) x c) crc) \<and>
    read_step s (chunk_node (sf_block_size s) (fd_num fd) (length pre) cur (next_addr (sf_blocks s)) c) s' \<and>
    read_inv s' (int (length pre + length (encode_chunk (sf_block_size s) c))) (cur + chunk_blks (sf_block_size s) c) (chunk_value c)"
proof -
  let ?bs = "sf_block_size s"
  define h where "h = chunk_header_of ?bs c"
  define fd1 where "fd1 = fd\<lparr>fd_pos := length pre + 12\<rparr>"
  have at0: "fd_at fd pre (chunk_header_bytes h @ chunk_body c @ rest)" using at by (simp add: encode_chunk_split h_def)
  have len: "length (chunk_header_bytes h) = 12" by simp
  note r = read_all_prefix [OF at0 len, folded fd1_def]
  have l: "length (pre @ chunk_header_bytes h) = length pre + 12" by simp
  obtain s' where s': "process_chunk True s fd1 (int (length (pre @ chunk_header_bytes h))) 12 (chunk_header_of ?bs c) (word_of_nat cur) crc =
      Ok (int (chunk_blks ?bs c), s', fd1\<lparr>fd_pos := length (pre @ chunk_header_bytes h) + length (chunk_body c)\<rparr>,
        map_option (\<lambda>x. reader_crc ?bs x c) crc)"
    "read_step s (chunk_node ?bs (fd_num fd1) (length pre) cur (next_addr (sf_blocks s)) c) s'"
    "read_inv s' (int (length (pre @ chunk_header_bytes h) + length (chunk_body c))) (cur + chunk_blks ?bs c) (chunk_value c)"
    using process_chunk_ok [OF r(2) inv l p ok bs, of crc] by blast
  have sk: "lseek_cur fd1 0 = (int (length pre + 12), fd1)"
    using lseek_cur_at [OF r(2), of 0] by (simp add: fd1_def)
  have e: "length (encode_chunk ?bs c) = 12 + length (chunk_body c)" by (simp add: encode_chunk_split)
  have "read_chunks (Suc n) True 12 (word_of_nat cur) (s, fd, crc) =
      read_chunks n True 12 (word_of_nat (cur + chunk_blks ?bs c))
        (s', fd\<lparr>fd_pos := length pre + length (encode_chunk ?bs c)\<rparr>, map_option (\<lambda>x. reader_crc ?bs x c) crc)"
    using r(1) sk s'(1) by (simp add: h_def) (simp add: fd1_def e add.assoc)
  moreover have "fd_num fd1 = fd_num fd" by (simp add: fd1_def)
  ultimately show ?thesis using s'(2,3) by (intro exI [of _ s']) (simp add: e add.assoc)
qed

lemma read_chunks_ok:
  assumes "fd_at fd pre (encode_chunks bs cs @ rest)" and "read_inv s pos cur prev" and "pos \<le> int (length pre)"
    and "chunks_ok bs cur prev cs" and "4 \<le> unat bs" and "sf_block_size s = bs"
  shows "\<exists>s' prev'. read_chunks (length cs + n) True 12 (word_of_nat cur) (s, fd, crc) =
      read_chunks n True 12 (word_of_nat (cur + chunks_blks bs cs))
        (s', fd\<lparr>fd_pos := length pre + length (encode_chunks bs cs)\<rparr>, map_option (\<lambda>x. foldl (reader_crc bs) x cs) crc) \<and>
    read_step s (chunk_nodes bs (fd_num fd) (length pre) cur (next_addr (sf_blocks s)) cs) s' \<and>
    read_inv s' (int (length pre + length (encode_chunks bs cs))) (cur + chunks_blks bs cs) prev'"
  using assms
proof (induction cs arbitrary: fd pre s pos cur prev crc)
  case Nil
  then have "read_inv s (int (length pre)) cur prev"
    by (auto simp: read_inv_def node_old_def split: bb_payload.splits)
  moreover have "fd\<lparr>fd_pos := length pre\<rparr> = fd" using Nil(1) by (simp add: fd_at_def)
  ultimately show ?case
    by (intro exI [of _ s] exI [of _ prev]) (simp add: chunks_blks_def read_step_def option.map_ident)
next
  case (Cons c cs)
  have at: "fd_at fd pre (encode_chunk bs c @ encode_chunks bs cs @ rest)" using Cons.prems(1) by simp
  from read_chunks_step [of fd pre s c "encode_chunks bs cs @ rest" pos cur prev "length cs + n" crc] Cons.prems at
  obtain s1 where s1: "read_chunks (Suc (length cs + n)) True 12 (word_of_nat cur) (s, fd, crc) =
      read_chunks (length cs + n) True 12 (word_of_nat (cur + chunk_blks bs c))
        (s1, fd\<lparr>fd_pos := length pre + length (encode_chunk bs c)\<rparr>, map_option (\<lambda>x. reader_crc bs x c) crc)"
    "read_step s (chunk_node bs (fd_num fd) (length pre) cur (next_addr (sf_blocks s)) c) s1"
    "read_inv s1 (int (length pre + length (encode_chunk bs c))) (cur + chunk_blks bs c) (chunk_value c)"
    by auto
  define fd1 where "fd1 = fd\<lparr>fd_pos := length pre + length (encode_chunk bs c)\<rparr>"
  have at1: "fd_at fd1 (pre @ encode_chunk bs c) (encode_chunks bs cs @ rest)"
    unfolding fd1_def by (rule fd_at_advance [OF at])
  have "\<exists>s' prev'. read_chunks (length cs + n) True 12 (word_of_nat (cur + chunk_blks bs c)) (s1, fd1, map_option (\<lambda>x. reader_crc bs x c) crc) =
      read_chunks n True 12 (word_of_nat (cur + chunk_blks bs c + chunks_blks bs cs))
        (s', fd1\<lparr>fd_pos := length (pre @ encode_chunk bs c) + length (encode_chunks bs cs)\<rparr>,
          map_option (\<lambda>x. foldl (reader_crc bs) x cs) (map_option (\<lambda>x. reader_crc bs x c) crc)) \<and>
    read_step s1 (chunk_nodes bs (fd_num fd1) (length (pre @ encode_chunk bs c)) (cur + chunk_blks bs c) (next_addr (sf_blocks s1)) cs) s' \<and>
    read_inv s' (int (length (pre @ encode_chunk bs c) + length (encode_chunks bs cs))) (cur + chunk_blks bs c + chunks_blks bs cs) prev'"
    by (rule Cons.IH [OF at1 s1(3)]) (use Cons.prems s1(2) in \<open>simp_all add: read_step_def\<close>)
  then obtain s2 prev' where s2: "read_chunks (length cs + n) True 12 (word_of_nat (cur + chunk_blks bs c)) (s1, fd1, map_option (\<lambda>x. reader_crc bs x c) crc) =
      read_chunks n True 12 (word_of_nat (cur + chunk_blks bs c + chunks_blks bs cs))
        (s2, fd1\<lparr>fd_pos := length (pre @ encode_chunk bs c) + length (encode_chunks bs cs)\<rparr>,
          map_option (\<lambda>x. foldl (reader_crc bs) x cs) (map_option (\<lambda>x. reader_crc bs x c) crc))"
    "read_step s1 (chunk_nodes bs (fd_num fd1) (length (pre @ encode_chunk bs c)) (cur + chunk_blks bs c) (next_addr (sf_blocks s1)) cs) s2"
    "read_inv s2 (int (length (pre @ encode_chunk bs c) + length (encode_chunks bs cs))) (cur + chunk_blks bs c + chunks_blks bs cs) prev'"
    by blast
  have na: "next_addr (sf_blocks s1) = next_addr (sf_blocks s) + length (chunk_node bs (fd_num fd) (length pre) cur (next_addr (sf_blocks s)) c)"
    using s1(2) by (simp add: read_step_def)
  have "read_step s (chunk_nodes bs (fd_num fd) (length pre) cur (next_addr (sf_blocks s)) (c # cs)) s2"
    using read_step_trans [OF s1(2) s2(2)] by (simp add: na fd1_def)
  moreover have "read_inv s2 (int (length pre + length (encode_chunks bs (c # cs)))) (cur + chunks_blks bs (c # cs)) prev'"
    using s2(3) by (simp add: chunks_blks_def add.assoc)
  moreover have "read_chunks (length (c # cs) + n) True 12 (word_of_nat cur) (s, fd, crc) =
      read_chunks n True 12 (word_of_nat (cur + chunks_blks bs (c # cs)))
        (s2, fd\<lparr>fd_pos := length pre + length (encode_chunks bs (c # cs))\<rparr>, map_option (\<lambda>x. foldl (reader_crc bs) x (c # cs)) crc)"
    using s1(1) s2(1) by (simp add: fd1_def chunks_blks_def option.map_comp comp_def add.assoc)
  ultimately show ?case by blast
qed

section \<open>The image a list of chunks describes\<close>

fun chunk_image :: "u32 \<Rightarrow> nat \<Rightarrow> chunk \<Rightarrow> nat \<rightharpoonup> u8" where
  "chunk_image bs cur (Raw d) =
     (\<lambda>p. if cur * unat bs \<le> p \<and> p < cur * unat bs + length d then Some (d ! (p - cur * unat bs)) else None)"
| "chunk_image bs cur (Fill v n) =
     (\<lambda>p. if cur * unat bs \<le> p \<and> p < cur * unat bs + unat n * unat bs then Some (le32 v ! ((p - cur * unat bs) mod 4)) else None)"
| "chunk_image bs cur _ = Map.empty"

fun chunks_image :: "u32 \<Rightarrow> nat \<Rightarrow> chunk list \<Rightarrow> nat \<rightharpoonup> u8" where
  "chunks_image bs cur [] = Map.empty"
| "chunks_image bs cur (c # cs) = chunk_image bs cur c ++ chunks_image bs (cur + chunk_blks bs c) cs"

text \<open>Media in which the descriptor \<open>fdn\<close> holds the given bytes.\<close>

definition fd_holds :: "media \<Rightarrow> int \<Rightarrow> bytes \<Rightarrow> bool" where
  "fd_holds m fdn xs \<longleftrightarrow> (\<forall>i < length xs. fd_byte m fdn (int i) = xs ! i)"

lemma chunk_node_image:
  assumes h: "fd_holds m fdn (pre @ encode_chunk bs c @ rest)" and ok: "chunk_ok bs cur prev c" and bs: "bs \<noteq> 0"
  shows "blocks_image m bs (chunk_node bs fdn (length pre) cur addr c) = chunk_image bs cur c"
proof -
  have bs0: "0 < unat bs" using bs by (simp add: word_pos_unat)
  have cur: "unat (word_of_nat cur :: u32) = cur" if "cur * unat bs < 2 ^ 32"
    using factor_less [OF bs0 that] by (simp add: unat_of_nat)
  show ?thesis
  proof (cases c)
    case (Raw d)
    have w: "unat (word_of_nat (length d) :: u32) = length d" using ok Raw by (simp add: unat_of_nat)
    have cu: "unat (word_of_nat cur :: u32) = cur" by (rule cur) (use ok Raw in simp)
    have byte: "fd_byte m fdn (int (length pre) + 12 + int i) = d ! i" if "i < length d" for i
    proof -
      have "fd_byte m fdn (int (length pre + (12 + i))) = (pre @ encode_chunk bs c @ rest) ! (length pre + (12 + i))"
        by (rule h [unfolded fd_holds_def, rule_format]) (use that in \<open>simp add: Raw\<close>)
      also have "\<dots> = d ! i" using that by (simp add: Raw nth_append)
      finally show ?thesis by (simp add: add.assoc)
    qed
    show ?thesis
    proof
      fix p
      define st where "st = cur * unat bs"
      have "fd_byte m fdn (int (length pre) + 12 + int (p - st)) = d ! (p - st)" if "st \<le> p" "p < st + length d"
        by (rule byte) (use that in simp)
      then show "blocks_image m bs (chunk_node bs fdn (length pre) cur addr c) p = chunk_image bs cur c p"
        by (simp add: Raw bb_image_def bb_start_def bb_end_def w cu del: unsigned_of_nat of_nat_diff flip: st_def)
    qed
  next
    case (Fill v n)
    have cu: "unat (word_of_nat cur :: u32) = cur" by (rule cur) (use ok Fill in \<open>simp add: distrib_right\<close>)
    have w: "unat (n * bs) = unat n * unat bs" by (rule unat_mult_u32) (use ok Fill in \<open>simp add: distrib_right\<close>)
    show ?thesis by (simp add: Fill bb_image_def bb_start_def bb_end_def w cu fun_eq_iff del: unsigned_of_nat)
  qed simp_all
qed

lemma chunk_nodes_image:
  assumes "fd_holds m fdn (pre @ encode_chunks bs cs @ rest)" and "chunks_ok bs cur prev cs" and "bs \<noteq> 0"
  shows "blocks_image m bs (chunk_nodes bs fdn (length pre) cur addr cs) = chunks_image bs cur cs"
  using assms
proof (induction cs arbitrary: pre cur prev addr)
  case (Cons c cs)
  have "blocks_image m bs (chunk_node bs fdn (length pre) cur addr c) = chunk_image bs cur c"
    by (rule chunk_node_image) (use Cons.prems in auto)
  moreover have "blocks_image m bs (chunk_nodes bs fdn (length (pre @ encode_chunk bs c)) (cur + chunk_blks bs c)
      (addr + length (chunk_node bs fdn (length pre) cur addr c)) cs) = chunks_image bs (cur + chunk_blks bs c) cs"
    by (rule Cons.IH) (use Cons.prems in auto)
  ultimately show ?case by simp
qed simp

lemma chunks_ok_snoc_skip:
  "chunks_ok bs cur prev (cs @ [Skip n]) \<longleftrightarrow>
     chunks_ok bs cur prev cs \<and> n \<noteq> 0 \<and> (cur + chunks_blks bs cs + unat n) * unat bs < 2 ^ 32"
  by (induction cs arbitrary: cur prev) (simp_all add: chunks_blks_def add.assoc)

lemma chunks_image_snoc_skip [simp]: "chunks_image bs cur (cs @ [Skip n]) = chunks_image bs cur cs"
  by (induction cs arbitrary: cur) simp_all

lemma chunks_blks_simps [simp]:
  "chunks_blks bs [] = 0" "chunks_blks bs (c # cs) = chunk_blks bs c + chunks_blks bs cs"
  "chunks_blks bs (cs @ ds) = chunks_blks bs cs + chunks_blks bs ds"
  by (simp_all add: chunks_blks_def)

end
