(* ===== verification/Sparse_Roundtrip.thy ===== *)
theory Sparse_Roundtrip
  imports Sparse_Read_Props
begin

text \<open>
  The round trip through writer and reader: what \<open>sparse_file_import\<close> reads back from what \<open>sparse_file_write\<close>
  wrote, and when the two sides agree on the checksum.
\<close>

section \<open>The chunks of a sparse file\<close>

fun fills_apart :: "u32 option \<Rightarrow> chunk list \<Rightarrow> bool" where
  "fills_apart prev [] \<longleftrightarrow> True"
| "fills_apart prev (c # cs) \<longleftrightarrow> (chunk_value c = None \<or> chunk_value c \<noteq> prev) \<and> fills_apart (chunk_value c) cs"

text \<open>The blocks follow each other from block \<open>cur\<close> on, and end below 4 GiB.\<close>

definition blks_of :: "u32 \<Rightarrow> backed_block \<Rightarrow> nat" where
  "blks_of bs b = unat (DIV_ROUND_UP (bb_len b) bs)"

fun blocks_fit :: "u32 \<Rightarrow> nat \<Rightarrow> backed_block list \<Rightarrow> bool" where
  "blocks_fit bs cur [] \<longleftrightarrow> cur * unat bs < 2 ^ 32"
| "blocks_fit bs cur (b # l) \<longleftrightarrow>
     cur \<le> unat (bb_block b) \<and> bb_len b \<noteq> 0 \<and> unat (bb_len b) + unat bs \<le> 2 ^ 31 \<and>
     blocks_fit bs (unat (bb_block b) + blks_of bs b) l"

lemma blocks_fit_bound: "blocks_fit bs cur l \<Longrightarrow> cur * unat bs < 2 ^ 32"
proof (induction l arbitrary: cur)
  case (Cons b l)
  then have "(unat (bb_block b) + blks_of bs b) * unat bs < 2 ^ 32" by simp
  moreover have "cur * unat bs \<le> (unat (bb_block b) + blks_of bs b) * unat bs"
    using Cons.prems by (intro mult_right_mono) auto
  ultimately show ?case by linarith
qed simp

lemma blks_of_align:
  assumes "bs \<noteq> 0" and "unat (bb_len b) + unat bs \<le> 2 ^ 31"
  shows "blks_of bs b * unat bs = align_up (unat (bb_len b)) (unat bs)"
  unfolding blks_of_def by (rule DIV_ROUND_UP_eq) (use assms in simp_all)

lemma length_pad_block:
  assumes "bs \<noteq> 0"
  shows "length (pad_block bs d) = align_up (length d) (unat bs)"
  using align_up_props(1) [of "unat bs" "length d"] assms by (simp add: pad_block_def word_pos_unat)

text \<open>One block and its chunk.\<close>

lemma block_chunk_cases:
  obtains (fill) v where "bb_payload b = BACKED_BLOCK_FILL v" and "block_chunk m bs b = Fill v (DIV_ROUND_UP (bb_len b) bs)"
  | (raw) "block_chunk m bs b = Raw (pad_block bs (payload_bytes m (bb_payload b) (unat (bb_len b))))"
  by (cases "bb_payload b") (auto simp: block_chunk_def)

lemma block_chunk_props:
  assumes bs: "bs \<noteq> 0" and len: "bb_len b \<noteq> 0" "unat (bb_len b) + unat bs \<le> 2 ^ 31"
    and fit: "(unat (bb_block b) + blks_of bs b) * unat bs < 2 ^ 32"
    and apart: "chunk_value (block_chunk m bs b) = None \<or> chunk_value (block_chunk m bs b) \<noteq> prev"
  shows "chunk_blks bs (block_chunk m bs b) = blks_of bs b"
    and "chunk_ok bs (unat (bb_block b)) prev (block_chunk m bs b)"
    and "0 < blks_of bs b"
proof -
  have bs0: "0 < unat bs" using bs by (simp add: word_pos_unat)
  note al = blks_of_align [where b = b, OF bs len(2)]
  have "unat (bb_len b) \<le> blks_of bs b * unat bs" using align_up_props(1) [OF bs0] al by simp
  moreover have l0: "0 < unat (bb_len b)" using len(1) by (simp add: word_pos_unat)
  ultimately show pos: "0 < blks_of bs b" by (cases "blks_of bs b") auto
  have le: "length (pad_block bs (payload_bytes m (bb_payload b) (unat (bb_len b)))) = blks_of bs b * unat bs"
    by (simp add: length_pad_block [OF bs] al)
  have ne: "pad_block bs (payload_bytes m (bb_payload b) (unat (bb_len b))) \<noteq> []"
    using l0 by (simp add: pad_block_def payload_bytes_def)
  show "chunk_blks bs (block_chunk m bs b) = blks_of bs b"
    using le bs0 by (cases rule: block_chunk_cases [of b m bs]) (simp_all add: blks_of_def)
  show "chunk_ok bs (unat (bb_block b)) prev (block_chunk m bs b)"
    using le ne bs0 fit pos apart
    by (cases rule: block_chunk_cases [of b m bs]) (auto simp: blks_of_def distrib_right word_pos_unat)
qed

lemma block_chunks_ok:
  assumes "bs \<noteq> 0" and "blocks_fit bs (unat L) l" and "fills_apart prev (block_chunks m bs L l)"
  shows "chunks_ok bs (unat L) prev (block_chunks m bs L l)"
    and "unat L + chunks_blks bs (block_chunks m bs L l) = unat (end_block bs L l)"
proof -
  have "chunks_ok bs (unat L) prev (block_chunks m bs L l) \<and>
      unat L + chunks_blks bs (block_chunks m bs L l) = unat (end_block bs L l)"
    using assms(2,3)
  proof (induction l arbitrary: L prev)
    case (Cons b l)
    define nxt where "nxt = bb_block b + DIV_ROUND_UP (bb_len b) bs"
    have bs0: "0 < unat bs" using assms(1) by (simp add: word_pos_unat)
    have fitn: "blocks_fit bs (unat (bb_block b) + blks_of bs b) l" using Cons.prems by simp
    note bound = blocks_fit_bound [OF fitn]
    have nxt: "unat nxt = unat (bb_block b) + blks_of bs b"
      unfolding nxt_def blks_of_def
      by (rule unat_add_u32) (use factor_less [OF bs0 bound] in \<open>simp add: blks_of_def\<close>)
    define prev1 where "prev1 = (if bb_block b > L then None else prev)"
    have ap: "chunk_value (block_chunk m bs b) = None \<or> chunk_value (block_chunk m bs b) \<noteq> prev1"
        "fills_apart (chunk_value (block_chunk m bs b)) (block_chunks m bs nxt l)"
      using Cons.prems(2) by (auto simp: gap_chunk_def prev1_def nxt_def split: if_splits)
    have le: "unat L \<le> unat (bb_block b)" using Cons.prems(1) by simp
    have c: "chunk_blks bs (block_chunk m bs b) = blks_of bs b" "chunk_ok bs (unat (bb_block b)) prev1 (block_chunk m bs b)"
      using block_chunk_props [OF assms(1) _ _ bound ap(1)] Cons.prems(1) by auto
    have ih: "chunks_ok bs (unat nxt) (chunk_value (block_chunk m bs b)) (block_chunks m bs nxt l)"
        "unat nxt + chunks_blks bs (block_chunks m bs nxt l) = unat (end_block bs nxt l)"
      using Cons.IH [of nxt] fitn ap(2) nxt by simp_all
    have gap: "unat (bb_block b - L) = unat (bb_block b) - unat L"
      by (rule unat_sub_u32) (use le in \<open>simp add: word_le_nat_alt\<close>)
    have bb: "unat (bb_block b) * unat bs < 2 ^ 32" using bound by (simp add: distrib_right)
    show ?case
    proof (cases "bb_block b > L")
      case True
      with c ih gap le bb nxt show ?thesis
        by (auto simp: gap_chunk_def prev1_def simp flip: nxt_def)
    next
      case False
      then have "unat L = unat (bb_block b)" using le by (simp add: word_less_nat_alt)
      with False c ih nxt show ?thesis
        by (simp add: gap_chunk_def prev1_def flip: nxt_def)
    qed
  qed simp
  then show "chunks_ok bs (unat L) prev (block_chunks m bs L l)"
    and "unat L + chunks_blks bs (block_chunks m bs L l) = unat (end_block bs L l)" by simp_all
qed

text \<open>The chunk of a block shows the bytes of the block, and nothing else when the block has no padding.\<close>

lemma block_chunk_image:
  assumes bs: "bs \<noteq> 0" and len: "unat (bb_len b) + unat bs \<le> 2 ^ 31"
  shows "bb_image m bs b \<subseteq>\<^sub>m chunk_image bs (unat (bb_block b)) (block_chunk m bs b)"
    and "unat bs dvd unat (bb_len b) \<Longrightarrow> chunk_image bs (unat (bb_block b)) (block_chunk m bs b) = bb_image m bs b"
    and "dom (chunk_image bs (unat (bb_block b)) (block_chunk m bs b)) \<subseteq>
      {p. unat (bb_block b) * unat bs \<le> p \<and> p < (unat (bb_block b) + blks_of bs b) * unat bs}"
proof -
  let ?st = "unat (bb_block b) * unat bs" and ?n = "unat (bb_len b)"
  define img where "img = chunk_image bs (unat (bb_block b)) (block_chunk m bs b)"
  define n' where "n' = align_up ?n (unat bs)"
  have bs0: "0 < unat bs" using bs by (simp add: word_pos_unat)
  have n': "?n \<le> n'" using align_up_props(1) [OF bs0] by (simp add: n'_def)
  have al: "blks_of bs b * unat bs = n'" using blks_of_align [where b = b, OF bs len] by (simp add: n'_def)
  have img: "img p = (if ?st \<le> p \<and> p < ?st + n' then Some (if p - ?st < ?n then payload_byte m (bb_payload b) (p - ?st)
      else (case block_chunk m bs b of Fill v _ \<Rightarrow> le32 v ! ((p - ?st) mod 4) | _ \<Rightarrow> 0)) else None)" for p
  proof (cases rule: block_chunk_cases [of b m bs])
    case (fill v)
    then show ?thesis using al by (simp add: img_def blks_of_def)
  next
    case raw
    have "length (pad_block bs (payload_bytes m (bb_payload b) ?n)) = n'" by (simp add: length_pad_block [OF bs] n'_def)
    moreover have "pad_block bs (payload_bytes m (bb_payload b) ?n) ! i =
        (if i < ?n then payload_byte m (bb_payload b) i else 0)" if "i < n'" for i
      using that n' by (simp add: pad_block_def nth_append payload_bytes_def flip: n'_def)
    ultimately show ?thesis using raw by (simp add: img_def less_diff_conv2)
  qed
  have bbi: "bb_image m bs b p = (if ?st \<le> p \<and> p < ?st + ?n then Some (payload_byte m (bb_payload b) (p - ?st)) else None)" for p
    by (simp add: bb_image_def bb_start_def bb_end_def)
  show "bb_image m bs b \<subseteq>\<^sub>m chunk_image bs (unat (bb_block b)) (block_chunk m bs b)"
    using n' unfolding img_def [symmetric] by (auto simp: map_le_def bbi img split: if_splits)
  show "chunk_image bs (unat (bb_block b)) (block_chunk m bs b) = bb_image m bs b" if dv: "unat bs dvd ?n"
  proof -
    obtain q where "?n = q * unat bs" using dv by (metis dvdE mult.commute)
    then have "n' = ?n" using bs0 by (simp add: n'_def)
    then show ?thesis unfolding img_def [symmetric] by (auto simp: fun_eq_iff bbi img)
  qed
  show "dom (chunk_image bs (unat (bb_block b)) (block_chunk m bs b)) \<subseteq>
      {p. ?st \<le> p \<and> p < (unat (bb_block b) + blks_of bs b) * unat bs}"
    unfolding img_def [symmetric] by (auto simp: img al distrib_right split: if_splits)
qed

lemma chunks_image_dom: "p \<in> dom (chunks_image bs cur cs) \<Longrightarrow> cur * unat bs \<le> p"
proof (induction cs arbitrary: cur)
  case (Cons c cs)
  have "cur * unat bs \<le> p" if "p \<in> dom (chunk_image bs cur c)"
    using that by (cases c) (auto split: if_splits)
  moreover have "cur * unat bs \<le> p" if "p \<in> dom (chunks_image bs (cur + chunk_blks bs c) cs)"
    using Cons.IH [OF that] by (simp add: distrib_right)
  ultimately show ?case using Cons.prems by auto
qed simp

lemma block_chunks_image:
  assumes bs: "bs \<noteq> 0" and "blocks_fit bs (unat L) l"
  shows "blocks_image m bs l \<subseteq>\<^sub>m chunks_image bs (unat L) (block_chunks m bs L l)"
    and "\<forall>b \<in> set l. unat bs dvd unat (bb_len b) \<Longrightarrow>
      chunks_image bs (unat L) (block_chunks m bs L l) = blocks_image m bs l"
proof -
  have "blocks_image m bs l \<subseteq>\<^sub>m chunks_image bs (unat L) (block_chunks m bs L l) \<and>
      ((\<forall>b \<in> set l. unat bs dvd unat (bb_len b)) \<longrightarrow>
        chunks_image bs (unat L) (block_chunks m bs L l) = blocks_image m bs l)"
    using assms(2)
  proof (induction l arbitrary: L)
    case (Cons b l)
    define nxt where "nxt = bb_block b + DIV_ROUND_UP (bb_len b) bs"
    define rest where "rest = chunks_image bs (unat nxt) (block_chunks m bs nxt l)"
    define here where "here = chunk_image bs (unat (bb_block b)) (block_chunk m bs b)"
    have bs0: "0 < unat bs" using bs by (simp add: word_pos_unat)
    have fitn: "blocks_fit bs (unat (bb_block b) + blks_of bs b) l" and len: "bb_len b \<noteq> 0" "unat (bb_len b) + unat bs \<le> 2 ^ 31"
      and le: "unat L \<le> unat (bb_block b)"
      using Cons.prems by simp_all
    note bound = blocks_fit_bound [OF fitn]
    have nxt: "unat nxt = unat (bb_block b) + blks_of bs b"
      unfolding nxt_def blks_of_def
      by (rule unat_add_u32) (use factor_less [OF bs0 bound] in \<open>simp add: blks_of_def\<close>)
    have blks: "chunk_blks bs (block_chunk m bs b) = blks_of bs b"
      by (rule block_chunk_props(1) [OF bs len bound, of _ "if chunk_value (block_chunk m bs b) = None then Some 0 else None"]) simp
    have gap: "unat (bb_block b - L) = unat (bb_block b) - unat L"
      by (rule unat_sub_u32) (use le in \<open>simp add: word_le_nat_alt\<close>)
    have img: "chunks_image bs (unat L) (block_chunks m bs L (b # l)) = here ++ rest"
    proof (cases "bb_block b > L")
      case True
      with gap le blks nxt show ?thesis by (simp add: gap_chunk_def here_def rest_def flip: nxt_def)
    next
      case False
      then have "unat L = unat (bb_block b)" using le by (simp add: word_less_nat_alt)
      with False blks nxt show ?thesis by (simp add: gap_chunk_def here_def rest_def flip: nxt_def)
    qed
    have ih: "blocks_image m bs l \<subseteq>\<^sub>m rest"
        "(\<forall>b \<in> set l. unat bs dvd unat (bb_len b)) \<Longrightarrow> rest = blocks_image m bs l"
      using Cons.IH [of nxt] fitn nxt by (simp_all add: rest_def)
    note bi = block_chunk_image [where b = b and m = m, OF bs len(2), folded here_def]
    have "dom here \<inter> dom rest = {}"
      using bi(3) chunks_image_dom [of _ bs "unat nxt"] nxt unfolding rest_def by fastforce
    then have le2: "bb_image m bs b ++ blocks_image m bs l \<subseteq>\<^sub>m here ++ rest"
      using bi(1) ih(1) unfolding map_le_def dom_def map_add_def
      by (fastforce split: option.splits)
    then show ?case using img bi(2) ih(2) by simp
  qed simp
  then show "blocks_image m bs l \<subseteq>\<^sub>m chunks_image bs (unat L) (block_chunks m bs L l)"
    and "\<forall>b \<in> set l. unat bs dvd unat (bb_len b) \<Longrightarrow>
      chunks_image bs (unat L) (block_chunks m bs L l) = blocks_image m bs l" by blast+
qed

section \<open>Files that can be written and read back\<close>

definition sf_ok :: "io_env \<Rightarrow> sparse_file \<Rightarrow> bool" where
  "sf_ok env s \<longleftrightarrow>
     sf_writable env s \<and> bbl_inv (sf_blocks s) \<and> bbl_block_size (sf_blocks s) = sf_block_size s \<and>
     sf_len s < 2 ^ 32 \<and> fills_apart None (file_chunks (env_media env) s)"

lemma ceil_le:
  assumes "0 < k" and "n \<le> q * k"
  shows "(n + k - 1) div k \<le> (q :: nat)"
proof -
  have "(n + k - 1) div k \<le> (q * k + (k - 1)) div k" using assms by (intro div_le_mono) simp
  also have "\<dots> = q" using assms(1) by (intro div_nat_eqI) (simp_all add: algebra_simps)
  finally show ?thesis .
qed

lemma regions_blocks_fit:
  assumes bs: "4 \<le> unat bs" and "regions_ok bs l" and "\<forall>b \<in> set l. unat (bb_len b) + unat bs \<le> 2 ^ 31"
    and "\<forall>b \<in> set l. unat L \<le> unat (bb_block b)" and "unat (end_block bs L l) * unat bs < 2 ^ 32"
  shows "blocks_fit bs (unat L) l"
  using assms(2-)
proof (induction l arbitrary: L)
  case (Cons b l)
  define nxt where "nxt = bb_block b + DIV_ROUND_UP (bb_len b) bs"
  have bs0: "bs \<noteq> 0" "0 < unat bs" using bs by auto
  have len: "unat (bb_len b) + unat bs \<le> 2 ^ 31" using Cons.prems by simp
  have bl: "blks_of bs b = (unat (bb_len b) + unat bs - 1) div unat bs"
    unfolding blks_of_def by (rule unat_DIV_ROUND_UP) (use bs0 len in simp_all)
  have rg: "bb_start bs b < bb_end bs b" "bb_end bs b < 2 ^ 32" "\<forall>b' \<in> set l. bb_end bs b \<le> bb_start bs b'" "regions_ok bs l"
    using Cons.prems(1) by (auto simp: regions_ok_def)
  have l0: "bb_len b \<noteq> 0" using rg(1) by (auto simp: bb_end_def)
  have al: "blks_of bs b * unat bs = align_up (unat (bb_len b)) (unat bs)"
    by (rule blks_of_align) (use bs0 len in simp_all)
  have "align_up (unat (bb_len b)) (unat bs) < unat (bb_len b) + unat bs" by (rule align_up_props(2) [OF bs0(2)])
  then have "(unat (bb_block b) + blks_of bs b) * unat bs < 2 ^ 32 + unat bs"
    using rg(2) al by (simp add: bb_end_def bb_start_def distrib_right)
  moreover have "2 ^ 32 + unat bs \<le> 2 ^ 31 * unat bs" using bs by simp
  ultimately have "(unat (bb_block b) + blks_of bs b) * unat bs < 2 ^ 31 * unat bs" by (rule less_le_trans)
  then have "unat (bb_block b) + blks_of bs b < 2 ^ 31" by (metis mult_less_cancel2)
  then have nxt: "unat nxt = unat (bb_block b) + blks_of bs b"
    unfolding nxt_def blks_of_def by (intro unat_add_u32) simp
  have "unat nxt \<le> unat (bb_block b')" if "b' \<in> set l" for b'
  proof -
    have le: "unat (bb_block b) * unat bs + unat (bb_len b) \<le> unat (bb_block b') * unat bs"
      using rg(3) that by (auto simp: bb_end_def bb_start_def)
    then have "unat (bb_block b) \<le> unat (bb_block b')" using bs0(2) by (metis le_add1 le_trans mult_le_cancel2)
    moreover have "blks_of bs b \<le> unat (bb_block b') - unat (bb_block b)"
      unfolding bl by (rule ceil_le [OF bs0(2)]) (use le in \<open>simp add: diff_mult_distrib\<close>)
    ultimately show ?thesis using nxt by simp
  qed
  then have "blocks_fit bs (unat nxt) l"
    using Cons.IH [of nxt] Cons.prems(2,4) rg(4) by (simp add: nxt_def)
  with Cons.prems(3) len l0 nxt show ?case by simp
qed simp

lemma sf_ok_fit:
  assumes ok: "sf_ok env s"
  shows "blocks_fit (sf_block_size s) 0 (data_blocks (sf_blocks s))" and "4 \<le> unat (sf_block_size s)"
    and "uint (end_block (sf_block_size s) 0 (data_blocks (sf_blocks s))) * uint (sf_block_size s) \<le> sf_len s"
proof -
  let ?bs = "sf_block_size s" and ?l = "data_blocks (sf_blocks s)"
  have inv: "4 dvd unat ?bs" "regions_ok ?bs ?l" and w: "sf_writable env s" and n: "sf_len s < 2 ^ 32"
    using ok by (auto simp: sf_ok_def bbl_inv_def)
  have bs0: "0 < unat ?bs" using w by (simp add: sf_writable_def word_pos_unat)
  show bs4: "4 \<le> unat ?bs" using inv(1) bs0 by (rule dvd_imp_le)
  show e: "uint (end_block ?bs 0 ?l) * uint ?bs \<le> sf_len s" using w by (simp add: sf_writable_def tail_len_def)
  then have "int (unat (end_block ?bs 0 ?l) * unat ?bs) < int (2 ^ 32)" using n by simp
  then have "unat (end_block ?bs 0 ?l) * unat ?bs < 2 ^ 32" by (simp only: of_nat_less_iff)
  then have "blocks_fit ?bs (unat (0 :: u32)) ?l"
    by (intro regions_blocks_fit [OF bs4 inv(2)]) (use w in \<open>auto simp: sf_writable_def block_writable_def\<close>)
  then show "blocks_fit ?bs 0 ?l" by simp
qed

lemma fills_apart_append: "fills_apart prev (xs @ ys) \<Longrightarrow> fills_apart prev xs"
  by (induction xs arbitrary: prev) auto

lemma chunks_ok_length: "chunks_ok bs cur prev cs \<Longrightarrow> bs \<noteq> 0 \<Longrightarrow> length cs \<le> chunks_blks bs cs"
proof (induction cs arbitrary: cur prev)
  case (Cons c cs)
  have "1 \<le> chunk_blks bs c"
    using Cons.prems by (cases c) (auto simp: word_pos_unat Suc_le_eq div_greater_zero_iff dvd_imp_le)
  with Cons show ?case by fastforce
qed simp

lemma file_chunks_ok:
  assumes ok: "sf_ok env s"
  defines "cs \<equiv> file_chunks (env_media env) s"
  shows "chunks_ok (sf_block_size s) 0 None cs"
    and "int (chunks_blks (sf_block_size s) cs) * uint (sf_block_size s) = sf_len s"
    and "bbl_image (env_media env) (sf_blocks s) \<subseteq>\<^sub>m chunks_image (sf_block_size s) 0 cs"
    and "\<forall>b \<in> set (data_blocks (sf_blocks s)). unat (sf_block_size s) dvd unat (bb_len b) \<Longrightarrow>
      chunks_image (sf_block_size s) 0 cs = bbl_image (env_media env) (sf_blocks s)"
proof -
  let ?bs = "sf_block_size s" and ?l = "data_blocks (sf_blocks s)" and ?m = "env_media env"
  define bc where "bc = block_chunks ?m ?bs 0 ?l"
  define e where "e = end_block ?bs 0 ?l"
  have bs: "?bs \<noteq> 0" "0 < uint ?bs" and dv: "uint ?bs dvd sf_len s" and n: "sf_len s < 2 ^ 32" and bbs: "bbl_block_size (sf_blocks s) = ?bs"
    and t0: "0 \<le> tail_len s"
    using ok by (auto simp: sf_ok_def sf_writable_def word_neq_0_conv word_less_def)
  have fit: "blocks_fit ?bs (unat (0 :: u32)) ?l" using sf_ok_fit [OF ok] by simp
  have ap: "fills_apart None bc" using ok unfolding sf_ok_def file_chunks_def bc_def by (blast dest: fills_apart_append)
  have bok: "chunks_ok ?bs 0 None bc" and be: "chunks_blks ?bs bc = unat e"
    using block_chunks_ok [OF bs(1) fit ap [unfolded bc_def]] by (simp_all add: bc_def e_def)
  define t where "t = nat (tail_len s div uint ?bs)"
  have "uint ?bs dvd tail_len s" using dv by (simp add: tail_len_def)
  moreover have "0 \<le> tail_len s div uint ?bs" using t0 by (simp add: div_int_pos_iff)
  ultimately have tl: "tail_len s = int t * uint ?bs" by (simp add: t_def)
  have tlen: "(int (unat e) + int t) * uint ?bs = sf_len s"
    using tl by (simp add: tail_len_def e_def distrib_right)
  then have "int ((unat e + t) * unat ?bs) < int (2 ^ 32)" using n by simp
  then have tb: "(unat e + t) * unat ?bs < 2 ^ 32" by (simp only: of_nat_less_iff)
  have "t * unat ?bs < 2 ^ 32" using tb by (simp add: distrib_right)
  then have tw: "unat (word_of_nat t :: u32) = t"
    using factor_less [of "unat ?bs"] bs(1) by (simp add: unat_of_nat word_pos_unat)
  have cs: "cs = bc @ (if t = 0 then [] else [Skip (word_of_nat t)])"
    using tl bs(2) by (auto simp: cs_def file_chunks_def bc_def zero_less_mult_iff)
  have t_ne: "(word_of_nat t :: u32) \<noteq> 0" if "t \<noteq> 0" using tw that by (metis unat_0)
  show "chunks_ok ?bs 0 None cs"
    using bok be tb tw t_ne by (simp add: cs chunks_ok_snoc_skip del: unsigned_of_nat)
  have "chunks_blks ?bs cs = unat e + t" using be tw by (simp add: cs del: unsigned_of_nat)
  then show "int (chunks_blks ?bs cs) * uint ?bs = sf_len s" using tlen by simp
  have img: "chunks_image ?bs 0 cs = chunks_image ?bs 0 bc" by (simp add: cs)
  show "bbl_image ?m (sf_blocks s) \<subseteq>\<^sub>m chunks_image ?bs 0 cs"
    using block_chunks_image(1) [OF bs(1) fit] by (simp add: img bc_def bbl_image_def bbs)
  show "chunks_image ?bs 0 cs = bbl_image ?m (sf_blocks s)" if "\<forall>b \<in> set ?l. unat ?bs dvd unat (bb_len b)"
    using block_chunks_image(2) [OF bs(1) fit that] by (simp add: img bc_def bbl_image_def bbs)
qed

text \<open>Up to the checksum chunk, if there is one, importing a written image is reading its chunks.\<close>

lemma sparse_file_import_image:
  assumes ok: "sf_ok env s" and at: "fd_at fd [] (sparse_image (env_media env) s wcrc)"
  defines "cs \<equiv> file_chunks (env_media env) s" and "bs \<equiv> sf_block_size s"
  shows "\<exists>s' fd'. fd_at fd' (sparse_header_bytes (image_header (env_media env) s wcrc) @ encode_chunks bs cs)
        (if wcrc then encode_chunk bs (Crc (chunks_crc bs 0 cs)) else []) \<and>
    sparse_file_import True fd v crc =
      obind (obind (read_chunks (if wcrc then 1 else 0) True 12 (total_blks (image_header (env_media env) s wcrc))
                (s', fd', if crc then Some (foldl (reader_crc bs) 0 cs) else None))
              (\<lambda>(ret, cur_block, s1, fd3, _).
                 if ret < 0 then Ok (ret, s1, fd3)
                 else if total_blks (image_header (env_media env) s wcrc) \<noteq> cur_block then Ok (- EINVAL, s1, fd3)
                 else Ok (0, s1, fd3)))
        (\<lambda>(ret, s1, fd3). Ok (if ret < 0 then None else Some s1, fd3)) \<and>
    sf_len s' = sf_len s \<and> sf_block_size s' = bs \<and> bbl_block_size (sf_blocks s') = bs \<and>
    data_blocks (sf_blocks s') = chunk_nodes bs (fd_num fd) 28 0 0 cs"
proof -
  let ?m = "env_media env"
  define h where "h = image_header ?m s wcrc"
  define tl where "tl = (if wcrc then encode_chunk bs (Crc (chunks_crc bs 0 cs)) else [])"
  define body where "body = encode_chunks bs cs @ tl"
  note bs4 = sf_ok_fit(2) [OF ok, folded bs_def]
  note cok = file_chunks_ok(1,2) [OF ok, folded cs_def bs_def]
  have bs0: "bs \<noteq> 0" using bs4 by auto
  have h: "magic h = SPARSE_HEADER_MAGIC" "major_version h = 1" "file_hdr_sz h = 28" "chunk_hdr_sz h = 12" "blk_sz h = bs"
    "total_blks h = word_of_int (sf_len s div uint bs)" "total_chunks h = word_of_nat (length cs + (if wcrc then 1 else 0))"
    by (simp_all add: h_def image_header_def image_chunks_def bs_def cs_def)
  have "int (chunks_blks bs cs * unat bs) < int (2 ^ 32)" using cok(2) ok by (simp add: sf_ok_def)
  then have nb: "chunks_blks bs cs * unat bs < 2 ^ 32" by (simp only: of_nat_less_iff)
  have nb30: "chunks_blks bs cs < 2 ^ 30" by (rule count_small [OF bs4 nb])
  then have "length cs < 2 ^ 30" using chunks_ok_length [OF cok(1) bs0] by simp
  then have tc: "unat (total_chunks h) = length cs + (if wcrc then 1 else 0)"
    unfolding h(7) unat_of_nat by simp
  have "sf_len s div uint bs = int (chunks_blks bs cs)" using cok(2) bs0 by (metis nonzero_mult_div_cancel_right uint_0_iff)
  then have tb: "total_blks h = word_of_nat (chunks_blks bs cs)" by (simp add: h(6))
  have "unat (total_blks h) = chunks_blks bs cs" using nb30 by (simp add: tb unat_of_nat)
  then have "uint (total_blks h) = int (chunks_blks bs cs)" by (metis of_nat_unat)
  then have fl: "uint (total_blks h) * uint bs = sf_len s" using cok(2) by simp
  have img: "sparse_image ?m s wcrc = sparse_header_bytes h @ body"
    by (simp add: sparse_image_def h_def body_def tl_def image_chunks_def cs_def bs_def)
  have at0: "fd_at fd [] (sparse_header_bytes h @ body)" using at img by simp
  have l28: "length (sparse_header_bytes h) = 28" by simp
  note r = read_all_prefix [OF at0 l28, simplified]
  have fd0: "fd\<lparr>fd_pos := 0\<rparr> = fd" using at0 by (simp add: fd_at_def)
  have sk: "sys_lseek (fd\<lparr>fd_pos := 28\<rparr>) 0 = (0, fd)" using at0 fd0 by (simp add: sys_lseek_def fd_at_def)
  define s0 where "s0 = \<lparr>sf_block_size = bs, sf_len = sf_len s, sf_verbose = v, sf_blocks = backed_block_list_new bs\<rparr>"
  have s0: "sparse_file_new True bs (uint (total_blks h) * uint bs) = Some (s0\<lparr>sf_verbose := False\<rparr>)"
    by (simp add: sparse_file_new_def s0_def fl)
  have s1: "s0\<lparr>sf_verbose := False, sf_verbose := v\<rparr> = s0" "s0\<lparr>sf_verbose := v\<rparr> = s0" by (simp_all add: s0_def)
  have inv0: "read_inv s0 28 0 None"
    using bs0 by (simp add: read_inv_def s0_def backed_block_list_new_def bbl_wf_def blocks_sorted_def last_used_live_def)
  have at1: "fd_at (fd\<lparr>fd_pos := 28\<rparr>) (sparse_header_bytes h) (encode_chunks bs cs @ tl)" using r(2) by (simp add: body_def)
  define k where "k = (if wcrc then 1 else 0 :: nat)"
  define c0 where "c0 = (if crc then Some (0 :: u32) else None)"
  have "\<exists>s' prev'. read_chunks (length cs + k) True 12 (word_of_nat 0) (s0, fd\<lparr>fd_pos := 28\<rparr>, c0) =
      read_chunks k True 12 (word_of_nat (0 + chunks_blks bs cs))
        (s', fd\<lparr>fd_pos := 28, fd_pos := length (sparse_header_bytes h) + length (encode_chunks bs cs)\<rparr>,
         map_option (\<lambda>x. foldl (reader_crc bs) x cs) c0) \<and>
    read_step s0 (chunk_nodes bs (fd_num (fd\<lparr>fd_pos := 28\<rparr>)) (length (sparse_header_bytes h)) 0 (next_addr (sf_blocks s0)) cs) s' \<and>
    read_inv s' (int (length (sparse_header_bytes h) + length (encode_chunks bs cs))) (0 + chunks_blks bs cs) prev'"
    by (rule read_chunks_ok [OF at1 inv0 _ cok(1) bs4]) (simp_all add: s0_def)
  moreover have "next_addr (sf_blocks s0) = 0" by (simp add: s0_def backed_block_list_new_def)
  ultimately obtain s' prev' where s': "read_chunks (length cs + k) True 12 0 (s0, fd\<lparr>fd_pos := 28\<rparr>, c0) =
      read_chunks k True 12 (total_blks h)
        (s', fd\<lparr>fd_pos := 28 + length (encode_chunks bs cs)\<rparr>, map_option (\<lambda>x. foldl (reader_crc bs) x cs) c0)"
    "read_step s0 (chunk_nodes bs (fd_num fd) 28 0 0 cs) s'" "read_inv s' (28 + int (length (encode_chunks bs cs))) (chunks_blks bs cs) prev'"
    by (auto simp: tb)
  define fd' where "fd' = fd\<lparr>fd_pos := 28 + length (encode_chunks bs cs)\<rparr>"
  have "fd_at fd' (sparse_header_bytes h @ encode_chunks bs cs) tl"
    using fd_at_advance [OF at1] by (simp add: fd'_def)
  moreover have "sf_len s' = sf_len s" "sf_block_size s' = bs" "bbl_block_size (sf_blocks s') = bs"
      "data_blocks (sf_blocks s') = chunk_nodes bs (fd_num fd) 28 0 0 cs"
    using s'(2,3) by (simp_all add: read_step_def read_inv_def s0_def backed_block_list_new_def)
  moreover have "sparse_file_import True fd v crc =
      obind (obind (read_chunks k True 12 (total_blks h)
                (s', fd', map_option (\<lambda>x. foldl (reader_crc bs) x cs) c0))
              (\<lambda>(ret, cur_block, s1, fd3, _).
                 if ret < 0 then Ok (ret, s1, fd3)
                 else if total_blks h \<noteq> cur_block then Ok (- EINVAL, s1, fd3)
                 else Ok (0, s1, fd3)))
        (\<lambda>(ret, s1, fd3). Ok (if ret < 0 then None else Some s1, fd3))"
    using s'(1)
    by (simp add: sparse_file_import_def sparse_file_read_def sparse_file_read_sparse_def r(1) h(1-5) s0 s1 sk tc [folded k_def] Let_def
        fd'_def del: read_chunks.simps cong del: if_weak_cong flip: k_def c0_def)
  moreover have "map_option (\<lambda>x. foldl (reader_crc bs) x cs) c0 = (if crc then Some (foldl (reader_crc bs) 0 cs) else None)"
    by (simp add: c0_def)
  ultimately show ?thesis
    unfolding h_def [symmetric] tl_def [symmetric] k_def [symmetric] by (intro exI [of _ s'] exI [of _ fd']) simp
qed

lemma imported_image:
  assumes ok: "sf_ok env s" and h: "fd_holds m' fdn (sparse_image (env_media env) s wcrc)"
    and b: "data_blocks (sf_blocks s') = chunk_nodes (sf_block_size s) fdn 28 0 0 (file_chunks (env_media env) s)"
    and bs: "bbl_block_size (sf_blocks s') = sf_block_size s"
  shows "bbl_image (env_media env) (sf_blocks s) \<subseteq>\<^sub>m bbl_image m' (sf_blocks s')"
    and "\<forall>b \<in> set (data_blocks (sf_blocks s)). unat (sf_block_size s) dvd unat (bb_len b) \<Longrightarrow>
      bbl_image m' (sf_blocks s') = bbl_image (env_media env) (sf_blocks s)"
proof -
  let ?bs = "sf_block_size s" and ?m = "env_media env" and ?cs = "file_chunks (env_media env) s"
  define h where "h = sparse_header_bytes (image_header ?m s wcrc)"
  have bs0: "?bs \<noteq> 0" using ok by (simp add: sf_ok_def sf_writable_def)
  have "fd_holds m' fdn (h @ encode_chunks ?bs ?cs @
      encode_chunks ?bs (if wcrc then [Crc (chunks_crc ?bs 0 ?cs)] else []))"
    using h by (simp add: sparse_image_def image_chunks_def h_def split: if_splits)
  then have "blocks_image m' ?bs (chunk_nodes ?bs fdn (length h) 0 0 ?cs) = chunks_image ?bs 0 ?cs"
    by (rule chunk_nodes_image [OF _ file_chunks_ok(1) [OF ok] bs0])
  then have "bbl_image m' (sf_blocks s') = chunks_image ?bs 0 ?cs" by (simp add: bbl_image_def b bs h_def)
  with file_chunks_ok(3,4) [OF ok]
  show "bbl_image ?m (sf_blocks s) \<subseteq>\<^sub>m bbl_image m' (sf_blocks s')"
    and "\<forall>b \<in> set (data_blocks (sf_blocks s)). unat ?bs dvd unat (bb_len b) \<Longrightarrow>
      bbl_image m' (sf_blocks s') = bbl_image ?m (sf_blocks s)"
    by simp_all
qed

section \<open>Properties of the reader\<close>


definition demo_fd :: "bytes \<Rightarrow> in_fd" where
  "demo_fd xs = \<lparr>fd_num = 5, fd_data = xs, fd_pos = 0, fd_seekable = True, fd_read = (\<lambda>_ n. int (min n 7))\<rparr>"

definition demo_fd_media :: "bytes \<Rightarrow> media" where
  "demo_fd_media xs = demo_media\<lparr>fd_byte := (\<lambda>_ i. xs ! nat i)\<rparr>"

lemma demo_fd_at: "fd_at (demo_fd xs) [] xs"
  by (simp add: fd_at_def demo_fd_def)

lemma demo_fd_holds: "fd_holds (demo_fd_media xs) (fd_num (demo_fd xs)) xs"
  by (simp add: fd_holds_def demo_fd_media_def)

lemma demo_sf_ok: "sf_ok demo_env demo_sf"
  using demo_sf_writable
  by (simp add: sf_ok_def demo_sf_def demo_env_def bbl_inv_def bbl_wf_def blocks_sorted_def regions_ok_def bb_end_def
      bb_start_def names_ok_def file_chunks_def tail_len_def DIV_ROUND_UP_def gap_chunk_def block_chunk_def)


section \<open>Checksums\<close>

lemma read_crc_chunk:
  assumes at: "fd_at fd pre (encode_chunk bs (Crc x))"
  shows "\<exists>fd'. read_chunks (Suc 0) True 12 cur (s, fd, Some c) = Ok (if x = c then 0 else - EINVAL, cur, s, fd', Some c)"
    and "read_chunks (Suc 0) True 12 cur (s, fd, None) = Fault Null_Deref"
proof -
  define h where "h = chunk_header_of bs (Crc x)"
  have at0: "fd_at fd pre (chunk_header_bytes h @ le32 x @ [])" using at by (simp add: encode_chunk_split h_def del: encode_chunk.simps)
  have len: "length (chunk_header_bytes h) = 12" by simp
  note r = read_all_prefix [OF at0 len]
  define fd1 where "fd1 = fd\<lparr>fd_pos := length pre + 12\<rparr>"
  have sk: "lseek_cur fd1 0 = (int (length pre + 12), fd1)"
    using lseek_cur_at [OF r(2), of 0] by (simp add: fd1_def)
  note r4 = read_all_prefix(1) [OF r(2) length_le32, folded fd1_def]
  show "read_chunks (Suc 0) True 12 cur (s, fd, None) = Fault Null_Deref"
    using r(1) sk by (simp add: h_def process_chunk_def flip: fd1_def)
  show "\<exists>fd'. read_chunks (Suc 0) True 12 cur (s, fd, Some c) = Ok (if x = c then 0 else - EINVAL, cur, s, fd', Some c)"
    using r(1) sk r4 by (simp add: h_def process_chunk_def process_crc32_chunk_def flip: fd1_def)
qed

lemma crc_repeat_bytes: "crc_repeat n crc (le32 v) = sparse_crc32 crc (fill_bytes v (n * 4))"
proof -
  have "fill_bytes v 4 = le32 v" by (simp add: fill_bytes_def le32_def upt_rec)
  then show ?thesis
    by (induction n arbitrary: crc) (simp_all add: sparse_crc32_append fill_bytes_add [of 4])
qed

definition hashed_alike :: "chunk \<Rightarrow> bool" where
  "hashed_alike c = (case c of Raw d \<Rightarrow> True | Fill v n \<Rightarrow> n = 1 | _ \<Rightarrow> False)"

lemma chunks_crc_alike:
  assumes "4 dvd unat bs"
  shows "\<forall>c \<in> set cs. hashed_alike c \<Longrightarrow> chunks_crc bs x cs = foldl (reader_crc bs) x cs"
proof (induction cs arbitrary: x)
  case (Cons c cs)
  have "unat (bs div 4) * 4 = unat bs" using assms by (simp add: unat_div_u32)
  then have "chunk_crc bs x c = reader_crc bs x c"
    using Cons.prems by (cases c) (simp_all add: hashed_alike_def crc_repeat_bytes)
  with Cons show ?case by (simp add: chunks_crc_def)
qed (simp add: chunks_crc_def)

lemma sparse_file_import_checked:
  assumes "sf_ok env s" and "fd_at fd [] (sparse_image (env_media env) s True)"
  shows "\<exists>s' fd'. sparse_file_import True fd v True =
      Ok (if chunks_crc (sf_block_size s) 0 (file_chunks (env_media env) s) =
            foldl (reader_crc (sf_block_size s)) 0 (file_chunks (env_media env) s) then Some s' else None, fd')"
    and "sparse_file_import True fd v False = Fault Null_Deref"
proof -
  let ?bs = "sf_block_size s" and ?cs = "file_chunks (env_media env) s"
  let ?c = "foldl (reader_crc (sf_block_size s)) 0 ?cs" and ?tb = "total_blks (image_header (env_media env) s True)"
  let ?pre = "sparse_header_bytes (image_header (env_media env) s True) @ encode_chunks ?bs ?cs"
  have imp: "\<exists>s' fd1. fd_at fd1 ?pre (encode_chunk ?bs (Crc (chunks_crc ?bs 0 ?cs))) \<and>
      sparse_file_import True fd v crc =
      obind (obind (read_chunks (Suc 0) True 12 ?tb (s', fd1, if crc then Some ?c else None))
              (\<lambda>(ret, cur_block, s1, fd3, _).
                 if ret < 0 then Ok (ret, s1, fd3) else if ?tb \<noteq> cur_block then Ok (- EINVAL, s1, fd3)
                 else Ok (0, s1, fd3)))
        (\<lambda>(ret, s1, fd3). Ok (if ret < 0 then None else Some s1, fd3))" for crc
    using sparse_file_import_image [OF assms, of v crc] unfolding if_True One_nat_def by blast
  obtain s1 fd1 where 1: "fd_at fd1 ?pre (encode_chunk ?bs (Crc (chunks_crc ?bs 0 ?cs)))"
      "sparse_file_import True fd v False =
      obind (obind (read_chunks (Suc 0) True 12 ?tb (s1, fd1, None))
              (\<lambda>(ret, cur_block, s1, fd3, _).
                 if ret < 0 then Ok (ret, s1, fd3) else if ?tb \<noteq> cur_block then Ok (- EINVAL, s1, fd3)
                 else Ok (0, s1, fd3)))
        (\<lambda>(ret, s1, fd3). Ok (if ret < 0 then None else Some s1, fd3))"
    using imp [of False] unfolding if_False by blast
  show "sparse_file_import True fd v False = Fault Null_Deref"
    unfolding 1(2) read_crc_chunk(2) [OF 1(1)] by simp
  obtain s2 fd2 where 2: "fd_at fd2 ?pre (encode_chunk ?bs (Crc (chunks_crc ?bs 0 ?cs)))"
      "sparse_file_import True fd v True =
      obind (obind (read_chunks (Suc 0) True 12 ?tb (s2, fd2, Some ?c))
              (\<lambda>(ret, cur_block, s1, fd3, _).
                 if ret < 0 then Ok (ret, s1, fd3) else if ?tb \<noteq> cur_block then Ok (- EINVAL, s1, fd3)
                 else Ok (0, s1, fd3)))
        (\<lambda>(ret, s1, fd3). Ok (if ret < 0 then None else Some s1, fd3))"
    using imp [of True] unfolding if_True by blast
  obtain fd' where "read_chunks (Suc 0) True 12 ?tb (s2, fd2, Some ?c) =
      Ok (if chunks_crc ?bs 0 ?cs = ?c then 0 else - EINVAL, ?tb, s2, fd', Some ?c)"
    using read_crc_chunk(1) [OF 2(1)] by blast
  then show "\<exists>s' fd'. sparse_file_import True fd v True = Ok (if chunks_crc ?bs 0 ?cs = ?c then Some s' else None, fd')"
    unfolding 2(2) by auto
qed

text \<open>
  C10. An image written with a checksum is accepted by a reader that checks it exactly when writer and reader
  compute the same value. They do when the file has no holes and every fill covers one block.
\<close>

theorem checksum_verdict:
  assumes "sf_ok env s" and "fd_at fd [] (sparse_image (env_media env) s True)"
  shows "\<exists>so fd'. sparse_file_import True fd v True = Ok (so, fd') \<and>
    (so \<noteq> None \<longleftrightarrow> chunks_crc (sf_block_size s) 0 (file_chunks (env_media env) s) =
      foldl (reader_crc (sf_block_size s)) 0 (file_chunks (env_media env) s)) \<and>
    ((\<forall>c \<in> set (file_chunks (env_media env) s). hashed_alike c) \<longrightarrow> so \<noteq> None)"
proof -
  have "4 dvd unat (sf_block_size s)" using assms(1) by (auto simp: sf_ok_def bbl_inv_def)
  then show ?thesis
    using sparse_file_import_checked(1) [OF assms, of v] chunks_crc_alike [of "sf_block_size s" "file_chunks (env_media env) s" 0]
    by auto
qed

theorem checksum_verdict_witness:
  "\<exists>so fd'. sparse_file_import True (demo_fd (sparse_image (env_media demo_env) demo_sf True)) False True = Ok (so, fd') \<and>
    (so \<noteq> None \<longleftrightarrow> chunks_crc (sf_block_size demo_sf) 0 (file_chunks (env_media demo_env) demo_sf) =
      foldl (reader_crc (sf_block_size demo_sf)) 0 (file_chunks (env_media demo_env) demo_sf)) \<and>
    ((\<forall>c \<in> set (file_chunks (env_media demo_env) demo_sf). hashed_alike c) \<longrightarrow> so \<noteq> None)"
  by (rule checksum_verdict [OF demo_sf_ok demo_fd_at])

definition hole_sf :: sparse_file where
  "hole_sf = \<lparr>sf_block_size = 4, sf_len = 4, sf_verbose = False, sf_blocks = backed_block_list_new 4\<rparr>"

lemma hole_sf_props:
  "sf_ok demo_env hole_sf" "file_room demo_out (length (sparse_image (env_media demo_env) hole_sf True))"
  "file_chunks (env_media demo_env) hole_sf = [Skip 1]"
  by (simp_all add: hole_sf_def sf_ok_def sf_writable_def tail_len_def backed_block_list_new_def bbl_inv_def bbl_wf_def
      blocks_sorted_def regions_ok_def names_ok_def file_chunks_def file_room_def demo_out_def sparse_image_def image_chunks_def)

lemma zeros_crc: "sparse_crc32 0 (fill_bytes 0 4) = 0x2144df1c"
  by (simp add: sparse_crc32_def fill_bytes_def le32_def upt_rec crc32_tab_def mask_eq_exp_minus_1)

text \<open>
  An empty file of one block, written with a checksum, is rejected by a reader that checks it: the writer
  leaves the hole out of the checksum, the reader counts it as zeros.
\<close>

theorem hole_checksum_rejected:
  "\<exists>out' fd'. sparse_file_write demo_env True hole_sf demo_out True True = Ok (0, out') \<and>
    sparse_file_import True (demo_fd (pf_contents out')) False True = Ok (None, fd')"
proof -
  have w: "sf_writable demo_env hole_sf" using hole_sf_props(1) by (simp add: sf_ok_def)
  obtain out' where o: "sparse_file_write demo_env True hole_sf demo_out True True = Ok (0, out')"
      "pf_contents out' = sparse_image (env_media demo_env) hole_sf True"
    using file_sink.write_sparse_to_image [OF w, of demo_out True 0] hole_sf_props(2)
    by (auto simp: sparse_file_write_def demo_out_def)
  have "chunks_crc (sf_block_size hole_sf) 0 [Skip 1] \<noteq> foldl (reader_crc (sf_block_size hole_sf)) 0 [Skip 1]"
    using zeros_crc by (simp add: chunks_crc_def hole_sf_def)
  then have "\<exists>fd'. sparse_file_import True (demo_fd (sparse_image (env_media demo_env) hole_sf True)) False True = Ok (None, fd')"
    using sparse_file_import_checked(1) [OF hole_sf_props(1) demo_fd_at, of False] hole_sf_props(3) by auto
  with o show ?thesis by simp
qed

text \<open>
  C15. A reader that does not check checksums follows a null pointer when the image has one.
\<close>

theorem unchecked_checksum_null_deref:
  assumes "sf_ok env s" and "fd_at fd [] (sparse_image (env_media env) s True)"
  shows "sparse_file_import True fd v False = Fault Null_Deref"
  by (rule sparse_file_import_checked(2) [OF assms])

theorem unchecked_checksum_null_deref_witness:
  "sparse_file_import True (demo_fd (sparse_image (env_media demo_env) demo_sf True)) False False = Fault Null_Deref"
  by (rule unchecked_checksum_null_deref [OF demo_sf_ok demo_fd_at])

end
