(* ===== verification/Sparse_Resparse.thy ===== *)
theory Sparse_Resparse
  imports Sparse_Write_Props
begin

text \<open>
  Splitting a sparse file into pieces of at most \<open>max_len\<close> bytes with \<open>sparse_file_resparse\<close>.
\<close>

definition gap_sf :: sparse_file where
  "gap_sf = \<lparr>sf_block_size = 4, sf_len = 40, sf_verbose = False, sf_blocks =
     \<lparr>data_blocks = map (\<lambda>i. \<lparr>bb_addr = i, bb_block = word_of_nat (2 * i), bb_len = 4, bb_payload = BACKED_BLOCK_FILL 7\<rparr>)
        [0, 1, 2, 3, 4],
      last_used = None, bbl_block_size = 4, next_addr = 5\<rparr>\<rparr>"

lemmas resparse_eval =
  sparse_file_resparse_def resparse_loop.simps move_chunks_up_to_len_def resparse_overhead_def sparse_file_new_def
  backed_block_list_new_def output_file_open_callback_def output_file_open_def output_file_init_def out_write_def
  callback_file_ops_def callback_file_write_def out_counter_write_def sparse_file_write_block_def write_fill_chunk_def
  write_sparse_fill_chunk_def backed_block_list_move_def ALIGN_def DIV_ROUND_UP_def

lemma gap_move:
  "move_chunks_up_to_len demo_env True gap_sf
     \<lparr>sf_block_size = 4, sf_len = 40, sf_verbose = False, sf_blocks = backed_block_list_new 4\<rparr> 160 =
   Ok (None, gap_sf\<lparr>sf_blocks := sf_blocks gap_sf\<lparr>data_blocks := []\<rparr>\<rparr>, gap_sf)"
  by (simp add: gap_sf_def resparse_eval Let_def from_node_def upto_node_def)


end
