(* ===== verification/Camera_Tags.thy ===== *)
theory Camera_Tags
  imports Prelude
begin

text \<open>
  \<open>camera/src/camera_metadata_tag_info.c\<close>: the sections of the camera metadata tags, their bounds, and for
  each section the names and types of its tags, with the numbers that \<open>camera_metadata_tags.h\<close> gives the
  enumerators. The function that prints enumeration values is not part of the development.
\<close>

abbreviation (input) TYPE_BYTE :: u8 where "TYPE_BYTE \<equiv> 0"
abbreviation (input) TYPE_INT32 :: u8 where "TYPE_INT32 \<equiv> 1"
abbreviation (input) TYPE_FLOAT :: u8 where "TYPE_FLOAT \<equiv> 2"
abbreviation (input) TYPE_INT64 :: u8 where "TYPE_INT64 \<equiv> 3"
abbreviation (input) TYPE_DOUBLE :: u8 where "TYPE_DOUBLE \<equiv> 4"
abbreviation (input) TYPE_RATIONAL :: u8 where "TYPE_RATIONAL \<equiv> 5"
abbreviation (input) NUM_TYPES :: nat where "NUM_TYPES \<equiv> 6"

abbreviation (input) ANDROID_SECTION_COUNT :: nat where "ANDROID_SECTION_COUNT \<equiv> 25"
abbreviation (input) VENDOR_SECTION :: nat where "VENDOR_SECTION \<equiv> 0x8000"

type_synonym tag_info_t = "string \<times> u8"

definition camera_metadata_section_names :: "string list" where
  "camera_metadata_section_names =
    [''android.colorCorrection'',
     ''android.control'',
     ''android.demosaic'',
     ''android.edge'',
     ''android.flash'',
     ''android.flash.info'',
     ''android.geometric'',
     ''android.hotPixel'',
     ''android.hotPixel.info'',
     ''android.jpeg'',
     ''android.lens'',
     ''android.lens.info'',
     ''android.noiseReduction'',
     ''android.quirks'',
     ''android.request'',
     ''android.scaler'',
     ''android.sensor'',
     ''android.sensor.info'',
     ''android.shading'',
     ''android.statistics'',
     ''android.statistics.info'',
     ''android.tonemap'',
     ''android.led'',
     ''android.info'',
     ''android.blackLevel'']"

definition camera_metadata_section_bounds :: "(u32 \<times> u32) list" where
  "camera_metadata_section_bounds =
    [(0x0, 0x3),
     (0x10000, 0x10023),
     (0x20000, 0x20001),
     (0x30000, 0x30002),
     (0x40000, 0x40006),
     (0x50000, 0x50002),
     (0x60000, 0x60002),
     (0x70000, 0x70001),
     (0x80000, 0x80001),
     (0x90000, 0x9000a),
     (0xa0000, 0xa000a),
     (0xb0000, 0xb0009),
     (0xc0000, 0xc0002),
     (0xd0000, 0xd0005),
     (0xe0000, 0xe0008),
     (0xf0000, 0xf0009),
     (0x100000, 0x100012),
     (0x110000, 0x110008),
     (0x120000, 0x120002),
     (0x130000, 0x13000e),
     (0x140000, 0x140006),
     (0x150000, 0x150005),
     (0x160000, 0x160002),
     (0x170000, 0x170001),
     (0x180000, 0x180001)]"

definition android_color_correction :: "tag_info_t list" where
  "android_color_correction =
    [(''mode'', TYPE_BYTE),
     (''transform'', TYPE_RATIONAL),
     (''gains'', TYPE_FLOAT)]"

definition android_control :: "tag_info_t list" where
  "android_control =
    [(''aeAntibandingMode'', TYPE_BYTE),
     (''aeExposureCompensation'', TYPE_INT32),
     (''aeLock'', TYPE_BYTE),
     (''aeMode'', TYPE_BYTE),
     (''aeRegions'', TYPE_INT32),
     (''aeTargetFpsRange'', TYPE_INT32),
     (''aePrecaptureTrigger'', TYPE_BYTE),
     (''afMode'', TYPE_BYTE),
     (''afRegions'', TYPE_INT32),
     (''afTrigger'', TYPE_BYTE),
     (''awbLock'', TYPE_BYTE),
     (''awbMode'', TYPE_BYTE),
     (''awbRegions'', TYPE_INT32),
     (''captureIntent'', TYPE_BYTE),
     (''effectMode'', TYPE_BYTE),
     (''mode'', TYPE_BYTE),
     (''sceneMode'', TYPE_BYTE),
     (''videoStabilizationMode'', TYPE_BYTE),
     (''aeAvailableAntibandingModes'', TYPE_BYTE),
     (''aeAvailableModes'', TYPE_BYTE),
     (''aeAvailableTargetFpsRanges'', TYPE_INT32),
     (''aeCompensationRange'', TYPE_INT32),
     (''aeCompensationStep'', TYPE_RATIONAL),
     (''afAvailableModes'', TYPE_BYTE),
     (''availableEffects'', TYPE_BYTE),
     (''availableSceneModes'', TYPE_BYTE),
     (''availableVideoStabilizationModes'', TYPE_BYTE),
     (''awbAvailableModes'', TYPE_BYTE),
     (''maxRegions'', TYPE_INT32),
     (''sceneModeOverrides'', TYPE_BYTE),
     (''aePrecaptureId'', TYPE_INT32),
     (''aeState'', TYPE_BYTE),
     (''afState'', TYPE_BYTE),
     (''afTriggerId'', TYPE_INT32),
     (''awbState'', TYPE_BYTE)]"

definition android_demosaic :: "tag_info_t list" where
  "android_demosaic =
    [(''mode'', TYPE_BYTE)]"

definition android_edge :: "tag_info_t list" where
  "android_edge =
    [(''mode'', TYPE_BYTE),
     (''strength'', TYPE_BYTE)]"

definition android_flash :: "tag_info_t list" where
  "android_flash =
    [(''firingPower'', TYPE_BYTE),
     (''firingTime'', TYPE_INT64),
     (''mode'', TYPE_BYTE),
     (''colorTemperature'', TYPE_BYTE),
     (''maxEnergy'', TYPE_BYTE),
     (''state'', TYPE_BYTE)]"

definition android_flash_info :: "tag_info_t list" where
  "android_flash_info =
    [(''available'', TYPE_BYTE),
     (''chargeDuration'', TYPE_INT64)]"

definition android_geometric :: "tag_info_t list" where
  "android_geometric =
    [(''mode'', TYPE_BYTE),
     (''strength'', TYPE_BYTE)]"

definition android_hot_pixel :: "tag_info_t list" where
  "android_hot_pixel =
    [(''mode'', TYPE_BYTE)]"

definition android_hot_pixel_info :: "tag_info_t list" where
  "android_hot_pixel_info =
    [(''map'', TYPE_INT32)]"

definition android_jpeg :: "tag_info_t list" where
  "android_jpeg =
    [(''gpsCoordinates'', TYPE_DOUBLE),
     (''gpsProcessingMethod'', TYPE_BYTE),
     (''gpsTimestamp'', TYPE_INT64),
     (''orientation'', TYPE_INT32),
     (''quality'', TYPE_BYTE),
     (''thumbnailQuality'', TYPE_BYTE),
     (''thumbnailSize'', TYPE_INT32),
     (''availableThumbnailSizes'', TYPE_INT32),
     (''maxSize'', TYPE_INT32),
     (''size'', TYPE_INT32)]"

definition android_lens :: "tag_info_t list" where
  "android_lens =
    [(''aperture'', TYPE_FLOAT),
     (''filterDensity'', TYPE_FLOAT),
     (''focalLength'', TYPE_FLOAT),
     (''focusDistance'', TYPE_FLOAT),
     (''opticalStabilizationMode'', TYPE_BYTE),
     (''facing'', TYPE_BYTE),
     (''opticalAxisAngle'', TYPE_FLOAT),
     (''position'', TYPE_FLOAT),
     (''focusRange'', TYPE_FLOAT),
     (''state'', TYPE_BYTE)]"

definition android_lens_info :: "tag_info_t list" where
  "android_lens_info =
    [(''availableApertures'', TYPE_FLOAT),
     (''availableFilterDensities'', TYPE_FLOAT),
     (''availableFocalLengths'', TYPE_FLOAT),
     (''availableOpticalStabilization'', TYPE_BYTE),
     (''geometricCorrectionMap'', TYPE_FLOAT),
     (''geometricCorrectionMapSize'', TYPE_INT32),
     (''hyperfocalDistance'', TYPE_FLOAT),
     (''minimumFocusDistance'', TYPE_FLOAT),
     (''shadingMapSize'', TYPE_INT32)]"

definition android_noise_reduction :: "tag_info_t list" where
  "android_noise_reduction =
    [(''mode'', TYPE_BYTE),
     (''strength'', TYPE_BYTE)]"

definition android_quirks :: "tag_info_t list" where
  "android_quirks =
    [(''meteringCropRegion'', TYPE_BYTE),
     (''triggerAfWithAuto'', TYPE_BYTE),
     (''useZslFormat'', TYPE_BYTE),
     (''usePartialResult'', TYPE_BYTE),
     (''partialResult'', TYPE_BYTE)]"

definition android_request :: "tag_info_t list" where
  "android_request =
    [(''frameCount'', TYPE_INT32),
     (''id'', TYPE_INT32),
     (''inputStreams'', TYPE_INT32),
     (''metadataMode'', TYPE_BYTE),
     (''outputStreams'', TYPE_INT32),
     (''type'', TYPE_BYTE),
     (''maxNumOutputStreams'', TYPE_INT32),
     (''maxNumReprocessStreams'', TYPE_INT32)]"

definition android_scaler :: "tag_info_t list" where
  "android_scaler =
    [(''cropRegion'', TYPE_INT32),
     (''availableFormats'', TYPE_INT32),
     (''availableJpegMinDurations'', TYPE_INT64),
     (''availableJpegSizes'', TYPE_INT32),
     (''availableMaxDigitalZoom'', TYPE_FLOAT),
     (''availableProcessedMinDurations'', TYPE_INT64),
     (''availableProcessedSizes'', TYPE_INT32),
     (''availableRawMinDurations'', TYPE_INT64),
     (''availableRawSizes'', TYPE_INT32)]"

definition android_sensor :: "tag_info_t list" where
  "android_sensor =
    [(''exposureTime'', TYPE_INT64),
     (''frameDuration'', TYPE_INT64),
     (''sensitivity'', TYPE_INT32),
     (''baseGainFactor'', TYPE_RATIONAL),
     (''blackLevelPattern'', TYPE_INT32),
     (''calibrationTransform1'', TYPE_RATIONAL),
     (''calibrationTransform2'', TYPE_RATIONAL),
     (''colorTransform1'', TYPE_RATIONAL),
     (''colorTransform2'', TYPE_RATIONAL),
     (''forwardMatrix1'', TYPE_RATIONAL),
     (''forwardMatrix2'', TYPE_RATIONAL),
     (''maxAnalogSensitivity'', TYPE_INT32),
     (''noiseModelCoefficients'', TYPE_FLOAT),
     (''orientation'', TYPE_INT32),
     (''referenceIlluminant1'', TYPE_BYTE),
     (''referenceIlluminant2'', TYPE_BYTE),
     (''timestamp'', TYPE_INT64),
     (''temperature'', TYPE_FLOAT)]"

definition android_sensor_info :: "tag_info_t list" where
  "android_sensor_info =
    [(''activeArraySize'', TYPE_INT32),
     (''sensitivityRange'', TYPE_INT32),
     (''colorFilterArrangement'', TYPE_BYTE),
     (''exposureTimeRange'', TYPE_INT64),
     (''maxFrameDuration'', TYPE_INT64),
     (''physicalSize'', TYPE_FLOAT),
     (''pixelArraySize'', TYPE_INT32),
     (''whiteLevel'', TYPE_INT32)]"

definition android_shading :: "tag_info_t list" where
  "android_shading =
    [(''mode'', TYPE_BYTE),
     (''strength'', TYPE_BYTE)]"

definition android_statistics :: "tag_info_t list" where
  "android_statistics =
    [(''faceDetectMode'', TYPE_BYTE),
     (''histogramMode'', TYPE_BYTE),
     (''sharpnessMapMode'', TYPE_BYTE),
     (''faceIds'', TYPE_INT32),
     (''faceLandmarks'', TYPE_INT32),
     (''faceRectangles'', TYPE_INT32),
     (''faceScores'', TYPE_BYTE),
     (''histogram'', TYPE_INT32),
     (''sharpnessMap'', TYPE_INT32),
     (''lensShadingMap'', TYPE_FLOAT),
     (''predictedColorGains'', TYPE_FLOAT),
     (''predictedColorTransform'', TYPE_RATIONAL),
     (''sceneFlicker'', TYPE_BYTE),
     (''lensShadingMapMode'', TYPE_BYTE)]"

definition android_statistics_info :: "tag_info_t list" where
  "android_statistics_info =
    [(''availableFaceDetectModes'', TYPE_BYTE),
     (''histogramBucketCount'', TYPE_INT32),
     (''maxFaceCount'', TYPE_INT32),
     (''maxHistogramCount'', TYPE_INT32),
     (''maxSharpnessMapValue'', TYPE_INT32),
     (''sharpnessMapSize'', TYPE_INT32)]"

definition android_tonemap :: "tag_info_t list" where
  "android_tonemap =
    [(''curveBlue'', TYPE_FLOAT),
     (''curveGreen'', TYPE_FLOAT),
     (''curveRed'', TYPE_FLOAT),
     (''mode'', TYPE_BYTE),
     (''maxCurvePoints'', TYPE_INT32)]"

definition android_led :: "tag_info_t list" where
  "android_led =
    [(''transmit'', TYPE_BYTE),
     (''availableLeds'', TYPE_BYTE)]"

definition android_info :: "tag_info_t list" where
  "android_info =
    [(''supportedHardwareLevel'', TYPE_BYTE)]"

definition android_black_level :: "tag_info_t list" where
  "android_black_level =
    [(''lock'', TYPE_BYTE)]"

definition tag_info :: "tag_info_t list list" where
  "tag_info =
    [android_color_correction,
     android_control,
     android_demosaic,
     android_edge,
     android_flash,
     android_flash_info,
     android_geometric,
     android_hot_pixel,
     android_hot_pixel_info,
     android_jpeg,
     android_lens,
     android_lens_info,
     android_noise_reduction,
     android_quirks,
     android_request,
     android_scaler,
     android_sensor,
     android_sensor_info,
     android_shading,
     android_statistics,
     android_statistics_info,
     android_tonemap,
     android_led,
     android_info,
     android_black_level]"

end
