(* ===== verification/Camera_Metadata.thy ===== *)
theory Camera_Metadata
  imports Camera_Tags
begin

text \<open>
  \<open>camera/src/camera_metadata.c\<close>: packets of camera metadata.

  The model is that of a 32 bit target: \<open>size_t\<close> and pointers are \<open>32 word\<close>s, an entry takes 16 bytes, the
  header 40, data is aligned to 8 bytes. A packet is its header fields, its address, the array of entries
  that \<open>entries_start\<close> leads to and the bytes that \<open>data_start\<close> leads to. The arrays are as long as the memory
  behind them; an access past their end is a fault. The union \<open>data\<close> of an entry is one word, read as an
  offset or, in little-endian order, as four bytes. The three reserved bytes are never read and left out.
  \<open>NULL\<close> is \<open>None\<close>.
\<close>

record buffer_entry =
  e_tag :: u32
  e_count :: u32
  e_data :: u32
  e_type :: u8

record camera_metadata =
  cm_addr :: u32
  cm_size :: u32
  cm_version :: u32
  cm_flags :: u32
  entry_count :: u32
  entry_capacity :: u32
  entries_start :: u32
  data_count :: u32
  data_capacity :: u32
  data_start :: u32
  cm_user :: "nat option"
  cm_entries :: "buffer_entry list"
  cm_data :: bytes

abbreviation (input) CM_OK :: int where "CM_OK \<equiv> 0"
abbreviation (input) CM_ERROR :: int where "CM_ERROR \<equiv> 1"
abbreviation (input) NOT_FOUND :: int where "NOT_FOUND \<equiv> -2"
abbreviation (input) CURRENT_METADATA_VERSION :: u32 where "CURRENT_METADATA_VERSION \<equiv> 1"
abbreviation (input) FLAG_SORTED :: u32 where "FLAG_SORTED \<equiv> 1"
abbreviation (input) ENTRY_ALIGNMENT :: u32 where "ENTRY_ALIGNMENT \<equiv> 4"
abbreviation (input) DATA_ALIGNMENT :: u32 where "DATA_ALIGNMENT \<equiv> 8"
abbreviation (input) HEADER_SIZE :: u32 where "HEADER_SIZE \<equiv> 40"
abbreviation (input) ENTRY_SIZE :: u32 where "ENTRY_SIZE \<equiv> 16"

definition ALIGN_TO :: "u32 \<Rightarrow> u32 \<Rightarrow> u32" where
  "ALIGN_TO val alignment = (val + (alignment - 1)) AND NOT (alignment - 1)"

definition camera_metadata_type_size :: "u32 list" where
  "camera_metadata_type_size = [1, 4, 4, 8, 8, 8]"

definition camera_metadata_type_names :: "string list" where
  "camera_metadata_type_names = [''byte'', ''int32'', ''float'', ''int64'', ''double'', ''rational'']"

section \<open>Tags\<close>

text \<open>The vendor's operations, \<open>None\<close> when none have been set.\<close>

record vendor_tag_query_ops =
  get_camera_vendor_section_name :: "u32 \<Rightarrow> string option"
  get_camera_vendor_tag_name :: "u32 \<Rightarrow> string option"
  get_camera_vendor_tag_type :: "u32 \<Rightarrow> int"

definition tag_section :: "u32 \<Rightarrow> nat" where
  "tag_section tag = unat (drop_bit 16 tag)"

definition set_camera_metadata_vendor_tag_ops ::
  "vendor_tag_query_ops option \<Rightarrow> vendor_tag_query_ops option \<Rightarrow> int \<times> vendor_tag_query_ops option" where
  "set_camera_metadata_vendor_tag_ops vendor_tag_ops query_ops = (CM_OK, query_ops)"

definition get_camera_metadata_section_name ::
  "vendor_tag_query_ops option \<Rightarrow> u32 \<Rightarrow> string option" where
  "get_camera_metadata_section_name vops tag =
     (if VENDOR_SECTION \<le> tag_section tag \<and> vops \<noteq> None then get_camera_vendor_section_name (the vops) tag
      else if ANDROID_SECTION_COUNT \<le> tag_section tag then None
      else Some (camera_metadata_section_names ! tag_section tag))"

text \<open>The entry of \<open>tag_info\<close> for a tag; reading past a table is a fault.\<close>

definition tag_info_at :: "u32 \<Rightarrow> tag_info_t outcome" where
  "tag_info_at tag =
     (let tag_index = unat (tag AND 0xFFFF); tab = tag_info ! tag_section tag
      in if tag_index < length tab then Ok (tab ! tag_index) else Fault Out_Of_Bounds)"

definition get_camera_metadata_tag_name ::
  "vendor_tag_query_ops option \<Rightarrow> u32 \<Rightarrow> string option outcome" where
  "get_camera_metadata_tag_name vops tag =
     (if VENDOR_SECTION \<le> tag_section tag \<and> vops \<noteq> None then Ok (get_camera_vendor_tag_name (the vops) tag)
      else if ANDROID_SECTION_COUNT \<le> tag_section tag then Ok None
      else if snd (camera_metadata_section_bounds ! tag_section tag) \<le> tag then Ok None
      else obind (tag_info_at tag) (\<lambda>(name, _). Ok (Some name)))"

definition get_camera_metadata_tag_type ::
  "vendor_tag_query_ops option \<Rightarrow> u32 \<Rightarrow> int outcome" where
  "get_camera_metadata_tag_type vops tag =
     (if VENDOR_SECTION \<le> tag_section tag \<and> vops \<noteq> None then Ok (get_camera_vendor_tag_type (the vops) tag)
      else if ANDROID_SECTION_COUNT \<le> tag_section tag then Ok (-1)
      else if snd (camera_metadata_section_bounds ! tag_section tag) \<le> tag then Ok (-1)
      else obind (tag_info_at tag) (\<lambda>(_, ty). Ok (uint ty)))"

section \<open>Sizes and placement\<close>

definition calculate_camera_metadata_size :: "u32 \<Rightarrow> u32 \<Rightarrow> u32" where
  "calculate_camera_metadata_size ec dc =
     ALIGN_TO (ALIGN_TO HEADER_SIZE ENTRY_ALIGNMENT + ENTRY_SIZE * ec) DATA_ALIGNMENT + dc"

definition calculate_camera_metadata_entry_data_size :: "u8 \<Rightarrow> u32 \<Rightarrow> u32" where
  "calculate_camera_metadata_entry_data_size ty n =
     (if NUM_TYPES \<le> unat ty then 0
      else let data_bytes = n * camera_metadata_type_size ! unat ty
           in if data_bytes \<le> 4 then 0 else ALIGN_TO data_bytes DATA_ALIGNMENT)"

text \<open>
  Raw memory at an address: what an entry or a byte at a given place holds before the packet is set up.
\<close>

record raw_mem =
  raw_addr :: u32
  raw_entry :: "nat \<Rightarrow> buffer_entry"
  raw_byte :: "nat \<Rightarrow> u8"

definition place_camera_metadata :: "raw_mem option \<Rightarrow> u32 \<Rightarrow> u32 \<Rightarrow> u32 \<Rightarrow> camera_metadata option" where
  "place_camera_metadata dst dst_size ec dc =
     (case dst of
        None \<Rightarrow> None
      | Some raw \<Rightarrow>
          if ec = 0 then None
          else
            let memory_needed = calculate_camera_metadata_size ec dc
            in if memory_needed > dst_size then None
               else
                 let es = ALIGN_TO HEADER_SIZE ENTRY_ALIGNMENT;
                     ds = ALIGN_TO (es + ENTRY_SIZE * ec) DATA_ALIGNMENT
                 in Some \<lparr>cm_addr = raw_addr raw, cm_size = memory_needed, cm_version = CURRENT_METADATA_VERSION,
                      cm_flags = 0, entry_count = 0, entry_capacity = ec, entries_start = es,
                      data_count = 0, data_capacity = dc, data_start = ds, cm_user = None,
                      cm_entries = map (raw_entry raw) [0..<min (unat ec) ((unat dst_size - unat es) div 16)],
                      cm_data = map (raw_byte raw) [0..<min (unat dc) (unat dst_size - unat ds)]\<rparr>)"

text \<open>\<open>mem\<close> is what \<open>malloc\<close> returns.\<close>

definition allocate_camera_metadata :: "raw_mem option \<Rightarrow> u32 \<Rightarrow> u32 \<Rightarrow> camera_metadata option" where
  "allocate_camera_metadata mem ec dc =
     (if ec = 0 then None
      else place_camera_metadata mem (calculate_camera_metadata_size ec dc) ec dc)"

definition get_camera_metadata_size :: "camera_metadata option \<Rightarrow> u32" where
  "get_camera_metadata_size m = (case m of None \<Rightarrow> 1 | Some m \<Rightarrow> cm_size m)"

definition get_camera_metadata_compact_size :: "camera_metadata option \<Rightarrow> u32" where
  "get_camera_metadata_compact_size m =
     (case m of None \<Rightarrow> 1 | Some m \<Rightarrow> calculate_camera_metadata_size (entry_count m) (data_count m))"

definition set_camera_metadata_user_pointer ::
  "camera_metadata option \<Rightarrow> nat option \<Rightarrow> int \<times> camera_metadata option" where
  "set_camera_metadata_user_pointer dst user =
     (case dst of None \<Rightarrow> (CM_ERROR, None) | Some m \<Rightarrow> (CM_OK, Some (m\<lparr>cm_user := user\<rparr>)))"

definition get_camera_metadata_user_pointer :: "camera_metadata option \<Rightarrow> int \<times> nat option option" where
  "get_camera_metadata_user_pointer dst =
     (case dst of None \<Rightarrow> (CM_ERROR, None) | Some m \<Rightarrow> (CM_OK, Some (cm_user m)))"

section \<open>Memory\<close>

text \<open>\<open>memcpy\<close> into an array, \<open>memmove\<close> within one, and the entry at an index.\<close>

definition mem_store :: "'a list \<Rightarrow> nat \<Rightarrow> 'a list \<Rightarrow> 'a list outcome" where
  "mem_store d off xs =
     (if off + length xs \<le> length d then Ok (take off d @ xs @ drop (off + length xs) d) else Fault Out_Of_Bounds)"

definition mem_load :: "'a list \<Rightarrow> nat \<Rightarrow> nat \<Rightarrow> 'a list outcome" where
  "mem_load d off n = (if off + n \<le> length d then Ok (take n (drop off d)) else Fault Out_Of_Bounds)"

definition mem_move :: "'a list \<Rightarrow> nat \<Rightarrow> nat \<Rightarrow> nat \<Rightarrow> 'a list outcome" where
  "mem_move d to from n = obind (mem_load d from n) (mem_store d to)"

definition entry_at :: "camera_metadata \<Rightarrow> nat \<Rightarrow> buffer_entry outcome" where
  "entry_at m i = (if i < length (cm_entries m) then Ok (cm_entries m ! i) else Fault Out_Of_Bounds)"

definition type_size_at :: "u8 \<Rightarrow> u32 outcome" where
  "type_size_at ty = (if unat ty < NUM_TYPES then Ok (camera_metadata_type_size ! unat ty) else Fault Out_Of_Bounds)"

text \<open>\<open>memcpy\<close> of the first \<open>n\<close> bytes of \<open>data\<close> into the four bytes of \<open>entry->data.value\<close>.\<close>

definition store_value :: "u32 \<Rightarrow> bytes \<Rightarrow> nat \<Rightarrow> u32 outcome" where
  "store_value w data n = obind (mem_load data 0 n) (\<lambda>xs. obind (mem_store (le32 w) 0 xs) (\<lambda>v. Ok (un_le32 v)))"

section \<open>Copying and validating\<close>

definition copy_camera_metadata ::
  "raw_mem option \<Rightarrow> u32 \<Rightarrow> camera_metadata \<Rightarrow> camera_metadata option outcome" where
  "copy_camera_metadata dst dst_size src =
     (if dst = None then Ok None
      else if dst_size < get_camera_metadata_compact_size (Some src) then Ok None
      else
        case place_camera_metadata dst dst_size (entry_count src) (data_count src) of
          None \<Rightarrow> Fault Null_Deref
        | Some m \<Rightarrow>
            obind (mem_load (cm_entries src) 0 (unat (entry_count src)))
              (\<lambda>es. obind (mem_store (cm_entries m) 0 es)
                (\<lambda>es'. obind (mem_load (cm_data src) 0 (unat (data_count src)))
                  (\<lambda>ds. obind (mem_store (cm_data m) 0 ds)
                    (\<lambda>ds'. Ok (Some (m\<lparr>cm_flags := cm_flags src, entry_count := entry_count src,
                        data_count := data_count src, cm_entries := es', cm_data := ds', cm_user := None\<rparr>)))))))"

definition aligned :: "u32 \<Rightarrow> u32 \<Rightarrow> bool" where
  "aligned p a \<longleftrightarrow> p = ALIGN_TO p a"

text \<open>The checks on one entry; \<open>i\<close> is its index.\<close>

definition validate_entry ::
  "vendor_tag_query_ops option \<Rightarrow> camera_metadata \<Rightarrow> nat \<Rightarrow> buffer_entry \<Rightarrow> bool outcome" where
  "validate_entry vops m i entry =
     (if \<not> aligned (cm_addr m + entries_start m + ENTRY_SIZE * of_nat i) ENTRY_ALIGNMENT then Ok False
      else if NUM_TYPES \<le> unat (e_type entry) then Ok False
      else
        obind (get_camera_metadata_tag_type vops (e_tag entry))
          (\<lambda>tag_type.
             if tag_type \<noteq> uint (e_type entry) \<and> tag_section (e_tag entry) < VENDOR_SECTION then Ok False
             else
               let data_size = calculate_camera_metadata_entry_data_size (e_type entry) (e_count entry)
               in if data_size \<noteq> 0 then
                    (if \<not> aligned (cm_addr m + data_start m + e_data entry) DATA_ALIGNMENT then Ok False
                     else
                       let data_entry_end = e_data entry + data_size
                       in Ok (\<not> (data_entry_end < e_data entry \<or> data_entry_end > data_capacity m)))
                  else if e_count entry = 0 then Ok (e_data entry = 0)
                  else Ok True))"

fun validate_entries ::
  "vendor_tag_query_ops option \<Rightarrow> camera_metadata \<Rightarrow> nat \<Rightarrow> nat \<Rightarrow> int outcome" where
  "validate_entries vops m i 0 = Ok CM_OK"
| "validate_entries vops m i (Suc n) =
     obind (entry_at m i)
       (\<lambda>entry. obind (validate_entry vops m i entry)
         (\<lambda>ok. if ok then validate_entries vops m (Suc i) n else Ok CM_ERROR))"

definition validate_camera_metadata_structure ::
  "vendor_tag_query_ops option \<Rightarrow> camera_metadata option \<Rightarrow> u32 option \<Rightarrow> int outcome" where
  "validate_camera_metadata_structure vops metadata expected_size =
     (case metadata of
        None \<Rightarrow> Ok CM_ERROR
      | Some m \<Rightarrow>
          if \<not> aligned (cm_addr m) 4 then Ok CM_ERROR
          else if \<not> aligned (cm_addr m) ENTRY_ALIGNMENT then Ok CM_ERROR
          else if \<not> aligned (cm_addr m) DATA_ALIGNMENT then Ok CM_ERROR
          else if (case expected_size of None \<Rightarrow> False | Some n \<Rightarrow> cm_size m > n) then Ok CM_ERROR
          else if entry_count m > entry_capacity m then Ok CM_ERROR
          else
            let entries_end = entries_start m + entry_capacity m
            in if entries_end < entries_start m \<or> entries_end > data_start m then Ok CM_ERROR
               else
                 let data_end = data_start m + data_capacity m
                 in if data_end < data_start m \<or> data_end > cm_size m then Ok CM_ERROR
                    else validate_entries vops m 0 (unat (entry_count m)))"

text \<open>
  The copy made by \<open>memcpy\<close> of \<open>n\<close> bytes: the arrays reach as far as the bytes copied. A copy shorter than
  the header leaves header fields unset.
\<close>

definition copied_bytes :: "camera_metadata \<Rightarrow> u32 \<Rightarrow> u32 \<Rightarrow> camera_metadata" where
  "copied_bytes m n addr =
     m\<lparr>cm_addr := addr,
       cm_entries := take ((unat n - unat (entries_start m)) div 16) (cm_entries m),
       cm_data := take (unat n - unat (data_start m)) (cm_data m)\<rparr>"

definition allocate_copy_camera_metadata_checked ::
  "vendor_tag_query_ops option \<Rightarrow> raw_mem option \<Rightarrow> camera_metadata option \<Rightarrow> u32 \<Rightarrow> camera_metadata option outcome" where
  "allocate_copy_camera_metadata_checked vops mem src src_size =
     (case src of
        None \<Rightarrow> Ok None
      | Some m \<Rightarrow>
          (case mem of
             None \<Rightarrow> Fault Null_Deref
           | Some raw \<Rightarrow>
               if src_size < HEADER_SIZE then Fault Out_Of_Bounds
               else
                 let m' = copied_bytes m src_size (raw_addr raw)
                 in obind (validate_camera_metadata_structure vops (Some m') (Some src_size))
                      (\<lambda>ret. Ok (if ret \<noteq> CM_OK then None else Some m'))))"

section \<open>Appending and cloning\<close>

definition shift_offset :: "u32 \<Rightarrow> buffer_entry \<Rightarrow> buffer_entry" where
  "shift_offset k e =
     (if calculate_camera_metadata_entry_data_size (e_type e) (e_count e) > 0 then e\<lparr>e_data := e_data e + k\<rparr> else e)"

definition append_camera_metadata ::
  "camera_metadata option \<Rightarrow> camera_metadata option \<Rightarrow> (int \<times> camera_metadata option) outcome" where
  "append_camera_metadata dst src =
     (case (dst, src) of
        (Some d, Some s) \<Rightarrow>
          if entry_capacity d < entry_count s + entry_count d then Ok (CM_ERROR, dst)
          else if data_capacity d < data_count s + data_count d then Ok (CM_ERROR, dst)
          else
            obind (mem_load (cm_entries s) 0 (unat (entry_count s)))
              (\<lambda>es. obind (mem_store (cm_entries d) (unat (entry_count d))
                             (if data_count d \<noteq> 0 then map (shift_offset (data_count d)) es else es))
                (\<lambda>es'. obind (mem_load (cm_data s) 0 (unat (data_count s)))
                  (\<lambda>ds. obind (mem_store (cm_data d) (unat (data_count d)) ds)
                    (\<lambda>ds'. Ok (CM_OK, Some (d\<lparr>
                        cm_flags := (if entry_count d = 0 then cm_flags d OR (cm_flags s AND FLAG_SORTED)
                                     else if entry_count s \<noteq> 0 then cm_flags d AND NOT FLAG_SORTED
                                     else cm_flags d),
                        entry_count := entry_count d + entry_count s,
                        data_count := data_count d + data_count s,
                        cm_entries := es', cm_data := ds'\<rparr>))))))
      | _ \<Rightarrow> Ok (CM_ERROR, dst))"

definition clone_camera_metadata ::
  "raw_mem option \<Rightarrow> camera_metadata option \<Rightarrow> camera_metadata option outcome" where
  "clone_camera_metadata mem src =
     (case src of
        None \<Rightarrow> Ok None
      | Some s \<Rightarrow>
          (case allocate_camera_metadata mem (entry_count s) (data_count s) of
             None \<Rightarrow> Ok None
           | Some clone \<Rightarrow>
               obind (append_camera_metadata (Some clone) (Some s))
                 (\<lambda>(res, c). Ok (if res \<noteq> CM_OK then None else c))))"

section \<open>Entries\<close>

definition add_camera_metadata_entry_raw ::
  "camera_metadata option \<Rightarrow> u32 \<Rightarrow> u8 \<Rightarrow> bytes option \<Rightarrow> u32 \<Rightarrow> (int \<times> camera_metadata option) outcome" where
  "add_camera_metadata_entry_raw dst tag ty data n =
     (case dst of
        None \<Rightarrow> Ok (CM_ERROR, dst)
      | Some m \<Rightarrow>
          if entry_count m = entry_capacity m then Ok (CM_ERROR, dst)
          else (case data of
            None \<Rightarrow> Ok (CM_ERROR, dst)
          | Some bs \<Rightarrow>
              let data_bytes = calculate_camera_metadata_entry_data_size ty n
              in if data_bytes + data_count m > data_capacity m then Ok (CM_ERROR, dst)
                 else
                   obind (type_size_at ty)
                     (\<lambda>sz.
                        let data_payload_bytes = n * sz;
                            entry = \<lparr>e_tag = tag, e_count = n, e_data = 0, e_type = ty\<rparr>
                        in obind
                             (if data_bytes = 0
                              then obind (store_value 0 bs (unat data_payload_bytes))
                                     (\<lambda>v. Ok (entry\<lparr>e_data := v\<rparr>, cm_data m, data_count m))
                              else obind (mem_load bs 0 (unat data_payload_bytes))
                                     (\<lambda>xs. obind (mem_store (cm_data m) (unat (data_count m)) xs)
                                       (\<lambda>d. Ok (entry\<lparr>e_data := data_count m\<rparr>, d, data_count m + data_bytes))))
                             (\<lambda>(entry, d, dc).
                                obind (mem_store (cm_entries m) (unat (entry_count m)) [entry])
                                  (\<lambda>es. Ok (CM_OK, Some (m\<lparr>cm_entries := es, cm_data := d, data_count := dc,
                                      entry_count := entry_count m + 1,
                                      cm_flags := cm_flags m AND NOT FLAG_SORTED\<rparr>)))))))"

definition add_camera_metadata_entry ::
  "vendor_tag_query_ops option \<Rightarrow> camera_metadata option \<Rightarrow> u32 \<Rightarrow> bytes option \<Rightarrow> u32
    \<Rightarrow> (int \<times> camera_metadata option) outcome" where
  "add_camera_metadata_entry vops dst tag data n =
     obind (get_camera_metadata_tag_type vops tag)
       (\<lambda>ty. if ty = -1 then Ok (CM_ERROR, dst) else add_camera_metadata_entry_raw dst tag (word_of_int ty) data n)"

definition compare_entry_tags :: "buffer_entry \<Rightarrow> buffer_entry \<Rightarrow> int" where
  "compare_entry_tags p1 p2 = (if e_tag p1 < e_tag p2 then -1 else if e_tag p1 = e_tag p2 then 0 else 1)"

text \<open>
  \<open>qsort\<close> and \<open>bsearch\<close> of the C library are arguments: functions of the comparison and the array; \<open>bsearch\<close>
  returns the index of the element it found.
\<close>

type_synonym qsort_fun = "(buffer_entry \<Rightarrow> buffer_entry \<Rightarrow> int) \<Rightarrow> buffer_entry list \<Rightarrow> buffer_entry list"
type_synonym bsearch_fun = "(buffer_entry \<Rightarrow> buffer_entry \<Rightarrow> int) \<Rightarrow> buffer_entry \<Rightarrow> buffer_entry list \<Rightarrow> nat option"

definition sort_camera_metadata ::
  "qsort_fun \<Rightarrow> camera_metadata option \<Rightarrow> (int \<times> camera_metadata option) outcome" where
  "sort_camera_metadata qsort dst =
     (case dst of
        None \<Rightarrow> Ok (CM_ERROR, dst)
      | Some m \<Rightarrow>
          if cm_flags m AND FLAG_SORTED \<noteq> 0 then Ok (CM_OK, dst)
          else
            obind (mem_load (cm_entries m) 0 (unat (entry_count m)))
              (\<lambda>es. obind (mem_store (cm_entries m) 0 (qsort compare_entry_tags es))
                (\<lambda>es'. Ok (CM_OK, Some (m\<lparr>cm_entries := es', cm_flags := cm_flags m OR FLAG_SORTED\<rparr>)))))"

text \<open>Where the data of an entry is: at an offset of the data array or inside the entry.\<close>

datatype data_ptr = In_Data u32 | In_Entry nat

record metadata_entry =
  me_index :: nat
  me_tag :: u32
  me_type :: u8
  me_count :: u32
  me_data :: data_ptr

definition get_camera_metadata_entry ::
  "camera_metadata option \<Rightarrow> nat \<Rightarrow> (int \<times> metadata_entry option) outcome" where
  "get_camera_metadata_entry src index =
     (case src of
        None \<Rightarrow> Ok (CM_ERROR, None)
      | Some m \<Rightarrow>
          if unat (entry_count m) \<le> index then Ok (CM_ERROR, None)
          else
            obind (entry_at m index)
              (\<lambda>e. obind (type_size_at (e_type e))
                (\<lambda>sz. Ok (CM_OK, Some \<lparr>me_index = index, me_tag = e_tag e, me_type = e_type e, me_count = e_count e,
                     me_data = (if e_count e * sz > 4 then In_Data (e_data e) else In_Entry index)\<rparr>))))"

fun linear_search :: "buffer_entry list \<Rightarrow> u32 \<Rightarrow> nat \<Rightarrow> nat" where
  "linear_search [] tag i = i"
| "linear_search (e # es) tag i = (if e_tag e = tag then i else linear_search es tag (Suc i))"

definition find_camera_metadata_entry ::
  "bsearch_fun \<Rightarrow> camera_metadata option \<Rightarrow> u32 \<Rightarrow> (int \<times> metadata_entry option) outcome" where
  "find_camera_metadata_entry bsearch src tag =
     (case src of
        None \<Rightarrow> Ok (CM_ERROR, None)
      | Some m \<Rightarrow>
          obind (mem_load (cm_entries m) 0 (unat (entry_count m)))
            (\<lambda>es.
               if cm_flags m AND FLAG_SORTED \<noteq> 0 then
                 (case bsearch compare_entry_tags \<lparr>e_tag = tag, e_count = 0, e_data = 0, e_type = 0\<rparr> es of
                    None \<Rightarrow> Ok (NOT_FOUND, None)
                  | Some index \<Rightarrow> get_camera_metadata_entry src index)
               else
                 let index = linear_search es tag 0
                 in if index = unat (entry_count m) then Ok (NOT_FOUND, None)
                    else get_camera_metadata_entry src index))"

definition find_camera_metadata_ro_entry ::
  "bsearch_fun \<Rightarrow> camera_metadata option \<Rightarrow> u32 \<Rightarrow> (int \<times> metadata_entry option) outcome" where
  "find_camera_metadata_ro_entry bsearch src tag = find_camera_metadata_entry bsearch src tag"

text \<open>The loop that closes the gap left by \<open>n\<close> bytes at offset \<open>off\<close>.\<close>

definition close_gap :: "u32 \<Rightarrow> u32 \<Rightarrow> buffer_entry \<Rightarrow> buffer_entry" where
  "close_gap off n e =
     (if calculate_camera_metadata_entry_data_size (e_type e) (e_count e) > 0 \<and> e_data e > off
      then e\<lparr>e_data := e_data e - n\<rparr> else e)"

text \<open>
  Removing \<open>n\<close> bytes of data at offset \<open>off\<close>: the bytes behind move down and the offsets of the first \<open>k\<close>
  entries follow.
\<close>

definition remove_data :: "camera_metadata \<Rightarrow> u32 \<Rightarrow> u32 \<Rightarrow> (buffer_entry list \<times> bytes) outcome" where
  "remove_data m off n =
     (let len = data_count m - off - n; k = unat (entry_count m)
      in obind (mem_move (cm_data m) (unat off) (unat off + unat n) (unat len))
           (\<lambda>d. if k \<le> length (cm_entries m)
                then Ok (map (close_gap off n) (take k (cm_entries m)) @ drop k (cm_entries m), d)
                else Fault Out_Of_Bounds))"

definition delete_camera_metadata_entry ::
  "camera_metadata option \<Rightarrow> nat \<Rightarrow> (int \<times> camera_metadata option) outcome" where
  "delete_camera_metadata_entry dst index =
     (case dst of
        None \<Rightarrow> Ok (CM_ERROR, dst)
      | Some m \<Rightarrow>
          if unat (entry_count m) \<le> index then Ok (CM_ERROR, dst)
          else
            obind (entry_at m index)
              (\<lambda>entry.
                 let data_bytes = calculate_camera_metadata_entry_data_size (e_type entry) (e_count entry)
                 in obind (if data_bytes > 0
                           then obind (remove_data m (e_data entry) data_bytes)
                                  (\<lambda>(es, d). Ok (m\<lparr>cm_entries := es, cm_data := d, data_count := data_count m - data_bytes\<rparr>))
                           else Ok m)
                      (\<lambda>m1. obind (mem_move (cm_entries m1) index (index + 1) (unat (entry_count m1) - index - 1))
                        (\<lambda>es. Ok (CM_OK, Some (m1\<lparr>cm_entries := es, entry_count := entry_count m1 - 1\<rparr>))))))"

definition update_camera_metadata_entry ::
  "camera_metadata option \<Rightarrow> nat \<Rightarrow> bytes \<Rightarrow> u32 \<Rightarrow> (int \<times> camera_metadata option \<times> metadata_entry option) outcome" where
  "update_camera_metadata_entry dst index data n =
     (case dst of
        None \<Rightarrow> Ok (CM_ERROR, dst, None)
      | Some m \<Rightarrow>
          if unat (entry_count m) \<le> index then Ok (CM_ERROR, dst, None)
          else
            obind (entry_at m index)
              (\<lambda>entry. obind (type_size_at (e_type entry))
                (\<lambda>sz.
                   let data_bytes = calculate_camera_metadata_entry_data_size (e_type entry) n;
                       data_payload_bytes = n * sz;
                       entry_bytes = calculate_camera_metadata_entry_data_size (e_type entry) (e_count entry)
                   in if data_bytes \<noteq> entry_bytes \<and> data_capacity m < data_count m + data_bytes - entry_bytes
                      then Ok (CM_ERROR, dst, None)
                      else
                        obind
                          (if data_bytes \<noteq> entry_bytes \<and> entry_bytes \<noteq> 0
                           then obind (remove_data m (e_data entry) entry_bytes)
                                  (\<lambda>(es, d). Ok (m\<lparr>cm_entries := es, cm_data := d, data_count := data_count m - entry_bytes\<rparr>))
                           else Ok m)
                          (\<lambda>m1.
                             let entry1 = cm_entries m1 ! index
                             in obind
                                  (if data_bytes \<noteq> entry_bytes \<and> data_bytes \<noteq> 0
                                   then obind (mem_load data 0 (unat data_payload_bytes))
                                          (\<lambda>xs. obind (mem_store (cm_data m1) (unat (data_count m1)) xs)
                                            (\<lambda>d. Ok (entry1\<lparr>e_data := data_count m1\<rparr>,
                                                    m1\<lparr>cm_data := d, data_count := data_count m1 + data_bytes\<rparr>)))
                                   else if data_bytes = entry_bytes \<and> data_bytes \<noteq> 0
                                   then obind (mem_load data 0 (unat data_payload_bytes))
                                          (\<lambda>xs. obind (mem_store (cm_data m1) (unat (e_data entry1)) xs)
                                            (\<lambda>d. Ok (entry1, m1\<lparr>cm_data := d\<rparr>)))
                                   else obind (store_value (e_data entry1) data (unat data_payload_bytes))
                                          (\<lambda>v. Ok (entry1\<lparr>e_data := v\<rparr>, m1)))
                                  (\<lambda>(entry2, m2).
                                     let m3 = m2\<lparr>cm_entries := (cm_entries m2)[index := entry2\<lparr>e_count := n\<rparr>]\<rparr>
                                     in obind (get_camera_metadata_entry (Some m3) index)
                                          (\<lambda>(_, updated). Ok (CM_OK, Some m3, updated)))))))"

end
