(* ===== verification/Camera_Metadata_Props.thy ===== *)
theory Camera_Metadata_Props
  imports Camera_Metadata "HOL-Library.Multiset"
begin

text \<open>
  What the operations on camera metadata do to the contents of a packet: the list of its entries with their
  payloads. \<open>cm_inv\<close> is the invariant of a packet: counts within capacities, every payload inside the data
  array and no two payloads overlapping.
\<close>

section \<open>Sizes\<close>

definition tsize :: "u8 \<Rightarrow> nat" where
  "tsize ty = unat (camera_metadata_type_size ! unat ty)"

text \<open>\<open>fits ty n\<close>: \<open>n\<close> values of type \<open>ty\<close> can be counted in bytes and rounded up without overflow.\<close>

definition fits :: "u8 \<Rightarrow> u32 \<Rightarrow> bool" where
  "fits ty n \<longleftrightarrow> unat ty < 6 \<and> unat n * tsize ty + 8 \<le> 2 ^ 32"

definition psize :: "buffer_entry \<Rightarrow> nat" where
  "psize e = unat (e_count e) * tsize (e_type e)"

definition esize :: "buffer_entry \<Rightarrow> nat" where
  "esize e = unat (calculate_camera_metadata_entry_data_size (e_type e) (e_count e))"

lemma unat_ALIGN_TO_8:
  assumes "unat x + 8 \<le> 2 ^ 32"
  shows "unat (ALIGN_TO x 8) = align_up (unat x) 8"
proof -
  have "unat (x + 7) = unat x + 7" using assms by (subst unat_add_u32) simp_all
  then have "unat (ALIGN_TO x 8) = unat x + 7 - (unat x + 7) mod 8"
    using and_not_mask_u32 [of "x + 7" 3] by (simp add: ALIGN_TO_def mask_eq_exp_minus_1)
  then show ?thesis by (simp add: align_up_def minus_mod_eq_mult_div)
qed

lemma type_size_at_fits: "unat ty < 6 \<Longrightarrow> type_size_at ty = Ok (camera_metadata_type_size ! unat ty)"
  by (simp add: type_size_at_def)

lemma payload_bytes_fits:
  assumes "fits ty n"
  shows "unat (n * camera_metadata_type_size ! unat ty) = unat n * tsize ty"
  using assms by (simp add: fits_def tsize_def unat_mult_u32)

lemma data_size_fits:
  assumes "fits ty n"
  shows "unat (calculate_camera_metadata_entry_data_size ty n) =
    (if unat n * tsize ty \<le> 4 then 0 else align_up (unat n * tsize ty) 8)"
proof -
  define w where "w = n * camera_metadata_type_size ! unat ty"
  have w: "unat w = unat n * tsize ty" using payload_bytes_fits [OF assms] by (simp add: w_def)
  have "w \<le> 4 \<longleftrightarrow> unat n * tsize ty \<le> 4" by (simp add: word_le_nat_alt w)
  moreover have "unat (ALIGN_TO w 8) = align_up (unat n * tsize ty) 8"
    using unat_ALIGN_TO_8 [of w] assms by (simp add: w fits_def)
  ultimately show ?thesis
    using assms by (simp add: calculate_camera_metadata_entry_data_size_def Let_def fits_def flip: w_def)
qed

lemma esize_cases:
  assumes "fits (e_type e) (e_count e)"
  shows "psize e \<le> 4 \<Longrightarrow> esize e = 0" and "\<not> psize e \<le> 4 \<Longrightarrow> psize e \<le> esize e \<and> 0 < esize e" and "8 dvd esize e"
  using data_size_fits [OF assms] align_up_props [of 8 "psize e"]
  by (auto simp: psize_def esize_def)

section \<open>Invariant and contents\<close>

definition apart :: "buffer_entry \<Rightarrow> buffer_entry \<Rightarrow> bool" where
  "apart e f \<longleftrightarrow> esize e = 0 \<or> esize f = 0 \<or>
     unat (e_data e) + esize e \<le> unat (e_data f) \<or> unat (e_data f) + esize f \<le> unat (e_data e)"

definition entry_ok :: "nat \<Rightarrow> buffer_entry \<Rightarrow> bool" where
  "entry_ok dc e \<longleftrightarrow> fits (e_type e) (e_count e) \<and>
     (esize e \<noteq> 0 \<longrightarrow> unat (e_data e) + esize e \<le> dc \<and> 8 dvd unat (e_data e))"

definition entries_ok :: "nat \<Rightarrow> buffer_entry list \<Rightarrow> bool" where
  "entries_ok dc es \<longleftrightarrow> (\<forall>e \<in> set es. entry_ok dc e) \<and> sorted_wrt apart es"

definition live :: "camera_metadata \<Rightarrow> buffer_entry list" where
  "live m = take (unat (entry_count m)) (cm_entries m)"

definition cm_inv :: "camera_metadata \<Rightarrow> bool" where
  "cm_inv m \<longleftrightarrow>
     entry_count m \<le> entry_capacity m \<and> data_count m \<le> data_capacity m \<and>
     length (cm_entries m) = unat (entry_capacity m) \<and> length (cm_data m) = unat (data_capacity m) \<and>
     8 dvd unat (data_count m) \<and> entries_ok (unat (data_count m)) (live m)"

definition payload :: "bytes \<Rightarrow> buffer_entry \<Rightarrow> bytes" where
  "payload d e =
     (if psize e \<le> 4 then take (psize e) (le32 (e_data e)) else take (psize e) (drop (unat (e_data e)) d))"

definition item :: "bytes \<Rightarrow> buffer_entry \<Rightarrow> u32 \<times> u8 \<times> bytes" where
  "item d e = (e_tag e, e_type e, payload d e)"

definition contents :: "camera_metadata \<Rightarrow> (u32 \<times> u8 \<times> bytes) list" where
  "contents m = map (item (cm_data m)) (live m)"

lemma apart_sym: "apart e f \<longleftrightarrow> apart f e"
  by (auto simp: apart_def)

lemma length_live: "cm_inv m \<Longrightarrow> length (live m) = unat (entry_count m)"
  by (simp add: cm_inv_def live_def word_le_nat_alt)

lemma length_contents: "cm_inv m \<Longrightarrow> length (contents m) = unat (entry_count m)"
  by (simp add: contents_def length_live)

lemma entries_ok_mono: "entries_ok dc es \<Longrightarrow> dc \<le> dc' \<Longrightarrow> entries_ok dc' es"
  by (auto simp: entries_ok_def entry_ok_def)

text \<open>The payloads only depend on the data below \<open>data_count\<close>.\<close>

lemma payload_cong:
  assumes ok: "entry_ok dc e" and eq: "take dc d = take dc d'"
  shows "payload d e = payload d' e"
proof (cases "psize e \<le> 4")
  case False
  with ok esize_cases(2) [of e] have le: "unat (e_data e) + psize e \<le> dc"
    by (auto simp: entry_ok_def)
  have "take (psize e) (drop (unat (e_data e)) d) = take (psize e) (drop (unat (e_data e)) (take dc d))" for d :: bytes
    using le by (simp add: drop_take min_def)
  with False eq show ?thesis by (metis payload_def)
qed (simp add: payload_def)

lemma items_cong:
  assumes "entries_ok dc es" and "take dc d = take dc d'"
  shows "map (item d) es = map (item d') es"
  using assms payload_cong [of dc _ d d'] by (auto simp: entries_ok_def item_def)

section \<open>Lists of entries\<close>

lemma entries_ok_mid:
  "entries_ok dc (xs @ e # ys) \<longleftrightarrow>
     entry_ok dc e \<and> entries_ok dc (xs @ ys) \<and> (\<forall>f \<in> set (xs @ ys). apart e f)"
  using apart_sym by (fastforce simp: entries_ok_def sorted_wrt_append)

lemma entries_ok_snoc:
  "entries_ok dc (xs @ [e]) \<longleftrightarrow> entry_ok dc e \<and> entries_ok dc xs \<and> (\<forall>f \<in> set xs. apart e f)"
  using entries_ok_mid [of dc xs e "[]"] by simp

lemma entries_ok_perm:
  assumes "entries_ok dc xs" and "mset ys = mset xs"
  shows "entries_ok dc ys"
  using assms
proof (induction xs arbitrary: ys)
  case (Cons x xs)
  then have "x \<in> set ys" by (metis list.set_intros(1) mset_eq_setD)
  then obtain us vs where ys: "ys = us @ x # vs" by (meson split_list)
  with Cons.prems have perm: "mset (us @ vs) = mset xs" by simp
  have x: "entry_ok dc x \<and> entries_ok dc xs \<and> (\<forall>f \<in> set xs. apart x f)"
    using Cons.prems(1) entries_ok_mid [of dc "[]" x xs] by simp
  then have "entries_ok dc (us @ vs)" using Cons.IH perm by blast
  moreover have "set (us @ vs) = set xs" using perm by (metis mset_eq_setD)
  ultimately show ?case using x unfolding ys entries_ok_mid by blast
qed simp

text \<open>A payload stored behind all others is apart from them.\<close>

lemma apart_behind:
  assumes "entry_ok dc f" and "unat (e_data e) = dc"
  shows "apart e f"
  using assms by (auto simp: apart_def entry_ok_def)

section \<open>Adding\<close>

lemma store_value_Ok:
  assumes "k \<le> length bs" and "k \<le> 4"
  shows "\<exists>v. store_value w bs k = Ok v \<and> take k (le32 v) = take k bs"
proof -
  have "length (take k bs @ drop k (le32 w)) = 4" using assms by simp
  then have "le32 (un_le32 (take k bs @ drop k (le32 w))) = take k bs @ drop k (le32 w)" by (rule le32_un_le32)
  then show ?thesis
    using assms by (simp add: store_value_def mem_load_def mem_store_def min_absorb2)
qed

lemma live_extend:
  assumes "entry_count m < entry_capacity m" and "length (cm_entries m) = unat (entry_capacity m)"
    and "entry_count m' = entry_count m + 1"
    and "cm_entries m' = take (unat (entry_count m)) (cm_entries m) @ e # drop (Suc (unat (entry_count m))) (cm_entries m)"
  shows "live m' = live m @ [e]" and "unat (entry_count m') = Suc (unat (entry_count m))"
proof -
  show c: "unat (entry_count m') = Suc (unat (entry_count m))"
    using assms(1) unat_u32_less [of "entry_capacity m"]
    by (simp add: assms(3) word_less_nat_alt unat_add_u32)
  show "live m' = live m @ [e]"
    using assms(1,2) by (simp add: live_def c assms(4) word_less_nat_alt min_absorb2)
qed

lemma payload_stored:
  assumes "\<not> psize e \<le> 4" and "unat (e_data e) + psize e \<le> length d" and "psize e = length xs"
  shows "payload (take (unat (e_data e)) d @ xs @ r) e = xs"
  using assms by (simp add: payload_def min_absorb2)

definition blank_entry :: "u32 \<Rightarrow> u8 \<Rightarrow> u32 \<Rightarrow> buffer_entry" where
  "blank_entry tag ty n = \<lparr>e_tag = tag, e_count = n, e_data = 0, e_type = ty\<rparr>"

lemma esize_dvd_word:
  "fits ty n \<Longrightarrow> 8 dvd unat (calculate_camera_metadata_entry_data_size ty n)"
  using esize_cases(3) [of "blank_entry 0 ty n"] by (simp add: esize_def blank_entry_def)

lemma add_raw_inline:
  assumes inv: "cm_inv m" and fit: "fits ty n" and len: "unat n * tsize ty \<le> length bs"
    and room: "entry_count m < entry_capacity m" and small: "unat n * tsize ty \<le> 4"
  shows "\<exists>m'. add_camera_metadata_entry_raw (Some m) tag ty (Some bs) n = Ok (CM_OK, Some m') \<and> cm_inv m' \<and>
    contents m' = contents m @ [(tag, ty, take (unat n * tsize ty) bs)] \<and> data_count m' = data_count m"
proof -
  have sz: "calculate_camera_metadata_entry_data_size ty n = 0"
    using data_size_fits [OF fit] small by (simp add: unat_eq_0)
  obtain v where v: "store_value 0 bs (unat n * tsize ty) = Ok v" "take (unat n * tsize ty) (le32 v) = take (unat n * tsize ty) bs"
    using store_value_Ok [OF len small] by blast
  let ?e = "\<lparr>e_tag = tag, e_count = n, e_data = v, e_type = ty\<rparr>"
  let ?m = "m\<lparr>cm_entries := take (unat (entry_count m)) (cm_entries m) @ ?e # drop (Suc (unat (entry_count m))) (cm_entries m),
      entry_count := entry_count m + 1, cm_flags := cm_flags m AND NOT FLAG_SORTED\<rparr>"
  have lens: "length (cm_entries m) = unat (entry_capacity m)" using inv by (simp add: cm_inv_def)
  have run: "add_camera_metadata_entry_raw (Some m) tag ty (Some bs) n = Ok (CM_OK, Some ?m)"
    using inv room fit v lens payload_bytes_fits [OF fit]
    by (auto simp: add_camera_metadata_entry_raw_def sz Let_def type_size_at_fits fits_def cm_inv_def mem_store_def
        word_less_nat_alt word_le_nat_alt)
  have live: "live ?m = live m @ [?e]" and cnt: "unat (entry_count ?m) = Suc (unat (entry_count m))"
    using live_extend [of m ?m ?e] room lens by simp_all
  have e: "esize ?e = 0" "entry_ok dc ?e" for dc using sz fit by (simp_all add: esize_def entry_ok_def)
  then have "entries_ok (unat (data_count m)) (live ?m)"
    unfolding live entries_ok_snoc using inv by (simp add: cm_inv_def apart_def)
  then have "cm_inv ?m" using inv room cnt by (simp add: cm_inv_def word_less_nat_alt word_le_nat_alt)
  moreover have "contents ?m = contents m @ [(tag, ty, take (unat n * tsize ty) bs)]"
    unfolding contents_def live using small v(2) by (simp add: item_def payload_def psize_def)
  ultimately show ?thesis using run by (intro exI [of _ ?m]) simp
qed

lemma add_raw_stored:
  assumes inv: "cm_inv m" and fit: "fits ty n" and len: "unat n * tsize ty \<le> length bs"
    and room: "entry_count m < entry_capacity m" and big: "\<not> unat n * tsize ty \<le> 4"
    and data: "unat (data_count m) + unat (calculate_camera_metadata_entry_data_size ty n) \<le> unat (data_capacity m)"
  shows "\<exists>m'. add_camera_metadata_entry_raw (Some m) tag ty (Some bs) n = Ok (CM_OK, Some m') \<and> cm_inv m' \<and>
    contents m' = contents m @ [(tag, ty, take (unat n * tsize ty) bs)] \<and>
    data_count m' = data_count m + calculate_camera_metadata_entry_data_size ty n"
proof -
  let ?sz = "calculate_camera_metadata_entry_data_size ty n"
  let ?xs = "take (unat n * tsize ty) bs"
  let ?dc = "unat (data_count m)"
  let ?e = "\<lparr>e_tag = tag, e_count = n, e_data = data_count m, e_type = ty\<rparr>"
  let ?m = "m\<lparr>cm_entries := take (unat (entry_count m)) (cm_entries m) @ ?e # drop (Suc (unat (entry_count m))) (cm_entries m),
      cm_data := take ?dc (cm_data m) @ ?xs @ drop (?dc + unat n * tsize ty) (cm_data m),
      data_count := data_count m + ?sz,
      entry_count := entry_count m + 1, cm_flags := cm_flags m AND NOT FLAG_SORTED\<rparr>"
  have lens: "length (cm_entries m) = unat (entry_capacity m)" "length (cm_data m) = unat (data_capacity m)"
    using inv by (simp_all add: cm_inv_def)
  have sz: "psize ?e \<le> esize ?e" "esize ?e = unat ?sz" "\<not> psize ?e \<le> 4" "psize ?e = unat n * tsize ty" "?sz \<noteq> 0"
    using esize_cases(2) [of ?e] fit big by (auto simp: psize_def esize_def)
  have dc: "unat (data_count m + ?sz) = ?dc + unat ?sz"
    using data unat_u32_less [of "data_capacity m"] by (simp add: unat_add_u32)
  have le: "?dc + unat n * tsize ty \<le> length (cm_data m)" using sz data lens by simp
  have run: "add_camera_metadata_entry_raw (Some m) tag ty (Some bs) n = Ok (CM_OK, Some ?m)"
    using room fit len lens payload_bytes_fits [OF fit] dc data le sz(5)
    by (auto simp: add_camera_metadata_entry_raw_def Let_def type_size_at_fits fits_def mem_store_def mem_load_def
        word_less_nat_alt min_absorb2 add.commute [of ?sz])
  have live: "live ?m = live m @ [?e]" and cnt: "unat (entry_count ?m) = Suc (unat (entry_count m))"
    using live_extend [of m ?m ?e] room lens by simp_all
  have old: "entries_ok ?dc (live m)" using inv by (simp add: cm_inv_def)
  have eok: "entry_ok (?dc + unat ?sz) ?e" using inv fit sz(2) by (simp add: entry_ok_def cm_inv_def)
  have "\<forall>f \<in> set (live m). apart ?e f" using old apart_behind [of ?dc _ ?e] by (simp add: entries_ok_def)
  then have "entries_ok (?dc + unat ?sz) (live ?m)"
    unfolding live entries_ok_snoc using eok entries_ok_mono [OF old] by simp
  then have "cm_inv ?m"
    using inv room cnt dc le len data esize_dvd_word [OF fit]
    by (simp add: cm_inv_def word_less_nat_alt word_le_nat_alt)
  moreover have "contents ?m = contents m @ [(tag, ty, ?xs)]"
  proof -
    have "payload (cm_data ?m) ?e = ?xs"
      using payload_stored [of ?e "cm_data m" ?xs] sz(3,4) le len by (simp add: min_absorb2)
    moreover have "take ?dc (cm_data ?m) = take ?dc (cm_data m)" using le by simp
    ultimately show ?thesis
      unfolding contents_def live using items_cong [OF old, of "cm_data ?m" "cm_data m"] by (simp add: item_def)
  qed
  ultimately show ?thesis using run by (intro exI [of _ ?m]) simp
qed

text \<open>Both kinds of entry together.\<close>

lemma add_raw_ok:
  assumes "cm_inv m" and "fits ty n" and "unat n * tsize ty \<le> length bs" and "entry_count m < entry_capacity m"
    and "unat (data_count m) + unat (calculate_camera_metadata_entry_data_size ty n) \<le> unat (data_capacity m)"
  shows "\<exists>m'. add_camera_metadata_entry_raw (Some m) tag ty (Some bs) n = Ok (CM_OK, Some m') \<and> cm_inv m' \<and>
    contents m' = contents m @ [(tag, ty, take (unat n * tsize ty) bs)]"
  using add_raw_inline [OF assms(1-4)] add_raw_stored [OF assms(1-4) _ assms(5)] by blast

section \<open>Closing gaps\<close>

text \<open>What closing a gap of \<open>n\<close> bytes at \<open>off\<close> does to the first \<open>dc\<close> bytes.\<close>

definition shut :: "bytes \<Rightarrow> nat \<Rightarrow> nat \<Rightarrow> nat \<Rightarrow> bytes" where
  "shut d off n dc = take off d @ take (dc - off - n) (drop (off + n) d) @ drop (dc - n) d"

lemma length_shut: "off + n \<le> dc \<Longrightarrow> dc \<le> length d \<Longrightarrow> length (shut d off n dc) = length d"
  by (simp add: shut_def min_def, arith)

lemma shut_below:
  assumes "x + p \<le> off" and "off + n \<le> dc" and "dc \<le> length d"
  shows "take p (drop x (shut d off n dc)) = take p (drop x d)"
proof -
  have "take p (drop x (shut d off n dc)) = take p (drop x (take off d))"
    using assms by (simp add: shut_def min_def)
  also have "\<dots> = take p (drop x d)" using assms by (simp add: drop_take min_def)
  finally show ?thesis .
qed

lemma shut_above:
  assumes "off + n \<le> x" and "x + p \<le> dc" and "dc \<le> length d"
  shows "take p (drop (x - n) (shut d off n dc)) = take p (drop x d)"
proof -
  have "drop (x - n) (shut d off n dc) = drop (x - n - off) (take (dc - off - n) (drop (off + n) d) @ drop (dc - n) d)"
    using assms by (simp add: shut_def min_def)
  also have "take p \<dots> = take p (drop (x - n - off) (take (dc - off - n) (drop (off + n) d)))"
    using assms by (simp add: min_def)
  also have "\<dots> = take p (drop x d)" using assms by (simp add: drop_take min_def)
  finally show ?thesis .
qed

lemma close_gap_simps [simp]:
  "e_tag (close_gap off n e) = e_tag e" "e_type (close_gap off n e) = e_type e"
  "e_count (close_gap off n e) = e_count e" "psize (close_gap off n e) = psize e" "esize (close_gap off n e) = esize e"
  by (simp_all add: close_gap_def psize_def esize_def)

lemma close_gap_data:
  "e_data (close_gap off n e) = (if esize e \<noteq> 0 \<and> unat off < unat (e_data e) then e_data e - n else e_data e)"
  by (auto simp: close_gap_def esize_def word_less_nat_alt)

lemma close_gap_self [simp]: "close_gap (e_data e) n e = e"
  by (simp add: close_gap_def)

text \<open>An entry apart from the gap: below it nothing changes, above it the offset moves down.\<close>

lemma close_gap_cases:
  assumes g: "entry_ok dc g" "esize g \<noteq> 0" and f: "entry_ok dc f" and ap: "apart g f" and n: "unat n = esize g"
  obtains "esize f = 0" "close_gap (e_data g) n f = f"
  | "esize f \<noteq> 0" "unat (e_data f) + esize f \<le> unat (e_data g)" "close_gap (e_data g) n f = f"
  | "esize f \<noteq> 0" "unat (e_data g) + esize g \<le> unat (e_data f)"
      "unat (e_data (close_gap (e_data g) n f)) = unat (e_data f) - esize g"
proof -
  consider "esize f = 0" | "esize f \<noteq> 0" "unat (e_data f) + esize f \<le> unat (e_data g)"
    | "esize f \<noteq> 0" "unat (e_data g) + esize g \<le> unat (e_data f)"
    using ap g by (auto simp: apart_def)
  then show thesis
  proof cases
    case 1 then show thesis using that(1) by (simp add: close_gap_def esize_def unat_eq_0)
  next
    case 2 then show thesis using that(2) by (simp add: close_gap_def word_less_nat_alt)
  next
    case 3
    then have "unat (e_data (close_gap (e_data g) n f)) = unat (e_data f) - esize g"
      using g(2) n by (simp add: close_gap_data unat_sub_u32 word_le_nat_alt)
    with 3 show thesis by (rule that(3))
  qed
qed

lemma close_gap_payload:
  assumes "entry_ok dc g" "esize g \<noteq> 0" "entry_ok dc f" "apart g f" "unat n = esize g" "dc \<le> length d"
  shows "payload (shut d (unat (e_data g)) (esize g) dc) (close_gap (e_data g) n f) = payload d f"
proof -
  have fit: "fits (e_type f) (e_count f)" using assms(3) by (simp add: entry_ok_def)
  have g: "unat (e_data g) + esize g \<le> dc" using assms(1,2) by (simp add: entry_ok_def)
  show ?thesis using assms(1-5)
  proof (cases rule: close_gap_cases)
    case 1 then show ?thesis using esize_cases(2) [OF fit] by (auto simp: payload_def)
  next
    case 2 then show ?thesis
      using esize_cases [OF fit] shut_below [of "unat (e_data f)" "psize f" _ "esize g" dc d] g assms(6)
      by (auto simp: payload_def)
  next
    case 3
    moreover have "psize f \<le> esize f" "\<not> psize f \<le> 4" "unat (e_data f) + esize f \<le> dc"
      using 3 esize_cases [OF fit] assms(3) by (auto simp: entry_ok_def)
    ultimately show ?thesis
      using shut_above [of _ "esize g" "unat (e_data f)" "psize f" dc d] assms(6) by (simp add: payload_def)
  qed
qed

lemma close_gap_ok:
  assumes "entry_ok dc g" "esize g \<noteq> 0" "entry_ok dc f" "apart g f" "unat n = esize g"
  shows "entry_ok (dc - esize g) (close_gap (e_data g) n f)"
  using assms
proof (cases rule: close_gap_cases)
  case 3
  moreover have "8 dvd esize g" using assms(1) esize_cases(3) by (simp add: entry_ok_def)
  ultimately show ?thesis using assms(3) by (auto simp: entry_ok_def dvd_diff_nat)
qed (use assms in \<open>auto simp: entry_ok_def\<close>)

lemma close_gap_apart:
  assumes g: "entry_ok dc g" "esize g \<noteq> 0" and f: "entry_ok dc f" "apart g f" and h: "entry_ok dc h" "apart g h"
    and n: "unat n = esize g" and ap: "apart f h"
  shows "apart (close_gap (e_data g) n f) (close_gap (e_data g) n h)"
  using g f n
proof (cases rule: close_gap_cases)
  case 1 then show ?thesis by (simp add: apart_def)
next
  case 2 note F = this
  show ?thesis using g h n by (cases rule: close_gap_cases) (use F ap in \<open>auto simp: apart_def\<close>)
next
  case 3 note F = this
  show ?thesis using g h n by (cases rule: close_gap_cases) (use F ap in \<open>auto simp: apart_def\<close>)
qed

lemma close_gap_entries:
  assumes "entry_ok dc g" "esize g \<noteq> 0" "unat n = esize g"
    and "entries_ok dc es" "\<forall>f \<in> set es. apart g f"
  shows "entries_ok (dc - esize g) (map (close_gap (e_data g) n) es)"
proof -
  have "sorted_wrt (\<lambda>f h. apart (close_gap (e_data g) n f) (close_gap (e_data g) n h)) es"
    by (rule sorted_wrt_mono_rel [of _ apart]) (use assms close_gap_apart [of dc g] in \<open>auto simp: entries_ok_def\<close>)
  then show ?thesis
    using assms close_gap_ok [of dc g] by (auto simp: entries_ok_def sorted_wrt_map)
qed

lemma close_gap_items:
  assumes "entry_ok dc g" "esize g \<noteq> 0" "unat n = esize g" "dc \<le> length d"
    and "entries_ok dc es" "\<forall>f \<in> set es. apart g f"
  shows "map (item (shut d (unat (e_data g)) (esize g) dc)) (map (close_gap (e_data g) n) es) = map (item d) es"
  using assms close_gap_payload [of dc g] by (auto simp: entries_ok_def item_def)

section \<open>Deleting\<close>

text \<open>Taking the payload of the entry \<open>e\<close> out of a packet, when it has one in the data array.\<close>

lemma remove_data_ok:
  assumes inv: "cm_inv m" and live: "live m = xs @ e # ys" and sz: "esize e \<noteq> 0" and n: "unat n = esize e"
  shows "\<exists>d. remove_data m (e_data e) n =
      Ok (map (close_gap (e_data e) n) xs @ e # map (close_gap (e_data e) n) ys @ drop (unat (entry_count m)) (cm_entries m), d) \<and>
      d = shut (cm_data m) (unat (e_data e)) (esize e) (unat (data_count m)) \<and> length d = length (cm_data m)"
proof -
  have ok: "unat (e_data e) + esize e \<le> unat (data_count m)"
    using inv sz by (simp add: cm_inv_def live entries_ok_mid entry_ok_def)
  have dc: "unat (data_count m) \<le> length (cm_data m)" using inv by (simp add: cm_inv_def word_le_nat_alt)
  have a: "unat (data_count m - e_data e) = unat (data_count m) - unat (e_data e)"
    using ok by (simp add: unat_sub_u32 word_le_nat_alt)
  then have len: "unat (data_count m - e_data e - n) = unat (data_count m) - unat (e_data e) - esize e"
    using ok n by (subst unat_sub_u32) (simp_all add: word_le_nat_alt)
  have split: "take (unat (entry_count m)) (cm_entries m) = xs @ e # ys" using live by (simp add: live_def)
  have "mem_move (cm_data m) (unat (e_data e)) (unat (e_data e) + unat n) (unat (data_count m - e_data e - n)) =
      Ok (shut (cm_data m) (unat (e_data e)) (esize e) (unat (data_count m)))"
    unfolding len using ok dc n by (simp add: mem_move_def mem_load_def mem_store_def shut_def min_absorb2)
  then have "remove_data m (e_data e) n =
      Ok (map (close_gap (e_data e) n) (xs @ e # ys) @ drop (unat (entry_count m)) (cm_entries m),
        shut (cm_data m) (unat (e_data e)) (esize e) (unat (data_count m)))"
    using inv by (simp add: remove_data_def Let_def cm_inv_def word_le_nat_alt split)
  then show ?thesis using length_shut [OF ok dc] by simp
qed

text \<open>\<open>m1\<close> is \<open>m\<close> without the payload of \<open>e\<close>, its entry still in place.\<close>

definition gap_closed :: "camera_metadata \<Rightarrow> camera_metadata \<Rightarrow> buffer_entry list \<Rightarrow> buffer_entry \<Rightarrow> buffer_entry list \<Rightarrow> bool" where
  "gap_closed m m1 xs e ys \<longleftrightarrow>
     entry_count m1 = entry_count m \<and> entry_capacity m1 = entry_capacity m \<and> data_capacity m1 = data_capacity m \<and>
     cm_flags m1 = cm_flags m \<and>
     length (cm_entries m1) = length (cm_entries m) \<and> length (cm_data m1) = length (cm_data m) \<and>
     unat (data_count m1) = unat (data_count m) - esize e \<and> 8 dvd unat (data_count m1) \<and>
     (\<exists>xs' ys'. live m1 = xs' @ e # ys' \<and> length xs' = length xs \<and> entries_ok (unat (data_count m1)) (xs' @ ys') \<and>
        map (item (cm_data m1)) (xs' @ ys') = map (item (cm_data m)) (xs @ ys))"

lemma gap_closed_remove:
  assumes inv: "cm_inv m" and live: "live m = xs @ e # ys" and sz: "esize e \<noteq> 0"
    and n: "n = calculate_camera_metadata_entry_data_size (e_type e) (e_count e)"
  shows "\<exists>es d. remove_data m (e_data e) n = Ok (es, d) \<and>
    gap_closed m (m\<lparr>cm_entries := es, cm_data := d, data_count := data_count m - n\<rparr>) xs e ys"
proof -
  have un: "unat n = esize e" by (simp add: n esize_def)
  obtain d where d: "remove_data m (e_data e) n =
      Ok (map (close_gap (e_data e) n) xs @ e # map (close_gap (e_data e) n) ys @ drop (unat (entry_count m)) (cm_entries m), d)"
      "d = shut (cm_data m) (unat (e_data e)) (esize e) (unat (data_count m))" "length d = length (cm_data m)"
    using remove_data_ok [OF inv live sz un] by blast
  let ?g = "close_gap (e_data e) n"
  let ?es = "map ?g xs @ e # map ?g ys @ drop (unat (entry_count m)) (cm_entries m)"
  have ok: "entry_ok (unat (data_count m)) e" "entries_ok (unat (data_count m)) (xs @ ys)" "\<forall>f \<in> set (xs @ ys). apart e f"
    using inv by (simp_all add: cm_inv_def live entries_ok_mid)
  have dc: "unat (data_count m - n) = unat (data_count m) - esize e"
    using ok(1) sz un by (subst unat_sub_u32) (simp_all add: word_le_nat_alt entry_ok_def)
  have dvd: "8 dvd unat (data_count m) - esize e"
    using inv ok(1) esize_cases(3) [of e] by (simp add: cm_inv_def entry_ok_def dvd_diff_nat)
  have cnt: "length (map ?g xs @ e # map ?g ys) = unat (entry_count m)" using length_live [OF inv] live by simp
  then have "take (unat (entry_count m)) ?es = map ?g xs @ e # map ?g ys"
    by (metis append.assoc append_Cons append_eq_conv_conj)
  moreover have "length ?es = length (cm_entries m)"
    using cnt inv by (auto simp: cm_inv_def word_le_nat_alt)
  moreover have "entries_ok (unat (data_count m) - esize e) (map ?g xs @ map ?g ys)"
    using close_gap_entries [OF ok(1) sz un ok(2,3)] by simp
  moreover have "map (item d) (map ?g xs @ map ?g ys) = map (item (cm_data m)) (xs @ ys)"
    using close_gap_items [OF ok(1) sz un _ ok(2,3), of "cm_data m"] inv by (simp add: d(2) cm_inv_def word_le_nat_alt)
  ultimately have "gap_closed m (m\<lparr>cm_entries := ?es, cm_data := d, data_count := data_count m - n\<rparr>) xs e ys"
    using dc dvd d(3) unfolding gap_closed_def live_def
    by (intro conjI exI [of _ "map ?g xs"] exI [of _ "map ?g ys"]) simp_all
  with d(1) show ?thesis by blast
qed

lemma gap_closed_none:
  assumes "cm_inv m" and "live m = xs @ e # ys" and "esize e = 0"
  shows "gap_closed m m xs e ys"
proof -
  have "entries_ok (unat (data_count m)) (xs @ ys)" using assms by (simp add: cm_inv_def entries_ok_mid)
  then have "\<exists>xs' ys'. live m = xs' @ e # ys' \<and> length xs' = length xs \<and> entries_ok (unat (data_count m)) (xs' @ ys') \<and>
      map (item (cm_data m)) (xs' @ ys') = map (item (cm_data m)) (xs @ ys)"
    using assms(2) by blast
  then show ?thesis using assms by (simp add: gap_closed_def cm_inv_def)
qed

lemma live_split:
  assumes inv: "cm_inv m" and i: "index < unat (entry_count m)"
  obtains xs e ys where "live m = xs @ e # ys" "length xs = index" "entry_at m index = Ok e"
proof -
  have il: "index < length (live m)" using length_live [OF inv] i by simp
  have at: "entry_at m index = Ok (live m ! index)"
    using inv i by (simp add: entry_at_def live_def cm_inv_def word_le_nat_alt)
  show thesis
    by (rule that [of "take index (live m)" "live m ! index" "drop (Suc index) (live m)"])
      (use il at in \<open>simp_all add: id_take_nth_drop [symmetric] min_absorb2\<close>)
qed

text \<open>The common first half of a deletion and of an update that changes the size.\<close>

lemma gap_closed_any:
  assumes inv: "cm_inv m" and live: "live m = xs @ e # ys"
    and n: "n = calculate_camera_metadata_entry_data_size (e_type e) (e_count e)"
  shows "\<exists>m1. (if n > 0
      then obind (remove_data m (e_data e) n) (\<lambda>(es, d). Ok (m\<lparr>cm_entries := es, cm_data := d, data_count := data_count m - n\<rparr>))
      else Ok m) = Ok m1 \<and> gap_closed m m1 xs e ys"
proof (cases "esize e = 0")
  case True
  then have "n = 0" using n by (simp add: esize_def unat_eq_0)
  then show ?thesis using gap_closed_none [OF inv live True] by simp
next
  case False
  then have "n > 0" using n by (simp add: esize_def word_less_nat_alt)
  then show ?thesis using gap_closed_remove [OF inv live False n] by auto
qed

lemma shift_entries:
  assumes "take k es = xs @ e # ys" and "k \<le> length es"
  shows "\<exists>es'. mem_move es (length xs) (length xs + 1) (k - length xs - 1) = Ok es' \<and> length es' = length es \<and>
    take (k - 1) es' = xs @ ys"
proof -
  have "length (xs @ e # ys) = k" using assms by (metis length_take min_absorb2)
  then have k: "k = Suc (length xs + length ys)" by simp
  have es: "es = xs @ e # ys @ drop k es" using assms(1) append_take_drop_id [of k es] by simp
  have "mem_move (xs @ e # ys @ drop k es) (length xs) (length xs + 1) (k - length xs - 1) =
      Ok (xs @ ys @ drop (length ys) (e # ys @ drop k es))"
    using k by (simp add: mem_move_def mem_load_def mem_store_def)
  then have "mem_move es (length xs) (length xs + 1) (k - length xs - 1) = Ok (xs @ ys @ drop (length ys) (e # ys @ drop k es))"
    using es by simp
  then show ?thesis using k assms(2) by simp
qed

lemma delete_ok:
  assumes inv: "cm_inv m" and i: "index < unat (entry_count m)"
  shows "\<exists>m'. delete_camera_metadata_entry (Some m) index = Ok (CM_OK, Some m') \<and> cm_inv m' \<and>
    contents m' = take index (contents m) @ drop (Suc index) (contents m) \<and> cm_flags m' = cm_flags m"
proof -
  obtain xs e ys where live: "live m = xs @ e # ys" "length xs = index" "entry_at m index = Ok e"
    using live_split [OF assms] by blast
  obtain m1 where m1: "(if calculate_camera_metadata_entry_data_size (e_type e) (e_count e) > 0
      then obind (remove_data m (e_data e) (calculate_camera_metadata_entry_data_size (e_type e) (e_count e)))
        (\<lambda>(es, d). Ok (m\<lparr>cm_entries := es, cm_data := d,
            data_count := data_count m - calculate_camera_metadata_entry_data_size (e_type e) (e_count e)\<rparr>))
      else Ok m) = Ok m1" "gap_closed m m1 xs e ys"
    using gap_closed_any [OF inv live(1) refl] by blast
  then obtain xs' ys' where l1: "live m1 = xs' @ e # ys'" "length xs' = index" and
    ok1: "entries_ok (unat (data_count m1)) (xs' @ ys')" and
    it1: "map (item (cm_data m1)) (xs' @ ys') = map (item (cm_data m)) (xs @ ys)"
    using live(2) by (auto simp: gap_closed_def)
  let ?k = "unat (entry_count m)"
  have same: "entry_count m1 = entry_count m" "length (cm_entries m1) = unat (entry_capacity m)"
      "entry_capacity m1 = entry_capacity m" "cm_flags m1 = cm_flags m" "data_capacity m1 = data_capacity m"
      "length (cm_data m1) = unat (data_capacity m)" "8 dvd unat (data_count m1)" "unat (data_count m1) \<le> unat (data_count m)"
    using m1(2) inv by (auto simp: gap_closed_def cm_inv_def)
  have k: "?k \<le> unat (entry_capacity m)" using inv by (simp add: cm_inv_def word_le_nat_alt)
  obtain es where es: "mem_move (cm_entries m1) index (index + 1) (?k - index - 1) = Ok es"
      "length es = unat (entry_capacity m)" "take (?k - 1) es = xs' @ ys'"
    using shift_entries [of ?k "cm_entries m1" xs' e ys'] l1 same(1,2) k by (auto simp: live_def)
  let ?m = "m1\<lparr>cm_entries := es, entry_count := entry_count m1 - 1\<rparr>"
  have run: "delete_camera_metadata_entry (Some m) index = Ok (CM_OK, Some ?m)"
    using i live(3) m1(1) es(1) same(1) by (simp add: delete_camera_metadata_entry_def Let_def)
  have kc: "unat (entry_count m - 1) = ?k - 1"
    using i by (subst unat_sub_u32) (simp_all add: word_le_nat_alt)
  have lm: "live ?m = xs' @ ys'" using es(3) same(1) kc by (simp add: live_def)
  have "cm_inv ?m" unfolding cm_inv_def lm
    using same ok1 kc es k inv by (auto simp: word_le_nat_alt cm_inv_def)
  moreover have "contents ?m = take index (contents m) @ drop (Suc index) (contents m)"
    unfolding contents_def lm using it1 live by simp
  ultimately show ?thesis using run same(4) by (intro exI [of _ ?m]) simp
qed

section \<open>Updating\<close>

lemma sublist_update_mid: "length xs = i \<Longrightarrow> (xs @ e # ys)[i := f] = xs @ f # ys"
  by (simp add: list_update_append)

lemma get_entry_ok:
  assumes "cm_inv m" and "live m = xs @ e # ys"
  shows "get_camera_metadata_entry (Some m) (length xs) =
    Ok (CM_OK, Some \<lparr>me_index = length xs, me_tag = e_tag e, me_type = e_type e, me_count = e_count e,
      me_data = (if psize e > 4 then In_Data (e_data e) else In_Entry (length xs))\<rparr>)"
proof -
  have k: "length (live m) = unat (entry_count m)" by (rule length_live [OF assms(1)])
  then have i: "length xs < unat (entry_count m)" "live m ! length xs = e" using assms(2) by auto
  then have at: "entry_at m (length xs) = Ok e"
    using assms(1) by (simp add: entry_at_def live_def cm_inv_def word_le_nat_alt)
  have fit: "fits (e_type e) (e_count e)" using assms by (simp add: cm_inv_def entries_ok_mid entry_ok_def)
  then have "e_count e * camera_metadata_type_size ! unat (e_type e) > 4 \<longleftrightarrow> psize e > 4"
    by (simp add: word_less_nat_alt payload_bytes_fits psize_def)
  then show ?thesis
    using i at fit by (simp add: get_camera_metadata_entry_def type_size_at_fits fits_def)
qed

text \<open>Replacing the entry in the middle: the new packet is in order when the rest and the new entry are.\<close>

lemma replace_entry:
  assumes "live m = xs @ e # ys" and "length (cm_entries m) = unat (entry_capacity m)" and "entry_count m \<le> entry_capacity m"
    and "data_count m \<le> data_capacity m" and "length (cm_data m) = unat (data_capacity m)" and "8 dvd unat (data_count m)"
    and "entries_ok (unat (data_count m)) (xs @ ys)" and "entry_ok (unat (data_count m)) e'" and "\<forall>f \<in> set (xs @ ys). apart e' f"
    and "m' = m\<lparr>cm_entries := (cm_entries m)[length xs := e']\<rparr>"
  shows "cm_inv m'" and "live m' = xs @ e' # ys"
proof -
  have "length (xs @ e # ys) = unat (entry_count m)"
    using assms(1-3) by (metis length_take live_def min_absorb2 word_le_nat_alt)
  then have "length xs < unat (entry_count m)" by simp
  then show lm: "live m' = xs @ e' # ys"
    using assms(1) by (simp add: assms(10) live_def take_update_swap sublist_update_mid)
  then show "cm_inv m'" unfolding cm_inv_def lm entries_ok_mid using assms by simp
qed

lemma take_drop_append: "x + p \<le> length as \<Longrightarrow> take p (drop x (as @ bs)) = take p (drop x as)"
  by simp

lemma take_drop_take: "x + p \<le> k \<Longrightarrow> take p (drop x (take k d)) = take p (drop x d)"
  by (simp add: drop_take min_def)

text \<open>Storing a payload in place of another does not touch the payloads apart from it.\<close>

lemma payload_apart:
  assumes "entry_ok (length d) f" and "apart e f" and "esize e \<noteq> 0" and "length xs \<le> esize e"
    and "unat (e_data e) + esize e \<le> length d"
  shows "payload (take (unat (e_data e)) d @ xs @ drop (unat (e_data e) + length xs) d) f = payload d f"
proof (cases "psize f \<le> 4")
  case False
  have fit: "fits (e_type f) (e_count f)" using assms(1) by (simp add: entry_ok_def)
  with False have ps: "psize f \<le> esize f" "esize f \<noteq> 0" using esize_cases(2) [of f] by auto
  let ?d = "take (unat (e_data e)) d @ xs @ drop (unat (e_data e) + length xs) d"
  consider "unat (e_data f) + esize f \<le> unat (e_data e)" | "unat (e_data e) + esize e \<le> unat (e_data f)"
    using assms(2,3) ps(2) by (auto simp: apart_def)
  then have "take (psize f) (drop (unat (e_data f)) ?d) = take (psize f) (drop (unat (e_data f)) d)"
  proof cases
    case 1
    then have "take (psize f) (drop (unat (e_data f)) ?d) = take (psize f) (drop (unat (e_data f)) (take (unat (e_data e)) d))"
      using ps(1) assms(5) by (intro take_drop_append) simp
    also have "\<dots> = take (psize f) (drop (unat (e_data f)) d)" using 1 ps(1) by (intro take_drop_take) simp
    finally show ?thesis .
  next
    case 2
    then have "drop (unat (e_data f)) ?d = drop (unat (e_data f)) d"
      using assms(4,5) by (simp add: min_def)
    then show ?thesis by simp
  qed
  with False show ?thesis by (simp add: payload_def)
qed (simp add: payload_def)

lemma items_apart:
  assumes "entries_ok (unat (data_count m)) es" and "\<forall>f \<in> set es. apart e f" and "cm_inv m" and "esize e \<noteq> 0"
    and "length xs \<le> esize e" and "unat (e_data e) + esize e \<le> unat (data_count m)"
  shows "map (item (take (unat (e_data e)) (cm_data m) @ xs @ drop (unat (e_data e) + length xs) (cm_data m))) es =
    map (item (cm_data m)) es"
proof -
  have dc: "unat (data_count m) \<le> length (cm_data m)" using assms(3) by (simp add: cm_inv_def word_le_nat_alt)
  have "payload (take (unat (e_data e)) (cm_data m) @ xs @ drop (unat (e_data e) + length xs) (cm_data m)) f = payload (cm_data m) f"
    if "f \<in> set es" for f
    using that assms dc entries_ok_mono [OF assms(1) dc]
    by (intro payload_apart) (auto simp: entries_ok_def)
  then show ?thesis by (simp add: item_def)
qed

text \<open>The new entry of an update.\<close>

definition updated :: "buffer_entry \<Rightarrow> u32 \<Rightarrow> u32 \<Rightarrow> buffer_entry" where
  "updated e v n = e\<lparr>e_data := v, e_count := n\<rparr>"

lemma updated_simps [simp]:
  "e_tag (updated e v n) = e_tag e" "e_type (updated e v n) = e_type e" "e_data (updated e v n) = v"
  "e_count (updated e v n) = n" "psize (updated e v n) = unat n * tsize (e_type e)"
  "esize (updated e v n) = unat (calculate_camera_metadata_entry_data_size (e_type e) n)"
  by (simp_all add: updated_def psize_def esize_def)

text \<open>
  The three ways the payload of the entry is written: behind all others, over the old one, inside the entry. Each
  statement gives the packet and the entry that result, for a packet \<open>m1\<close> whose other entries are in order.
\<close>

definition rest_ok :: "camera_metadata \<Rightarrow> buffer_entry list \<Rightarrow> buffer_entry \<Rightarrow> buffer_entry list \<Rightarrow> bool" where
  "rest_ok m xs e ys \<longleftrightarrow> live m = xs @ e # ys \<and> length (cm_entries m) = unat (entry_capacity m) \<and>
     entry_count m \<le> entry_capacity m \<and> data_count m \<le> data_capacity m \<and> length (cm_data m) = unat (data_capacity m) \<and>
     8 dvd unat (data_count m) \<and> entries_ok (unat (data_count m)) (xs @ ys)"

lemma gap_closed_rest:
  assumes "gap_closed m m1 xs e ys" and "cm_inv m"
  obtains xs' ys' where "rest_ok m1 xs' e ys'" "length xs' = length xs"
    "map (item (cm_data m1)) (xs' @ ys') = map (item (cm_data m)) (xs @ ys)"
proof -
  obtain xs' ys' where l: "live m1 = xs' @ e # ys'" "length xs' = length xs" "entries_ok (unat (data_count m1)) (xs' @ ys')"
      "map (item (cm_data m1)) (xs' @ ys') = map (item (cm_data m)) (xs @ ys)"
    using assms(1) by (auto simp: gap_closed_def)
  moreover have "data_count m1 \<le> data_capacity m1"
    using assms by (auto simp: gap_closed_def cm_inv_def word_le_nat_alt)
  moreover have "8 dvd unat (data_count m1)" using assms(1) unfolding gap_closed_def by blast
  ultimately have "rest_ok m1 xs' e ys'" using assms by (simp add: gap_closed_def cm_inv_def rest_ok_def)
  then show thesis using l that by blast
qed

lemma write_inline:
  assumes ok: "rest_ok m xs e ys" and fit: "fits (e_type e) n" and small: "unat n * tsize (e_type e) \<le> 4"
    and v: "take (unat n * tsize (e_type e)) (le32 v) = take (unat n * tsize (e_type e)) bs"
    and m': "m' = m\<lparr>cm_entries := (cm_entries m)[length xs := updated e v n]\<rparr>"
  shows "cm_inv m'" and "live m' = xs @ updated e v n # ys"
    and "contents m' = map (item (cm_data m)) xs @ (e_tag e, e_type e, take (unat n * tsize (e_type e)) bs) # map (item (cm_data m)) ys"
proof -
  let ?e = "updated e v n"
  have z: "esize ?e = 0" using data_size_fits [OF fit] small by simp
  have e: "entry_ok (unat (data_count m)) ?e" "\<forall>f \<in> set (xs @ ys). apart ?e f"
    using fit z by (auto simp: entry_ok_def apart_def)
  show inv: "cm_inv m'" and live: "live m' = xs @ ?e # ys"
    using replace_entry [of m xs e ys ?e m'] ok e m' by (auto simp: rest_ok_def)
  show "contents m' = map (item (cm_data m)) xs @ (e_tag e, e_type e, take (unat n * tsize (e_type e)) bs) # map (item (cm_data m)) ys"
    unfolding contents_def live using small v by (simp add: m' item_def payload_def)
qed

lemma write_behind:
  assumes ok: "rest_ok m xs e ys" and fit: "fits (e_type e) n" and big: "\<not> unat n * tsize (e_type e) \<le> 4"
    and sz: "sz = calculate_camera_metadata_entry_data_size (e_type e) n"
    and room: "unat (data_count m) + unat sz \<le> unat (data_capacity m)" and len: "unat n * tsize (e_type e) \<le> length bs"
    and m': "m' = m\<lparr>cm_data := take (unat (data_count m)) (cm_data m) @ take (unat n * tsize (e_type e)) bs @
               drop (unat (data_count m) + unat n * tsize (e_type e)) (cm_data m),
             data_count := data_count m + sz,
             cm_entries := (cm_entries m)[length xs := updated e (data_count m) n]\<rparr>"
  shows "cm_inv m'" and "live m' = xs @ updated e (data_count m) n # ys"
    and "contents m' = map (item (cm_data m)) xs @ (e_tag e, e_type e, take (unat n * tsize (e_type e)) bs) # map (item (cm_data m)) ys"
    and "unat n * tsize (e_type e) \<le> unat sz"
proof -
  let ?e = "updated e (data_count m) n" and ?dc = "unat (data_count m)" and ?p = "unat n * tsize (e_type e)"
  have ps: "?p \<le> unat sz" "unat sz \<noteq> 0" "8 dvd unat sz"
    using esize_cases [of ?e] fit big by (auto simp: sz)
  then show "?p \<le> unat sz" by simp
  have dc: "unat (data_count m + sz) = ?dc + unat sz"
    using room unat_u32_less [of "data_capacity m"] by (simp add: unat_add_u32)
  have old: "entries_ok ?dc (xs @ ys)" using ok by (simp add: rest_ok_def)
  then have ap: "\<forall>f \<in> set (xs @ ys). apart ?e f" using apart_behind [of ?dc _ ?e] by (auto simp: entries_ok_def)
  have e: "entry_ok (?dc + unat sz) ?e" using fit ok sz by (simp add: entry_ok_def rest_ok_def)
  have le: "?dc + ?p \<le> length (cm_data m)" using ok room ps by (simp add: rest_ok_def)
  let ?d = "take ?dc (cm_data m) @ take ?p bs @ drop (?dc + ?p) (cm_data m)"
  let ?m = "m\<lparr>cm_data := ?d, data_count := data_count m + sz\<rparr>"
  have "entries_ok (unat (data_count ?m)) (xs @ ys)" "entry_ok (unat (data_count ?m)) ?e" "8 dvd unat (data_count ?m)"
    "data_count ?m \<le> data_capacity ?m" "length (cm_data ?m) = unat (data_capacity ?m)"
    using entries_ok_mono [OF old] e ps ok dc room le len by (auto simp: rest_ok_def word_le_nat_alt)
  then show inv: "cm_inv m'" and live: "live m' = xs @ ?e # ys"
    using replace_entry [of ?m xs e ys ?e m'] ok ap m' by (auto simp: rest_ok_def live_def)
  have "payload ?d ?e = take ?p bs"
    using payload_stored [of ?e "cm_data m" "take ?p bs"] big le len by simp
  moreover have "map (item ?d) (xs @ ys) = map (item (cm_data m)) (xs @ ys)"
    using le by (intro items_cong [OF old]) simp
  ultimately show "contents m' = map (item (cm_data m)) xs @ (e_tag e, e_type e, take ?p bs) # map (item (cm_data m)) ys"
    unfolding contents_def live by (simp add: m' item_def)
qed

lemma write_over:
  assumes inv0: "cm_inv m" and live0: "live m = xs @ e # ys" and fit: "fits (e_type e) n" and big: "\<not> unat n * tsize (e_type e) \<le> 4"
    and sz: "calculate_camera_metadata_entry_data_size (e_type e) n = calculate_camera_metadata_entry_data_size (e_type e) (e_count e)"
    and len: "unat n * tsize (e_type e) \<le> length bs"
    and m': "m' = m\<lparr>cm_data := take (unat (e_data e)) (cm_data m) @ take (unat n * tsize (e_type e)) bs @
               drop (unat (e_data e) + unat n * tsize (e_type e)) (cm_data m),
             cm_entries := (cm_entries m)[length xs := updated e (e_data e) n]\<rparr>"
  shows "cm_inv m'" and "live m' = xs @ updated e (e_data e) n # ys"
    and "contents m' = map (item (cm_data m)) xs @ (e_tag e, e_type e, take (unat n * tsize (e_type e)) bs) # map (item (cm_data m)) ys"
    and "unat (e_data e) + unat n * tsize (e_type e) \<le> length (cm_data m)"
proof -
  let ?e = "updated e (e_data e) n" and ?dc = "unat (data_count m)" and ?p = "unat n * tsize (e_type e)" and ?o = "unat (e_data e)"
  have es: "esize ?e = esize e" by (simp add: sz esize_def)
  have ps: "?p \<le> esize e" "esize e \<noteq> 0" using esize_cases(2) [of ?e] fit big es by auto
  have old: "entry_ok ?dc e" "entries_ok ?dc (xs @ ys)" "\<forall>f \<in> set (xs @ ys). apart e f"
    using inv0 by (simp_all add: cm_inv_def live0 entries_ok_mid)
  have o: "?o + esize e \<le> ?dc" "?dc \<le> length (cm_data m)"
    using old(1) ps inv0 by (auto simp: entry_ok_def cm_inv_def word_le_nat_alt)
  then show le: "?o + ?p \<le> length (cm_data m)" using ps by simp
  let ?d = "take ?o (cm_data m) @ take ?p bs @ drop (?o + ?p) (cm_data m)"
  have e: "entry_ok ?dc ?e" "\<forall>f \<in> set (xs @ ys). apart ?e f"
    using old es fit by (simp_all add: entry_ok_def apart_def)
  show inv: "cm_inv m'" and live: "live m' = xs @ ?e # ys"
    using replace_entry [of "m\<lparr>cm_data := ?d\<rparr>" xs e ys ?e m'] inv0 live0 old e m' le len
    by (auto simp: cm_inv_def live_def)
  have "payload ?d ?e = take ?p bs"
    using payload_stored [of ?e "cm_data m" "take ?p bs"] big le len by simp
  moreover have "map (item ?d) (xs @ ys) = map (item (cm_data m)) (xs @ ys)"
    using items_apart [OF old(2,3) inv0 ps(2), of "take ?p bs"] ps(1) o(1) len by simp
  ultimately show "contents m' = map (item (cm_data m)) xs @ (e_tag e, e_type e, take ?p bs) # map (item (cm_data m)) ys"
    unfolding contents_def live by (simp add: m' item_def)
qed

lemma live_nth:
  assumes "live m = xs @ e # ys"
  shows "cm_entries m ! length xs = e"
proof -
  have "length xs < length (live m)" using assms by simp
  then have "live m ! length xs = cm_entries m ! length xs" by (simp add: live_def)
  then show ?thesis using assms by simp
qed

lemma rest_ok_inv: "cm_inv m \<Longrightarrow> live m = xs @ e # ys \<Longrightarrow> rest_ok m xs e ys"
  by (simp add: cm_inv_def rest_ok_def entries_ok_mid)

text \<open>The body of an update: the packet after the first half, written to and its entry replaced.\<close>

definition update_tail :: "camera_metadata \<Rightarrow> nat \<Rightarrow> bytes \<Rightarrow> u32 \<Rightarrow> bool \<Rightarrow> u32 \<Rightarrow> u32
    \<Rightarrow> (int \<times> camera_metadata option \<times> metadata_entry option) outcome" where
  "update_tail m1 index data n moved sz data_bytes =
     (let entry1 = cm_entries m1 ! index
      in obind
           (if moved \<and> data_bytes \<noteq> 0
            then obind (mem_load data 0 (unat (n * sz)))
                   (\<lambda>xs. obind (mem_store (cm_data m1) (unat (data_count m1)) xs)
                     (\<lambda>d. Ok (entry1\<lparr>e_data := data_count m1\<rparr>, m1\<lparr>cm_data := d, data_count := data_count m1 + data_bytes\<rparr>)))
            else if \<not> moved \<and> data_bytes \<noteq> 0
            then obind (mem_load data 0 (unat (n * sz)))
                   (\<lambda>xs. obind (mem_store (cm_data m1) (unat (e_data entry1)) xs) (\<lambda>d. Ok (entry1, m1\<lparr>cm_data := d\<rparr>)))
            else obind (store_value (e_data entry1) data (unat (n * sz))) (\<lambda>v. Ok (entry1\<lparr>e_data := v\<rparr>, m1)))
           (\<lambda>(entry2, m2).
              let m3 = m2\<lparr>cm_entries := (cm_entries m2)[index := entry2\<lparr>e_count := n\<rparr>]\<rparr>
              in obind (get_camera_metadata_entry (Some m3) index) (\<lambda>(_, updated). Ok (CM_OK, Some m3, updated))))"

lemma update_tail_inline:
  assumes ok: "rest_ok m xs e ys" and fit: "fits (e_type e) n" and small: "unat n * tsize (e_type e) \<le> 4"
    and len: "unat n * tsize (e_type e) \<le> length bs"
  shows "\<exists>m' u. update_tail m (length xs) bs n mv (camera_metadata_type_size ! unat (e_type e))
      (calculate_camera_metadata_entry_data_size (e_type e) n) = Ok (CM_OK, Some m', Some u) \<and> cm_inv m' \<and>
    contents m' = map (item (cm_data m)) xs @ (e_tag e, e_type e, take (unat n * tsize (e_type e)) bs) # map (item (cm_data m)) ys \<and>
    cm_flags m' = cm_flags m"
proof -
  obtain v where v: "store_value (e_data e) bs (unat n * tsize (e_type e)) = Ok v"
      "take (unat n * tsize (e_type e)) (le32 v) = take (unat n * tsize (e_type e)) bs"
    using store_value_Ok [OF len small] by blast
  let ?m = "m\<lparr>cm_entries := (cm_entries m)[length xs := updated e v n]\<rparr>"
  note w = write_inline [OF ok fit small v(2) refl]
  have z: "calculate_camera_metadata_entry_data_size (e_type e) n = 0"
    using data_size_fits [OF fit] small by (simp add: unat_eq_0)
  have nth: "cm_entries m ! length xs = e" using ok live_nth by (simp add: rest_ok_def)
  show ?thesis
    using w get_entry_ok [OF w(1,2)] v(1) by (simp add: update_tail_def nth payload_bytes_fits [OF fit] z updated_def Let_def)
qed

lemma update_tail_behind:
  assumes ok: "rest_ok m xs e ys" and fit: "fits (e_type e) n" and big: "\<not> unat n * tsize (e_type e) \<le> 4"
    and room: "unat (data_count m) + unat (calculate_camera_metadata_entry_data_size (e_type e) n) \<le> unat (data_capacity m)"
    and len: "unat n * tsize (e_type e) \<le> length bs"
  shows "\<exists>m' u. update_tail m (length xs) bs n True (camera_metadata_type_size ! unat (e_type e))
      (calculate_camera_metadata_entry_data_size (e_type e) n) = Ok (CM_OK, Some m', Some u) \<and> cm_inv m' \<and>
    contents m' = map (item (cm_data m)) xs @ (e_tag e, e_type e, take (unat n * tsize (e_type e)) bs) # map (item (cm_data m)) ys \<and>
    cm_flags m' = cm_flags m"
proof -
  note w = write_behind [OF ok fit big refl room len refl]
  have nz: "calculate_camera_metadata_entry_data_size (e_type e) n \<noteq> 0" using w(4) big by auto
  have nth: "cm_entries m ! length xs = e" using ok live_nth by (simp add: rest_ok_def)
  have le: "unat (data_count m) + unat n * tsize (e_type e) \<le> length (cm_data m)" using w(4) room ok by (simp add: rest_ok_def)
  show ?thesis
    using w get_entry_ok [OF w(1,2)] len le
    by (simp add: update_tail_def nth payload_bytes_fits [OF fit] nz updated_def Let_def mem_load_def mem_store_def min_absorb2)
qed

lemma update_tail_over:
  assumes inv: "cm_inv m" and live: "live m = xs @ e # ys" and fit: "fits (e_type e) n" and big: "\<not> unat n * tsize (e_type e) \<le> 4"
    and sz: "calculate_camera_metadata_entry_data_size (e_type e) n = calculate_camera_metadata_entry_data_size (e_type e) (e_count e)"
    and len: "unat n * tsize (e_type e) \<le> length bs"
  shows "\<exists>m' u. update_tail m (length xs) bs n False (camera_metadata_type_size ! unat (e_type e))
      (calculate_camera_metadata_entry_data_size (e_type e) n) = Ok (CM_OK, Some m', Some u) \<and> cm_inv m' \<and>
    contents m' = map (item (cm_data m)) xs @ (e_tag e, e_type e, take (unat n * tsize (e_type e)) bs) # map (item (cm_data m)) ys \<and>
    cm_flags m' = cm_flags m"
proof -
  note w = write_over [OF inv live fit big sz len refl]
  have nz: "calculate_camera_metadata_entry_data_size (e_type e) n \<noteq> 0"
    using esize_cases(2) [of "updated e 0 n"] fit big by auto
  have nth: "cm_entries m ! length xs = e" by (rule live_nth [OF live])
  show ?thesis
    using w get_entry_ok [OF w(1,2)] len
    by (simp add: update_tail_def nth payload_bytes_fits [OF fit] nz updated_def Let_def mem_load_def mem_store_def min_absorb2)
qed

lemma update_unfold:
  assumes "index < unat (entry_count m)" and "entry_at m index = Ok e" and "unat (e_type e) < 6"
    and "db = calculate_camera_metadata_entry_data_size (e_type e) n"
    and "eb = calculate_camera_metadata_entry_data_size (e_type e) (e_count e)"
    and "\<not> (db \<noteq> eb \<and> data_capacity m < data_count m + db - eb)"
  shows "update_camera_metadata_entry (Some m) index bs n =
    obind (if db \<noteq> eb \<and> eb \<noteq> 0
           then obind (remove_data m (e_data e) eb) (\<lambda>(es, d). Ok (m\<lparr>cm_entries := es, cm_data := d, data_count := data_count m - eb\<rparr>))
           else Ok m)
      (\<lambda>m1. update_tail m1 index bs n (db \<noteq> eb) (camera_metadata_type_size ! unat (e_type e)) db)"
  using assms(1-3) assms(6)
  by (cases "db = eb")
    (simp_all add: update_camera_metadata_entry_def update_tail_def type_size_at_fits Let_def flip: assms(4,5) cong del: if_weak_cong)

lemma update_room:
  assumes inv: "cm_inv m" and live: "live m = xs @ e # ys"
    and eb: "eb = calculate_camera_metadata_entry_data_size (e_type e) (e_count e)"
    and room: "unat (data_count m) + unat db \<le> unat (data_capacity m) + esize e"
  shows "\<not> data_capacity m < data_count m + db - eb" and "unat (data_count m) - esize e + unat db \<le> unat (data_capacity m)"
proof -
  have le: "unat eb = esize e" "eb \<le> data_count m"
    using inv by (auto simp: eb esize_def cm_inv_def live entries_ok_mid entry_ok_def word_le_nat_alt)
  have "unat (data_count m - eb) = unat (data_count m) - esize e" using le by (simp add: unat_sub_u32)
  moreover show r: "unat (data_count m) - esize e + unat db \<le> unat (data_capacity m)"
    using room le by (simp add: word_le_nat_alt)
  ultimately have "unat (data_count m - eb + db) \<le> unat (data_capacity m)"
    using unat_u32_less [of "data_capacity m"] by (simp add: unat_add_u32)
  then show "\<not> data_capacity m < data_count m + db - eb"
    by (simp add: word_less_nat_alt diff_add_eq)
qed

lemma update_same_size:
  assumes inv: "cm_inv m" and live: "live m = xs @ e # ys" and fit: "fits (e_type e) n" and len: "unat n * tsize (e_type e) \<le> length bs"
    and sz: "calculate_camera_metadata_entry_data_size (e_type e) n = calculate_camera_metadata_entry_data_size (e_type e) (e_count e)"
  shows "\<exists>m' u. update_tail m (length xs) bs n False (camera_metadata_type_size ! unat (e_type e))
      (calculate_camera_metadata_entry_data_size (e_type e) n) = Ok (CM_OK, Some m', Some u) \<and> cm_inv m' \<and>
    contents m' = map (item (cm_data m)) xs @ (e_tag e, e_type e, take (unat n * tsize (e_type e)) bs) # map (item (cm_data m)) ys \<and>
    cm_flags m' = cm_flags m"
  using update_tail_inline [OF rest_ok_inv [OF inv live] fit _ len] update_tail_over [OF inv live fit _ sz len] by blast

lemma update_new_size:
  assumes inv: "cm_inv m" and live: "live m = xs @ e # ys" and fit: "fits (e_type e) n" and len: "unat n * tsize (e_type e) \<le> length bs"
    and gap: "gap_closed m m1 xs e ys"
    and room: "unat (data_count m) - esize e + unat (calculate_camera_metadata_entry_data_size (e_type e) n) \<le> unat (data_capacity m)"
  shows "\<exists>m' u. update_tail m1 (length xs) bs n True (camera_metadata_type_size ! unat (e_type e))
      (calculate_camera_metadata_entry_data_size (e_type e) n) = Ok (CM_OK, Some m', Some u) \<and> cm_inv m' \<and>
    contents m' = map (item (cm_data m)) xs @ (e_tag e, e_type e, take (unat n * tsize (e_type e)) bs) # map (item (cm_data m)) ys \<and>
    cm_flags m' = cm_flags m"
proof -
  obtain xs' ys' where r: "rest_ok m1 xs' e ys'" "length xs' = length xs"
    "map (item (cm_data m1)) (xs' @ ys') = map (item (cm_data m)) (xs @ ys)"
    using gap_closed_rest [OF gap inv] by blast
  have its: "map (item (cm_data m1)) xs' = map (item (cm_data m)) xs" "map (item (cm_data m1)) ys' = map (item (cm_data m)) ys"
    using r(2,3) by simp_all
  have m1: "unat (data_count m1) = unat (data_count m) - esize e" "data_capacity m1 = data_capacity m" "cm_flags m1 = cm_flags m"
    using gap by (simp_all add: gap_closed_def)
  then have "unat (data_count m1) + unat (calculate_camera_metadata_entry_data_size (e_type e) n) \<le> unat (data_capacity m1)"
    using room by simp
  then show ?thesis
    using update_tail_inline [OF r(1) fit _ len, of True] update_tail_behind [OF r(1) fit _ _ len] m1(3)
    unfolding r(2) its by (cases "unat n * tsize (e_type e) \<le> 4") simp_all
qed

lemma update_ok:
  assumes inv: "cm_inv m" and live: "live m = xs @ e # ys" "length xs = index"
    and fit: "fits (e_type e) n" and len: "unat n * tsize (e_type e) \<le> length bs"
    and room: "unat (data_count m) + unat (calculate_camera_metadata_entry_data_size (e_type e) n) \<le> unat (data_capacity m) + esize e"
  shows "\<exists>m' u. update_camera_metadata_entry (Some m) index bs n = Ok (CM_OK, Some m', Some u) \<and> cm_inv m' \<and>
    contents m' = (contents m)[index := (e_tag e, e_type e, take (unat n * tsize (e_type e)) bs)] \<and> cm_flags m' = cm_flags m"
proof -
  define db where "db = calculate_camera_metadata_entry_data_size (e_type e) n"
  define eb where "eb = calculate_camera_metadata_entry_data_size (e_type e) (e_count e)"
  let ?new = "(e_tag e, e_type e, take (unat n * tsize (e_type e)) bs)"
  have upd: "(contents m)[index := ?new] = map (item (cm_data m)) xs @ ?new # map (item (cm_data m)) ys"
    using live by (simp add: contents_def sublist_update_mid)
  have i: "index < unat (entry_count m)" using length_live [OF inv] live by simp
  then have at: "entry_at m index = Ok e"
    using live_nth [OF live(1)] live(2) inv by (simp add: entry_at_def cm_inv_def word_le_nat_alt)
  note cap = update_room [OF inv live(1) eb_def, of db]
  have run: "update_camera_metadata_entry (Some m) index bs n =
    obind (if db \<noteq> eb \<and> eb \<noteq> 0
           then obind (remove_data m (e_data e) eb) (\<lambda>(es, d). Ok (m\<lparr>cm_entries := es, cm_data := d, data_count := data_count m - eb\<rparr>))
           else Ok m)
      (\<lambda>m1. update_tail m1 index bs n (db \<noteq> eb) (camera_metadata_type_size ! unat (e_type e)) db)"
    using fit cap(1) room by (intro update_unfold [OF i at _ db_def eb_def]) (simp_all add: fits_def db_def)
  show ?thesis
  proof (cases "db = eb")
    case True
    then show ?thesis
      using update_same_size [OF inv live(1) fit len] by (simp add: run upd live(2) flip: db_def eb_def)
  next
    case False
    obtain m1 where m1: "(if eb > 0
        then obind (remove_data m (e_data e) eb) (\<lambda>(es, d). Ok (m\<lparr>cm_entries := es, cm_data := d, data_count := data_count m - eb\<rparr>))
        else Ok m) = Ok m1" "gap_closed m m1 xs e ys"
      using gap_closed_any [OF inv live(1) eb_def] by blast
    have "update_camera_metadata_entry (Some m) index bs n =
        update_tail m1 index bs n True (camera_metadata_type_size ! unat (e_type e)) db"
      using m1(1) False run by (simp add: word_neq_0_conv)
    then show ?thesis
      using update_new_size [OF inv live(1) fit len m1(2)] cap(2) room by (simp add: upd live(2) flip: db_def)
  qed
qed

end
