(* ===== verification/Camera_Metadata_Ops.thy ===== *)
theory Camera_Metadata_Ops
  imports Camera_Metadata_Props
begin

text \<open>
  Packets as wholes: placing and allocating, appending and cloning, sorting and searching, validation, and the tag
  tables. Each operation is described by what it does to the contents of a packet.
\<close>

section \<open>Placing\<close>

definition packet_bytes :: "nat \<Rightarrow> nat \<Rightarrow> nat" where
  "packet_bytes ec dc = align_up (40 + 16 * ec) 8 + dc"

lemma ALIGN_TO_header [simp]: "ALIGN_TO 40 4 = 40"
  by (simp add: ALIGN_TO_def)

lemma entries_end_aligned: "align_up (40 + 16 * ec) 8 = 40 + 16 * ec"
proof -
  have "40 + 16 * ec = (5 + 2 * ec) * 8" by simp
  then show ?thesis by (metis align_up_multiple zero_less_numeral)
qed

lemma calculate_size_exact:
  assumes "48 + 16 * unat ec + unat dc \<le> 2 ^ 32"
  shows "unat (calculate_camera_metadata_size ec dc) = packet_bytes (unat ec) (unat dc)"
    and "unat (ALIGN_TO (40 + 16 * ec) 8) = 40 + 16 * unat ec"
proof -
  have m: "unat (16 * ec) = 16 * unat ec" using assms by (subst unat_mult_u32) simp_all
  then have a: "unat (40 + 16 * ec) = 40 + 16 * unat ec" using assms by (subst unat_add_u32) simp_all
  then show b: "unat (ALIGN_TO (40 + 16 * ec) 8) = 40 + 16 * unat ec"
    using assms by (simp add: unat_ALIGN_TO_8 entries_end_aligned)
  show "unat (calculate_camera_metadata_size ec dc) = packet_bytes (unat ec) (unat dc)"
    using assms b by (simp add: calculate_camera_metadata_size_def unat_add_u32 packet_bytes_def entries_end_aligned)
qed

lemma place_ok:
  assumes fit: "48 + 16 * unat ec + unat dc \<le> 2 ^ 32" and ec: "ec \<noteq> 0"
    and size: "packet_bytes (unat ec) (unat dc) \<le> unat sz"
  shows "\<exists>m. place_camera_metadata (Some raw) sz ec dc = Some m \<and> cm_inv m \<and> contents m = [] \<and> entry_count m = 0 \<and>
    data_count m = 0 \<and> entry_capacity m = ec \<and> data_capacity m = dc \<and> cm_flags m = 0 \<and> cm_addr m = raw_addr raw \<and>
    cm_size m = calculate_camera_metadata_size ec dc \<and> entries_start m = 40 \<and> data_start m = ALIGN_TO (40 + 16 * ec) 8"
proof -
  note cs = calculate_size_exact [OF fit]
  have "\<not> sz < calculate_camera_metadata_size ec dc" using size cs(1) by (simp add: word_less_nat_alt)
  moreover have "min (unat ec) ((unat sz - 40) div 16) = unat ec"
    using size by (simp add: packet_bytes_def entries_end_aligned)
  moreover have "min (unat dc) (unat sz - unat (ALIGN_TO (40 + 16 * ec) 8)) = unat dc"
    using size cs(2) by (simp add: packet_bytes_def entries_end_aligned)
  ultimately show ?thesis
    using ec by (simp add: place_camera_metadata_def Let_def cm_inv_def contents_def live_def entries_ok_def)
qed

section \<open>Appending\<close>

lemma shift_simps [simp]:
  "e_tag (shift_offset k e) = e_tag e" "e_type (shift_offset k e) = e_type e" "e_count (shift_offset k e) = e_count e"
  "psize (shift_offset k e) = psize e" "esize (shift_offset k e) = esize e"
  by (simp_all add: shift_offset_def psize_def esize_def)

lemma shift_zero [simp]: "shift_offset 0 e = e"
  by (simp add: shift_offset_def)

lemma shift_data:
  assumes "entry_ok dc e" and "unat k + dc < 2 ^ 32"
  shows "unat (e_data (shift_offset k e)) = (if esize e = 0 then unat (e_data e) else unat (e_data e) + unat k)"
  using assms by (auto simp: shift_offset_def esize_def entry_ok_def word_less_nat_alt unat_add_u32)

lemma shift_data_same:
  assumes "esize e = 0"
  shows "shift_offset k e = e"
  using assms by (simp add: shift_offset_def esize_def unat_eq_0)

lemma shift_ok:
  assumes "entry_ok dc e" and "unat k + dc < 2 ^ 32" and "8 dvd unat k"
  shows "entry_ok (unat k + dc) (shift_offset k e)"
  using assms shift_data [OF assms(1,2)] by (auto simp: entry_ok_def)

lemma shift_entries_ok:
  assumes "entries_ok dc es" and "unat k + dc < 2 ^ 32" and "8 dvd unat k"
  shows "entries_ok (unat k + dc) (map (shift_offset k) es)"
proof -
  have "sorted_wrt (\<lambda>f h. apart (shift_offset k f) (shift_offset k h)) es"
    by (rule sorted_wrt_mono_rel [of _ apart])
      (use assms shift_data [of dc _ k] in \<open>auto simp: entries_ok_def apart_def\<close>)
  then show ?thesis using assms shift_ok [of dc _ k] by (auto simp: entries_ok_def sorted_wrt_map)
qed

lemma entries_ok_append:
  assumes "entries_ok dc es" and "entries_ok dc fs" and "\<forall>e \<in> set es. \<forall>f \<in> set fs. apart e f"
  shows "entries_ok dc (es @ fs)"
  using assms by (auto simp: entries_ok_def sorted_wrt_append)

lemma shift_behind:
  assumes "entry_ok (unat k) e" and "entry_ok dc f" and "unat k + dc < 2 ^ 32"
  shows "apart e (shift_offset k f)"
  using assms shift_data [OF assms(2,3)] by (auto simp: apart_def entry_ok_def)

lemma shift_payload:
  assumes "entry_ok dc e" and "unat k + dc < 2 ^ 32" and "length a = unat k" and "dc \<le> length b"
  shows "payload (a @ b @ c) (shift_offset k e) = payload b e"
proof (cases "psize e \<le> 4")
  case True
  have "esize e = 0" using assms(1) True esize_cases(1) by (simp add: entry_ok_def)
  then show ?thesis using True by (simp add: payload_def shift_data_same)
next
  case False
  have fit: "fits (e_type e) (e_count e)" using assms(1) by (simp add: entry_ok_def)
  then have ps: "psize e \<le> esize e" "esize e \<noteq> 0" using False esize_cases(2) by auto
  moreover have "unat (e_data e) + esize e \<le> dc" using assms(1) ps by (simp add: entry_ok_def)
  ultimately show ?thesis
    using False assms(3,4) shift_data [OF assms(1,2)] by (simp add: payload_def)
qed

lemma live_append:
  assumes "take k es = xs" and "k \<le> length es" and "k + length ys \<le> length es"
  shows "take (k + length ys) (take k es @ ys @ drop (k + length ys) es) = xs @ ys"
proof -
  have "length xs = k" using assms(1,2) by auto
  then show ?thesis by (simp add: assms(1))
qed

definition append_room :: "camera_metadata \<Rightarrow> camera_metadata \<Rightarrow> bool" where
  "append_room d s \<longleftrightarrow> unat (entry_count s) + unat (entry_count d) \<le> unat (entry_capacity d) \<and>
     unat (data_count s) + unat (data_count d) \<le> unat (data_capacity d)"

lemma append_ok:
  assumes d: "cm_inv d" and s: "cm_inv s" and room: "append_room d s"
  shows "\<exists>m'. append_camera_metadata (Some d) (Some s) = Ok (CM_OK, Some m') \<and> cm_inv m' \<and>
    contents m' = contents d @ contents s \<and>
    cm_flags m' = (if entry_count d = 0 then cm_flags d OR (cm_flags s AND FLAG_SORTED)
                   else if entry_count s \<noteq> 0 then cm_flags d AND NOT FLAG_SORTED else cm_flags d) \<and>
    live m' = live d @ map (shift_offset (data_count d)) (live s) \<and>
    entry_capacity m' = entry_capacity d \<and> data_capacity m' = data_capacity d"
proof -
  let ?dc = "unat (data_count d)" and ?ec = "unat (entry_count d)" and ?dcs = "unat (data_count s)" and ?ecs = "unat (entry_count s)"
  let ?ys = "map (shift_offset (data_count d)) (live s)" and ?b = "take ?dcs (cm_data s)"
  let ?es = "take ?ec (cm_entries d) @ ?ys @ drop (?ec + ?ecs) (cm_entries d)"
  let ?da = "take ?dc (cm_data d) @ ?b @ drop (?dc + ?dcs) (cm_data d)"
  define m' where "m' = d\<lparr>cm_flags := (if entry_count d = 0 then cm_flags d OR (cm_flags s AND FLAG_SORTED)
                   else if entry_count s \<noteq> 0 then cm_flags d AND NOT FLAG_SORTED else cm_flags d),
       entry_count := entry_count d + entry_count s, data_count := data_count d + data_count s,
       cm_entries := ?es, cm_data := ?da\<rparr>"
  have lens: "length (cm_entries d) = unat (entry_capacity d)" "length (cm_data d) = unat (data_capacity d)"
    "?ecs \<le> length (cm_entries s)" "?dcs \<le> length (cm_data s)" "length (live s) = ?ecs"
    using d s length_live [OF s] by (simp_all add: cm_inv_def word_le_nat_alt)
  have sums: "unat (entry_count d + entry_count s) = ?ec + ?ecs" "unat (data_count d + data_count s) = ?dc + ?dcs" "?dc + ?dcs < 2 ^ 32"
    using room unat_u32_less [of "entry_capacity d"] unat_u32_less [of "data_capacity d"]
    by (simp_all add: append_room_def unat_add_u32)
  have ys: "(if data_count d \<noteq> 0 then map (shift_offset (data_count d)) (live s) else live s) = ?ys"
    by (simp add: map_idI)
  have run: "append_camera_metadata (Some d) (Some s) = Ok (CM_OK, Some m')"
    using room lens sums ys
    by (simp add: append_camera_metadata_def append_room_def mem_load_def mem_store_def word_less_nat_alt m'_def
        live_def add.commute [of "entry_count s"] add.commute [of "data_count s"] cong del: if_weak_cong)
  have live: "live m' = live d @ ?ys"
    using live_append [of ?ec "cm_entries d" "live d" ?ys] lens room sums(1) by (simp add: m'_def live_def append_room_def)
  have oks: "entries_ok ?dc (live d)" "entries_ok ?dcs (live s)" "8 dvd ?dc" "8 dvd ?dcs"
    using d s by (simp_all add: cm_inv_def)
  have "entries_ok (?dc + ?dcs) (live m')"
    unfolding live using entries_ok_mono [OF oks(1)] shift_entries_ok [OF oks(2) sums(3) oks(3)] oks(1,2) sums(3) shift_behind
    by (intro entries_ok_append) (auto simp: entries_ok_def)
  then have "cm_inv m'"
    using room lens sums oks unfolding cm_inv_def by (simp add: m'_def append_room_def word_le_nat_alt)
  moreover have "contents m' = contents d @ contents s"
  proof -
    have "map (item ?da) (live d) = map (item (cm_data d)) (live d)"
      using lens room by (intro items_cong [OF oks(1)]) (simp add: append_room_def)
    moreover have "map (item ?da) ?ys = map (item ?b) (live s)"
      using shift_payload [of ?dcs _ "data_count d" "take ?dc (cm_data d)" ?b] oks(2) sums(3) lens room
      by (auto simp: item_def entries_ok_def append_room_def)
    moreover have "map (item ?b) (live s) = map (item (cm_data s)) (live s)" by (intro items_cong [OF oks(2)]) simp
    ultimately show ?thesis unfolding contents_def live by (simp add: m'_def)
  qed
  ultimately show ?thesis using run live by (intro exI [of _ m']) (simp add: m'_def)
qed

section \<open>Cloning and copying\<close>

lemma clone_ok:
  assumes s: "cm_inv s" and ne: "entry_count s \<noteq> 0" and fit: "48 + 16 * unat (entry_count s) + unat (data_count s) \<le> 2 ^ 32"
  shows "\<exists>c. clone_camera_metadata (Some raw) (Some s) = Ok (Some c) \<and> cm_inv c \<and> contents c = contents s \<and>
    entry_capacity c = entry_count s \<and> data_capacity c = data_count s"
proof -
  let ?sz = "calculate_camera_metadata_size (entry_count s) (data_count s)"
  obtain m where m: "place_camera_metadata (Some raw) ?sz (entry_count s) (data_count s) = Some m"
      "cm_inv m" "contents m = []" "entry_count m = 0" "data_count m = 0" "entry_capacity m = entry_count s" "data_capacity m = data_count s"
    using place_ok [OF fit ne, of ?sz] calculate_size_exact(1) [OF fit] by auto
  have "append_room m s" using m by (simp add: append_room_def)
  then obtain c where c: "append_camera_metadata (Some m) (Some s) = Ok (CM_OK, Some c)" "cm_inv c" "contents c = contents m @ contents s"
      "entry_capacity c = entry_capacity m" "data_capacity c = data_capacity m"
    using append_ok [OF m(2) s] by blast
  then show ?thesis
    using c m ne by (intro exI [of _ c]) (simp add: clone_camera_metadata_def allocate_camera_metadata_def)
qed

lemma copy_ok:
  assumes s: "cm_inv s" and ne: "entry_count s \<noteq> 0" and fit: "48 + 16 * unat (entry_count s) + unat (data_count s) \<le> 2 ^ 32"
    and size: "packet_bytes (unat (entry_count s)) (unat (data_count s)) \<le> unat sz"
  shows "\<exists>c. copy_camera_metadata (Some raw) sz s = Ok (Some c) \<and> cm_inv c \<and> contents c = contents s \<and> cm_flags c = cm_flags s"
proof -
  obtain m where m: "place_camera_metadata (Some raw) sz (entry_count s) (data_count s) = Some m"
      "cm_inv m" "entry_capacity m = entry_count s" "data_capacity m = data_count s"
    using place_ok [OF fit ne size] by blast
  have lens: "unat (entry_count s) \<le> length (cm_entries s)" "unat (data_count s) \<le> length (cm_data s)"
      "length (cm_entries m) = unat (entry_count s)" "length (cm_data m) = unat (data_count s)"
    using s m by (simp_all add: cm_inv_def word_le_nat_alt)
  let ?c = "m\<lparr>cm_flags := cm_flags s, entry_count := entry_count s, data_count := data_count s,
      cm_entries := live s, cm_data := take (unat (data_count s)) (cm_data s), cm_user := None\<rparr>"
  have run: "copy_camera_metadata (Some raw) sz s = Ok (Some ?c)"
    using m(1) lens size calculate_size_exact(1) [OF fit]
    by (simp add: copy_camera_metadata_def get_camera_metadata_compact_size_def word_less_nat_alt mem_load_def mem_store_def live_def)
  have ok: "entries_ok (unat (data_count s)) (live s)" using s by (simp add: cm_inv_def)
  have live: "live ?c = live s" by (simp add: live_def)
  have "cm_inv ?c" unfolding cm_inv_def live using s m lens ok by (simp add: cm_inv_def length_live [OF s])
  moreover have "contents ?c = contents s"
    unfolding contents_def live using items_cong [OF ok, of "take (unat (data_count s)) (cm_data s)" "cm_data s"] by simp
  ultimately show ?thesis using run by (intro exI [of _ ?c]) simp
qed

section \<open>Sorting and searching\<close>

text \<open>The contracts of \<open>qsort\<close> and \<open>bsearch\<close> for the order on tags.\<close>

definition qsort_sorts :: "qsort_fun \<Rightarrow> bool" where
  "qsort_sorts q \<longleftrightarrow> (\<forall>es. mset (q compare_entry_tags es) = mset es \<and> sorted_wrt (\<lambda>a b. compare_entry_tags a b \<le> 0) (q compare_entry_tags es))"

definition bsearch_finds :: "bsearch_fun \<Rightarrow> bool" where
  "bsearch_finds b \<longleftrightarrow> (\<forall>es key. sorted_wrt (\<lambda>x y. compare_entry_tags x y \<le> 0) es \<longrightarrow>
     (case b compare_entry_tags key es of
        None \<Rightarrow> \<forall>e \<in> set es. compare_entry_tags key e \<noteq> 0
      | Some i \<Rightarrow> i < length es \<and> compare_entry_tags key (es ! i) = 0))"

definition tag_sorted :: "buffer_entry list \<Rightarrow> bool" where
  "tag_sorted es \<longleftrightarrow> sorted_wrt (\<lambda>a b. compare_entry_tags a b \<le> 0) es"

text \<open>The flag tells the truth: a packet marked sorted is.\<close>

definition flag_ok :: "camera_metadata \<Rightarrow> bool" where
  "flag_ok m \<longleftrightarrow> (cm_flags m AND FLAG_SORTED \<noteq> 0 \<longrightarrow> tag_sorted (live m))"

lemma compare_le: "compare_entry_tags a b \<le> 0 \<longleftrightarrow> e_tag a \<le> e_tag b"
  by (auto simp: compare_entry_tags_def)

lemma compare_eq: "compare_entry_tags a b = 0 \<longleftrightarrow> e_tag a = e_tag b"
  by (auto simp: compare_entry_tags_def)

lemma tag_sorted_tags: "tag_sorted es \<longleftrightarrow> sorted (map e_tag es)"
  by (simp add: tag_sorted_def compare_le sorted_map)

lemma tags_contents: "map fst (contents m) = map e_tag (live m)"
  by (simp add: contents_def item_def)

lemma flag_or: "(w OR 1 :: u32) AND 1 \<noteq> 0"
proof
  assume "(w OR 1) AND 1 = 0"
  then have "\<not> bit ((w OR 1) AND 1) 0" by simp
  then show False unfolding bit_and_iff bit_or_iff by simp
qed

lemma sort_ok:
  assumes inv: "cm_inv m" and flag: "flag_ok m" and q: "qsort_sorts q"
  shows "\<exists>m'. sort_camera_metadata q (Some m) = Ok (CM_OK, Some m') \<and> cm_inv m' \<and> flag_ok m' \<and>
    mset (contents m') = mset (contents m) \<and> sorted (map fst (contents m')) \<and> cm_flags m' AND FLAG_SORTED \<noteq> 0"
proof (cases "cm_flags m AND FLAG_SORTED \<noteq> 0")
  case True
  then show ?thesis using inv flag
    by (intro exI [of _ m]) (simp add: sort_camera_metadata_def flag_ok_def tag_sorted_tags tags_contents)
next
  case False
  let ?es = "q compare_entry_tags (live m)"
  have q': "mset ?es = mset (live m)" "tag_sorted ?es" using q by (simp_all add: qsort_sorts_def tag_sorted_def)
  then have len: "length ?es = unat (entry_count m)" using length_live [OF inv] by (metis size_mset)
  let ?k = "unat (entry_count m)"
  let ?m = "m\<lparr>cm_entries := ?es @ drop ?k (cm_entries m), cm_flags := cm_flags m OR FLAG_SORTED\<rparr>"
  have k: "?k \<le> length (cm_entries m)" using inv by (simp add: cm_inv_def word_le_nat_alt)
  have run: "sort_camera_metadata q (Some m) = Ok (CM_OK, Some ?m)"
    using False k len by (simp add: sort_camera_metadata_def mem_load_def mem_store_def live_def)
  have live: "live ?m = ?es" using len by (simp add: live_def)
  have "cm_inv ?m" unfolding cm_inv_def live
    using inv k len entries_ok_perm [OF _ q'(1)] by (simp add: cm_inv_def)
  moreover have "mset (contents ?m) = mset (contents m)"
    using q'(1) unfolding contents_def live by simp
  moreover have "sorted (map fst (contents ?m))" using q'(2) unfolding tags_contents live tag_sorted_tags .
  moreover have "flag_ok ?m" using q'(2) unfolding flag_ok_def live by simp
  ultimately show ?thesis using run flag_or by (intro exI [of _ ?m]) simp
qed

lemma linear_search_spec:
  "linear_search es tag i = i + length (takeWhile (\<lambda>e. e_tag e \<noteq> tag) es)"
  by (induction es arbitrary: i) simp_all

text \<open>What a search reports: an entry with the tag, or that there is none.\<close>

definition found :: "camera_metadata \<Rightarrow> u32 \<Rightarrow> int \<times> metadata_entry option \<Rightarrow> bool" where
  "found m tag r \<longleftrightarrow>
     (case r of
        (rc, None) \<Rightarrow> rc = NOT_FOUND \<and> tag \<notin> fst ` set (contents m)
      | (rc, Some x) \<Rightarrow> rc = CM_OK \<and> me_tag x = tag \<and> me_index x < length (contents m) \<and>
          fst (contents m ! me_index x) = tag \<and> me_type x = fst (snd (contents m ! me_index x)))"

lemma get_entry_found:
  assumes inv: "cm_inv m" and i: "i < unat (entry_count m)" and tag: "e_tag (live m ! i) = tag"
  shows "\<exists>r. get_camera_metadata_entry (Some m) i = Ok r \<and> found m tag r"
proof -
  obtain xs e ys where s: "live m = xs @ e # ys" "length xs = i" using live_split [OF inv i] by blast
  have c: "contents m ! i = item (cm_data m) e" using s by (simp add: contents_def nth_append)
  show ?thesis
    using get_entry_ok [OF inv s(1)] s tag length_contents [OF inv] i
    by (simp add: found_def c item_def nth_append)
qed

lemma find_ok:
  assumes inv: "cm_inv m" and flag: "flag_ok m" and b: "bsearch_finds b"
  shows "\<exists>r. find_camera_metadata_entry b (Some m) tag = Ok r \<and> found m tag r"
proof -
  let ?k = "unat (entry_count m)"
  have k: "?k \<le> length (cm_entries m)" "length (live m) = ?k" using inv length_live [OF inv] by (simp_all add: cm_inv_def word_le_nat_alt)
  have load: "mem_load (cm_entries m) 0 ?k = Ok (live m)" using k by (simp add: mem_load_def live_def)
  have none: "found m tag (NOT_FOUND, None)" if "\<forall>e \<in> set (live m). e_tag e \<noteq> tag"
    using that by (auto simp: found_def contents_def item_def)
  show ?thesis
  proof (cases "cm_flags m AND FLAG_SORTED = 0")
    case True
    let ?p = "\<lambda>e. e_tag e \<noteq> tag"
    let ?i = "length (takeWhile ?p (live m))"
    show ?thesis
    proof (cases "?i = ?k")
      case all: True
      then have "\<forall>e \<in> set (live m). e_tag e \<noteq> tag" using k takeWhile_eq_take [of ?p "live m"] by (simp add: takeWhile_eq_all_conv)
      then show ?thesis using True none all load by (simp add: find_camera_metadata_entry_def linear_search_spec)
    next
      case False
      then have i: "?i < ?k" using k length_takeWhile_le [of ?p "live m"] by simp
      then have "e_tag (live m ! ?i) = tag" using k nth_length_takeWhile [of ?p "live m"] by simp
      then show ?thesis
        using get_entry_found [OF inv i] True i load by (simp add: find_camera_metadata_entry_def linear_search_spec)
    qed
  next
    case False
    let ?key = "\<lparr>e_tag = tag, e_count = 0, e_data = 0, e_type = 0\<rparr> :: buffer_entry"
    have "case b compare_entry_tags ?key (live m) of
        None \<Rightarrow> \<forall>e \<in> set (live m). compare_entry_tags ?key e \<noteq> 0
      | Some i \<Rightarrow> i < length (live m) \<and> compare_entry_tags ?key (live m ! i) = 0"
      using b flag False by (simp add: bsearch_finds_def flag_ok_def tag_sorted_def)
    then show ?thesis
      using False load none get_entry_found [OF inv, of _ tag] k
      by (cases "b compare_entry_tags ?key (live m)") (auto simp: find_camera_metadata_entry_def compare_eq)
  qed
qed

end
