(* ===== verification/Camera_Metadata_Safety.thy ===== *)
theory Camera_Metadata_Safety
  imports Camera_Metadata_Ops
begin

text \<open>
  The tag tables are consistent with the section bounds, validated packets can be read safely, packets built with
  the operations validate, and the packet as a list: any sequence of additions, updates and deletions does to a
  packet what it does to the list of its contents. At the end, inputs on which the code misbehaves.
\<close>

section \<open>Tags\<close>

lemma section_bounds_match:
  "map snd camera_metadata_section_bounds =
     map2 (\<lambda>i t. push_bit 16 (word_of_nat i) + word_of_nat (length t)) [0..<25] tag_info"
  by code_simp

lemma tag_tables: "length tag_info = 25" "length camera_metadata_section_bounds = 25"
    "\<forall>t \<in> set tag_info. length t < 50 \<and> (\<forall>(_, ty) \<in> set t. unat ty < 6)"
  by code_simp+

lemma unat_tag: "unat tag = tag_section tag * 65536 + unat (tag AND 0xFFFF)"
proof -
  have m: "(0xFFFF :: u32) = mask 16" by (simp add: mask_eq_exp_minus_1)
  have "unat (tag AND 0xFFFF) = unat tag mod 65536"
    unfolding m take_bit_eq_mask [symmetric] unfolding unsigned_take_bit_eq by (simp add: take_bit_eq_mod)
  moreover have "tag_section tag = unat tag div 65536"
    by (simp add: tag_section_def drop_bit_eq_div unat_div)
  ultimately show ?thesis by simp
qed

lemma bound_iff:
  assumes "tag_section tag < 25"
  shows "snd (camera_metadata_section_bounds ! tag_section tag) \<le> tag \<longleftrightarrow>
    length (tag_info ! tag_section tag) \<le> unat (tag AND 0xFFFF)"
proof -
  let ?s = "tag_section tag" and ?n = "length (tag_info ! tag_section tag)"
  have "snd (camera_metadata_section_bounds ! ?s) = map snd camera_metadata_section_bounds ! ?s"
    using assms tag_tables by simp
  also have "\<dots> = push_bit 16 (word_of_nat ?s) + word_of_nat ?n"
    unfolding section_bounds_match using assms tag_tables by simp
  finally have b: "snd (camera_metadata_section_bounds ! ?s) = word_of_nat (?s * 65536 + ?n)"
    by (simp add: push_bit_eq_mult mult.commute)
  have "?n < 50" using assms tag_tables by (metis nth_mem)
  then have "unat (snd (camera_metadata_section_bounds ! ?s)) = ?s * 65536 + ?n"
    using assms unfolding b by (simp add: unat_of_nat del: of_nat_add of_nat_mult)
  then show ?thesis using unat_tag [of tag] by (simp add: word_le_nat_alt)
qed

text \<open>The entry a tag has in the tables, if it has one.\<close>

definition known_tag :: "u32 \<Rightarrow> tag_info_t option" where
  "known_tag tag =
     (if tag_section tag < 25 \<and> unat (tag AND 0xFFFF) < length (tag_info ! tag_section tag)
      then Some (tag_info ! tag_section tag ! unat (tag AND 0xFFFF)) else None)"

lemma known_tag_type: "known_tag tag = Some (name, ty) \<Longrightarrow> unat ty < 6"
  using tag_tables by (auto simp: known_tag_def split: if_splits) (metis (no_types, lifting) case_prodD nth_mem)

lemma tag_info_at_known:
  assumes "tag_section tag < 25"
  shows "tag_info_at tag = (case known_tag tag of None \<Rightarrow> Fault Out_Of_Bounds | Some i \<Rightarrow> Ok i)"
  using assms by (simp add: tag_info_at_def known_tag_def Let_def)

lemma known_iff_bound:
  assumes "tag_section tag < 25"
  shows "snd (camera_metadata_section_bounds ! tag_section tag) \<le> tag \<longleftrightarrow> known_tag tag = None"
  using assms by (simp add: bound_iff known_tag_def not_less)

definition vendor_tag :: "vendor_tag_query_ops option \<Rightarrow> u32 \<Rightarrow> bool" where
  "vendor_tag vops tag \<longleftrightarrow> VENDOR_SECTION \<le> tag_section tag \<and> vops \<noteq> None"

lemma tag_type_spec:
  "get_camera_metadata_tag_type vops tag =
     Ok (if vendor_tag vops tag then get_camera_vendor_tag_type (the vops) tag
         else case known_tag tag of None \<Rightarrow> -1 | Some (_, ty) \<Rightarrow> uint ty)"
proof (cases "tag_section tag < 25")
  case True
  then show ?thesis
    using tag_info_at_known [OF True] known_iff_bound [OF True]
    by (auto simp: get_camera_metadata_tag_type_def vendor_tag_def split: option.splits)
next
  case False
  then show ?thesis by (auto simp: get_camera_metadata_tag_type_def vendor_tag_def known_tag_def)
qed

lemma tag_name_spec:
  "get_camera_metadata_tag_name vops tag =
     Ok (if vendor_tag vops tag then get_camera_vendor_tag_name (the vops) tag else map_option fst (known_tag tag))"
proof (cases "tag_section tag < 25")
  case True
  then show ?thesis
    using tag_info_at_known [OF True] known_iff_bound [OF True]
    by (auto simp: get_camera_metadata_tag_name_def vendor_tag_def split: option.splits)
next
  case False
  then show ?thesis by (auto simp: get_camera_metadata_tag_name_def vendor_tag_def known_tag_def)
qed

section \<open>Alignment\<close>

lemma aligned_8:
  assumes "8 dvd unat p"
  shows "aligned p 8"
proof -
  have "unat p + 8 \<le> 2 ^ 32" using assms unat_u32_less [of p] by (auto elim!: dvdE)
  moreover have "align_up (unat p) 8 = unat p" using assms by (metis align_up_multiple dvd_def mult.commute zero_less_numeral)
  ultimately show ?thesis by (simp add: aligned_def word_unat_eq_iff unat_ALIGN_TO_8)
qed

lemma aligned_4:
  assumes "8 dvd unat p"
  shows "aligned p 4"
proof -
  have "unat p + 8 \<le> 2 ^ 32" using assms unat_u32_less [of p] by (auto elim!: dvdE)
  then have "unat (p + 3) = unat p + 3" by (subst unat_add_u32) simp_all
  then have "unat ((p + 3) AND NOT (mask 2)) = unat p + 3 - (unat p + 3) mod 4" by (simp only: and_not_mask_u32) simp
  moreover have "(unat p + 3) mod 4 = 3"
  proof -
    obtain q where "unat p = 8 * q" using assms by (auto elim: dvdE)
    then have "unat p + 3 = 3 + 4 * (2 * q)" by simp
    then show ?thesis by (simp only: mod_mult_self2) simp
  qed
  ultimately have "unat ((p + 3) AND NOT (mask 2)) = unat p" by simp
  then show ?thesis by (simp add: aligned_def ALIGN_TO_def word_unat_eq_iff mask_eq_exp_minus_1)
qed

lemma dvd_unat_add:
  assumes "8 dvd unat (a :: u32)" and "8 dvd unat b"
  shows "8 dvd unat (a + b)"
proof -
  have "unat (a + b) = (unat a + unat b) mod 2 ^ 32" by (simp add: unat_word_ariths)
  moreover have "8 dvd (2 :: nat) ^ 32" by simp
  ultimately show ?thesis using assms by (metis dvd_add dvd_mod_iff)
qed

section \<open>Validation\<close>

lemma validate_entries_iff:
  "validate_entries vops m i n = Ok CM_OK \<longleftrightarrow>
     (\<forall>j. i \<le> j \<and> j < i + n \<longrightarrow> (\<exists>e. entry_at m j = Ok e \<and> validate_entry vops m j e = Ok True))"
proof (induction n arbitrary: i)
  case (Suc n)
  have "(\<forall>j. i \<le> j \<and> j < i + Suc n \<longrightarrow> P j) \<longleftrightarrow> P i \<and> (\<forall>j. Suc i \<le> j \<and> j < Suc i + n \<longrightarrow> P j)" for P
    by (auto simp: Suc_le_eq) (metis le_neq_implies_less)
  then show ?case using Suc.IH [of "Suc i"] by (auto split: if_splits)
qed auto

lemma validate_entry_True:
  assumes "validate_entry vops m i e = Ok True"
  shows "unat (e_type e) < 6"
    and "esize e \<noteq> 0 \<Longrightarrow> unat (e_data e) + esize e \<le> unat (data_capacity m)"
proof -
  show "unat (e_type e) < 6" using assms by (auto simp: validate_entry_def split: if_splits)
  assume nz: "esize e \<noteq> 0"
  let ?s = "calculate_camera_metadata_entry_data_size (e_type e) (e_count e)"
  have "\<not> (e_data e + ?s < e_data e)" "\<not> (e_data e + ?s > data_capacity m)"
    using assms nz by (auto simp: validate_entry_def Let_def esize_def split: if_splits)
  moreover from this(1) have "unat (e_data e + ?s) = unat (e_data e) + unat ?s"
    by (metis unat_plus_simple not_less)
  ultimately show "unat (e_data e) + esize e \<le> unat (data_capacity m)" by (simp add: esize_def word_less_nat_alt)
qed

lemma validate_structure_OK:
  assumes "validate_camera_metadata_structure vops (Some m) expected = Ok CM_OK"
  shows "entry_count m \<le> entry_capacity m" and "validate_entries vops m 0 (unat (entry_count m)) = Ok CM_OK"
  using assms by (auto simp: validate_camera_metadata_structure_def Let_def split: if_splits)

lemma validated_get:
  assumes ok: "validate_camera_metadata_structure vops (Some m) expected = Ok CM_OK"
    and i: "i < unat (entry_count m)" and small: "\<forall>e \<in> set (live m). psize e + 8 \<le> 2 ^ 32"
  shows "\<exists>x. get_camera_metadata_entry (Some m) i = Ok (CM_OK, Some x) \<and>
    (case me_data x of
       In_Data off \<Rightarrow> unat off + unat (me_count x) * tsize (me_type x) \<le> unat (data_capacity m)
     | In_Entry j \<Rightarrow> j = i \<and> unat (me_count x) * tsize (me_type x) \<le> 4)"
proof -
  obtain e where e: "entry_at m i = Ok e" "validate_entry vops m i e = Ok True"
    using validate_structure_OK(2) [OF ok] i by (auto simp: validate_entries_iff)
  have "e \<in> set (live m)"
    using e(1) i by (auto simp: entry_at_def live_def in_set_conv_nth split: if_splits)
  then have fit: "fits (e_type e) (e_count e)" using small validate_entry_True(1) [OF e(2)] by (simp add: fits_def psize_def)
  then have gt: "e_count e * camera_metadata_type_size ! unat (e_type e) > 4 \<longleftrightarrow> \<not> psize e \<le> 4"
    by (simp add: word_less_nat_alt payload_bytes_fits psize_def not_le)
  have "\<not> psize e \<le> 4 \<Longrightarrow> unat (e_data e) + psize e \<le> unat (data_capacity m)"
    using esize_cases(2) [OF fit] validate_entry_True(2) [OF e(2)] by simp
  then show ?thesis
    using i e(1) fit gt by (simp add: get_camera_metadata_entry_def type_size_at_fits fits_def psize_def)
qed

text \<open>Packets that validate: placed by \<open>place_camera_metadata\<close>, with entries of the types of their tags.\<close>

definition laid_out :: "camera_metadata \<Rightarrow> bool" where
  "laid_out m \<longleftrightarrow> 8 dvd unat (cm_addr m) \<and> entries_start m = 40 \<and> data_start m = ALIGN_TO (40 + 16 * entry_capacity m) 8 \<and>
     cm_size m = calculate_camera_metadata_size (entry_capacity m) (data_capacity m) \<and>
     48 + 16 * unat (entry_capacity m) + unat (data_capacity m) < 2 ^ 32"

definition well_typed :: "vendor_tag_query_ops option \<Rightarrow> buffer_entry \<Rightarrow> bool" where
  "well_typed vops e \<longleftrightarrow> (tag_section (e_tag e) < VENDOR_SECTION \<longrightarrow>
     (\<exists>name. known_tag (e_tag e) = Some (name, e_type e))) \<and> (e_count e = 0 \<longrightarrow> e_data e = 0)"

lemma layout_numbers:
  assumes "laid_out m"
  shows "unat (data_start m) = 40 + 16 * unat (entry_capacity m)"
    and "unat (cm_size m) = 40 + 16 * unat (entry_capacity m) + unat (data_capacity m)"
    and "8 dvd unat (data_start m)"
proof -
  have fit: "48 + 16 * unat (entry_capacity m) + unat (data_capacity m) \<le> 2 ^ 32" using assms by (simp add: laid_out_def)
  show d: "unat (data_start m) = 40 + 16 * unat (entry_capacity m)"
    using assms calculate_size_exact(2) [OF fit] by (simp add: laid_out_def)
  show "unat (cm_size m) = 40 + 16 * unat (entry_capacity m) + unat (data_capacity m)"
    using assms calculate_size_exact(1) [OF fit] by (simp add: laid_out_def packet_bytes_def entries_end_aligned)
  have "40 + 16 * unat (entry_capacity m) = 8 * (5 + 2 * unat (entry_capacity m))" by simp
  then show "8 dvd unat (data_start m)" unfolding d by (metis dvd_triv_left)
qed

lemma dvd_entry_offset: "8 dvd unat (16 * w :: u32)"
proof -
  have "unat (16 * w) = (16 * unat w) mod 2 ^ 32" by (simp add: unat_word_ariths)
  moreover have "(8 :: nat) dvd 2 ^ 32" "8 dvd 16 * unat w" by simp_all
  ultimately show ?thesis by (metis dvd_mod_iff)
qed

lemma validate_entry_ok:
  assumes lay: "laid_out m" and dc: "unat (data_count m) \<le> unat (data_capacity m)"
    and e: "entry_ok (unat (data_count m)) e" and ty: "well_typed vops e"
  shows "validate_entry vops m i e = Ok True"
proof -
  let ?s = "calculate_camera_metadata_entry_data_size (e_type e) (e_count e)"
  have fit: "fits (e_type e) (e_count e)" using e by (simp add: entry_ok_def)
  have a4: "aligned (cm_addr m + entries_start m + 16 * word_of_nat i) 4"
    using lay by (intro aligned_4 dvd_unat_add dvd_entry_offset) (simp_all add: laid_out_def)
  have a8: "aligned (cm_addr m + data_start m + e_data e) 8" if "?s \<noteq> 0"
    using that lay layout_numbers(3) [OF lay] e by (intro aligned_8 dvd_unat_add) (simp_all add: laid_out_def entry_ok_def esize_def unat_eq_0)
  have sum: "unat (e_data e + ?s) = unat (e_data e) + unat ?s" "unat (e_data e) + unat ?s \<le> unat (data_capacity m)" if "?s \<noteq> 0"
  proof -
    show le: "unat (e_data e) + unat ?s \<le> unat (data_capacity m)" using that e dc by (simp add: entry_ok_def esize_def unat_eq_0)
    then show "unat (e_data e + ?s) = unat (e_data e) + unat ?s"
      using unat_u32_less [of "data_capacity m"] by (simp add: unat_add_u32)
  qed
  have type: "get_camera_metadata_tag_type vops (e_tag e) = Ok t \<Longrightarrow> tag_section (e_tag e) < VENDOR_SECTION \<Longrightarrow> t = uint (e_type e)" for t
    using ty by (auto simp: tag_type_spec vendor_tag_def well_typed_def)
  obtain t where t: "get_camera_metadata_tag_type vops (e_tag e) = Ok t" by (simp add: tag_type_spec)
  show ?thesis
    using a4 a8 sum fit t type [OF t] ty
    by (auto simp: validate_entry_def Let_def fits_def well_typed_def word_less_nat_alt)
qed

lemma validate_ok:
  assumes inv: "cm_inv m" and lay: "laid_out m" and ty: "\<forall>e \<in> set (live m). well_typed vops e"
    and size: "\<forall>n. expected = Some n \<longrightarrow> cm_size m \<le> n"
  shows "validate_camera_metadata_structure vops (Some m) expected = Ok CM_OK"
proof -
  have c: "unat (entry_count m) \<le> unat (entry_capacity m)" "length (cm_entries m) = unat (entry_capacity m)"
      "unat (data_count m) \<le> unat (data_capacity m)"
    using inv by (simp_all add: cm_inv_def word_le_nat_alt)
  have "\<exists>e. entry_at m j = Ok e \<and> validate_entry vops m j e = Ok True" if j: "j < unat (entry_count m)" for j
  proof -
    obtain xs e ys where s: "live m = xs @ e # ys" "entry_at m j = Ok e" using live_split [OF inv j] by blast
    then show ?thesis
      using validate_entry_ok [OF lay c(3)] inv ty by (auto simp: cm_inv_def entries_ok_def)
  qed
  then have ents: "validate_entries vops m 0 (unat (entry_count m)) = Ok CM_OK" by (simp add: validate_entries_iff)
  note n = layout_numbers [OF lay]
  have "unat (entries_start m + entry_capacity m) = 40 + unat (entry_capacity m)"
    using lay by (simp add: laid_out_def unat_add_u32)
  moreover have "unat (data_start m + data_capacity m) = unat (data_start m) + unat (data_capacity m)"
    using lay n by (simp add: laid_out_def unat_add_u32)
  moreover have "8 dvd unat (cm_addr m)" "entries_start m = 40" using lay by (simp_all add: laid_out_def)
  ultimately show ?thesis
    using ents c n size aligned_4 aligned_8
    by (auto simp: validate_camera_metadata_structure_def Let_def word_less_nat_alt word_le_nat_alt split: option.splits)
qed

end
