(* ===== verification/Camera_Metadata_Run.thy ===== *)
theory Camera_Metadata_Run
  imports Camera_Metadata_Safety
begin

text \<open>
  A packet as a list: any sequence of additions, updates and deletions does to a packet what it does to the list of its
  contents, and each call either has its effect or returns an error and changes nothing.
\<close>

section \<open>Operations and their effect\<close>

datatype cm_op = Op_add u32 u8 bytes u32 | Op_delete nat | Op_update nat bytes u32

fun run_op :: "cm_op \<Rightarrow> camera_metadata \<Rightarrow> (int \<times> camera_metadata option) outcome" where
  "run_op (Op_add tag ty bs n) m = add_camera_metadata_entry_raw (Some m) tag ty (Some bs) n"
| "run_op (Op_delete i) m = delete_camera_metadata_entry (Some m) i"
| "run_op (Op_update i bs n) m = obind (update_camera_metadata_entry (Some m) i bs n) (\<lambda>(rc, m', _). Ok (rc, m'))"

fun effect :: "cm_op \<Rightarrow> (u32 \<times> u8 \<times> bytes) list \<Rightarrow> (u32 \<times> u8 \<times> bytes) list" where
  "effect (Op_add tag ty bs n) c = c @ [(tag, ty, take (unat n * tsize ty) bs)]"
| "effect (Op_delete i) c = take i c @ drop (Suc i) c"
| "effect (Op_update i bs n) c =
     (case c ! i of (tag, ty, _) \<Rightarrow> c[i := (tag, ty, take (unat n * tsize ty) bs)])"

text \<open>
  The caller's side: the type exists, the buffer holds the values, and the values fit next to a full packet in the
  address space. The last condition keeps the size computations from wrapping around.
\<close>

fun sane :: "nat \<Rightarrow> cm_op \<Rightarrow> bool" where
  "sane cap (Op_add tag ty bs n) \<longleftrightarrow> unat ty < 6 \<and> 8 * unat n \<le> length bs \<and> cap + 8 * unat n + 16 \<le> 2 ^ 32"
| "sane cap (Op_delete i) \<longleftrightarrow> True"
| "sane cap (Op_update i bs n) \<longleftrightarrow> 8 * unat n \<le> length bs \<and> cap + 8 * unat n + 16 \<le> 2 ^ 32"

text \<open>When an operation goes through.\<close>

fun has_room :: "cm_op \<Rightarrow> camera_metadata \<Rightarrow> bool" where
  "has_room (Op_add tag ty bs n) m \<longleftrightarrow> entry_count m < entry_capacity m \<and>
     unat (data_count m) + unat (calculate_camera_metadata_entry_data_size ty n) \<le> unat (data_capacity m)"
| "has_room (Op_delete i) m \<longleftrightarrow> i < unat (entry_count m)"
| "has_room (Op_update i bs n) m \<longleftrightarrow> i < unat (entry_count m) \<and>
     (let e = live m ! i
      in unat (data_count m) + unat (calculate_camera_metadata_entry_data_size (e_type e) n) \<le> unat (data_capacity m) + esize e)"

lemma tsize_le_8: "unat ty < 6 \<Longrightarrow> tsize ty \<le> 8"
proof -
  have "\<forall>i < 6. unat (camera_metadata_type_size ! i) \<le> 8" by code_simp
  then show "unat ty < 6 \<Longrightarrow> tsize ty \<le> 8" by (simp add: tsize_def)
qed

lemma sane_fits:
  assumes "unat ty < 6" and "cap + 8 * unat n + 16 \<le> 2 ^ 32"
  shows "fits ty n" and "8 * unat n \<le> L \<Longrightarrow> unat n * tsize ty \<le> L"
    and "cap + unat (calculate_camera_metadata_entry_data_size ty n) < 2 ^ 32"
proof -
  have le: "unat n * tsize ty \<le> 8 * unat n" using tsize_le_8 [OF assms(1)] by simp
  then show "8 * unat n \<le> L \<Longrightarrow> unat n * tsize ty \<le> L" by (rule order_trans)
  have "unat n * tsize ty + 8 \<le> 2 ^ 32" using le assms(2) by linarith
  then show fit: "fits ty n" using assms by (simp add: fits_def)
  have "align_up (unat n * tsize ty) 8 < unat n * tsize ty + 8" by (rule align_up_props) simp
  then have "cap + align_up (unat n * tsize ty) 8 < 2 ^ 32" using le assms(2) by linarith
  then show "cap + unat (calculate_camera_metadata_entry_data_size ty n) < 2 ^ 32"
    using assms(2) by (simp add: data_size_fits [OF fit])
qed

section \<open>One operation\<close>

text \<open>What one call must achieve; \<open>ok\<close> tells whether it goes through.\<close>

definition step_meets :: "cm_op \<Rightarrow> camera_metadata \<Rightarrow> bool" where
  "step_meets op m \<longleftrightarrow> (\<exists>m'. run_op op m = Ok (if has_room op m then CM_OK else CM_ERROR, Some m') \<and> cm_inv m' \<and>
     data_capacity m' = data_capacity m \<and> entry_capacity m' = entry_capacity m \<and>
     contents m' = (if has_room op m then effect op (contents m) else contents m))"

lemma add_capacity:
  "add_camera_metadata_entry_raw (Some m) tag ty bs n = Ok (rc, Some m') \<Longrightarrow>
     data_capacity m' = data_capacity m \<and> entry_capacity m' = entry_capacity m"
  by (auto simp: add_camera_metadata_entry_raw_def Let_def split: if_splits option.splits)

lemma delete_capacity:
  "delete_camera_metadata_entry (Some m) i = Ok (rc, Some m') \<Longrightarrow>
     data_capacity m' = data_capacity m \<and> entry_capacity m' = entry_capacity m"
  by (auto simp: delete_camera_metadata_entry_def Let_def split: if_splits)

lemma update_tail_capacity:
  "update_tail m1 i bs n mv sz db = Ok (rc, Some m', u) \<Longrightarrow>
     data_capacity m' = data_capacity m1 \<and> entry_capacity m' = entry_capacity m1"
  by (auto simp: update_tail_def Let_def split: if_splits)

lemma update_capacity:
  assumes "update_camera_metadata_entry (Some m) i bs n = Ok (rc, Some m', u)"
    and "i < unat (entry_count m)" and "entry_at m i = Ok e" and "unat (e_type e) < 6"
  shows "data_capacity m' = data_capacity m \<and> entry_capacity m' = entry_capacity m"
proof -
  define db where "db = calculate_camera_metadata_entry_data_size (e_type e) n"
  define eb where "eb = calculate_camera_metadata_entry_data_size (e_type e) (e_count e)"
  show ?thesis
  proof (cases "db \<noteq> eb \<and> data_capacity m < data_count m + db - eb")
    case True
    then have "update_camera_metadata_entry (Some m) i bs n = Ok (CM_ERROR, Some m, None)"
      using assms(2-4) by (simp add: update_camera_metadata_entry_def Let_def type_size_at_fits flip: db_def eb_def)
    then show ?thesis using assms(1) by simp
  next
    case False
    show ?thesis
      using assms(1) unfolding update_unfold [OF assms(2-4) db_def eb_def False]
      by (auto dest!: update_tail_capacity split: if_splits)
  qed
qed

lemma add_meets:
  assumes inv: "cm_inv m" and sane: "sane (unat (data_capacity m)) (Op_add tag ty bs n)"
  shows "step_meets (Op_add tag ty bs n) m"
proof (cases "has_room (Op_add tag ty bs n) m")
  case True
  note f = sane_fits [of ty "unat (data_capacity m)" n]
  have "\<exists>m'. add_camera_metadata_entry_raw (Some m) tag ty (Some bs) n = Ok (CM_OK, Some m') \<and> cm_inv m' \<and>
      contents m' = contents m @ [(tag, ty, take (unat n * tsize ty) bs)]"
    using True sane f(1,3) f(2) [of "length bs"] by (intro add_raw_ok [OF inv]) simp_all
  then obtain m' where m': "add_camera_metadata_entry_raw (Some m) tag ty (Some bs) n = Ok (CM_OK, Some m')" "cm_inv m'"
      "contents m' = contents m @ [(tag, ty, take (unat n * tsize ty) bs)]" by blast
  then show ?thesis using True add_capacity [OF m'(1)]
    unfolding step_meets_def by (intro exI [of _ m']) (simp del: has_room.simps)
next
  case False
  have dc: "unat (data_count m) \<le> unat (data_capacity m)" "\<not> entry_count m > entry_capacity m"
    using inv by (simp_all add: cm_inv_def word_le_nat_alt not_less)
  have "unat (calculate_camera_metadata_entry_data_size ty n + data_count m) =
      unat (data_count m) + unat (calculate_camera_metadata_entry_data_size ty n)"
    using sane_fits(3) [of ty "unat (data_capacity m)" n] sane dc(1) by (subst unat_add_u32) simp_all
  then have "add_camera_metadata_entry_raw (Some m) tag ty (Some bs) n = Ok (CM_ERROR, Some m)"
    using False dc(2) by (auto simp: add_camera_metadata_entry_raw_def Let_def word_less_nat_alt word_unat_eq_iff)
  then show ?thesis using False inv by (simp add: step_meets_def del: has_room.simps)
qed

lemma delete_meets:
  assumes inv: "cm_inv m"
  shows "step_meets (Op_delete i) m"
proof (cases "i < unat (entry_count m)")
  case True
  obtain m' where m': "delete_camera_metadata_entry (Some m) i = Ok (CM_OK, Some m')" "cm_inv m'"
      "contents m' = take i (contents m) @ drop (Suc i) (contents m)"
    using delete_ok [OF inv True] by blast
  then show ?thesis using True delete_capacity [OF m'(1)] unfolding step_meets_def by (intro exI [of _ m']) simp
next
  case False
  then show ?thesis using inv by (simp add: step_meets_def delete_camera_metadata_entry_def)
qed

lemma update_no_room:
  assumes inv: "cm_inv m" and live: "live m = xs @ e # ys" "length xs = i" "entry_at m i = Ok e" and i: "i < unat (entry_count m)"
    and full: "\<not> unat (data_count m) + unat (calculate_camera_metadata_entry_data_size (e_type e) n) \<le> unat (data_capacity m) + esize e"
    and nowrap: "unat (data_capacity m) + unat (calculate_camera_metadata_entry_data_size (e_type e) n) < 2 ^ 32"
  shows "update_camera_metadata_entry (Some m) i bs n = Ok (CM_ERROR, Some m, None)"
proof -
  let ?db = "calculate_camera_metadata_entry_data_size (e_type e) n" and ?eb = "calculate_camera_metadata_entry_data_size (e_type e) (e_count e)"
  have ok: "entry_ok (unat (data_count m)) e" and dc: "unat (data_count m) \<le> unat (data_capacity m)"
    using inv by (simp_all add: cm_inv_def live entries_ok_mid word_le_nat_alt)
  then have eb: "?eb \<le> data_count m" by (auto simp: entry_ok_def esize_def word_le_nat_alt)
  have "unat (data_count m + ?db) = unat (data_count m) + unat ?db" using nowrap dc by (subst unat_add_u32) simp_all
  moreover from this have "unat (data_count m + ?db - ?eb) = unat (data_count m) + unat ?db - unat ?eb"
    using eb by (subst unat_sub_u32) (simp_all add: word_le_nat_alt)
  ultimately have "data_capacity m < data_count m + ?db - ?eb"
    using full by (simp add: word_less_nat_alt esize_def)
  moreover have "?db \<noteq> ?eb" using full dc by (auto simp: esize_def)
  ultimately show ?thesis
    using i live(3) ok by (simp add: update_camera_metadata_entry_def Let_def type_size_at_fits entry_ok_def fits_def)
qed

lemma update_meets:
  assumes inv: "cm_inv m" and sane: "sane (unat (data_capacity m)) (Op_update i bs n)"
  shows "step_meets (Op_update i bs n) m"
proof (cases "i < unat (entry_count m)")
  case i: True
  obtain xs e ys where live: "live m = xs @ e # ys" "length xs = i" "entry_at m i = Ok e" using live_split [OF inv i] by blast
  then have nth: "live m ! i = e" by (simp add: nth_append)
  have cn: "contents m ! i = (e_tag e, e_type e, payload (cm_data m) e)"
    using live by (simp add: contents_def item_def nth_append)
  have ty: "unat (e_type e) < 6" using inv by (simp add: cm_inv_def live entries_ok_mid entry_ok_def fits_def)
  note f = sane_fits [OF ty, of "unat (data_capacity m)" n]
  show ?thesis
  proof (cases "has_room (Op_update i bs n) m")
    case True
    have "\<exists>m' u. update_camera_metadata_entry (Some m) i bs n = Ok (CM_OK, Some m', Some u) \<and> cm_inv m' \<and>
        contents m' = (contents m)[i := (e_tag e, e_type e, take (unat n * tsize (e_type e)) bs)] \<and> cm_flags m' = cm_flags m"
      using True sane f(1,3) f(2) [of "length bs"] nth by (intro update_ok [OF inv live(1,2)]) (simp_all add: Let_def)
    then obtain m' u where m': "update_camera_metadata_entry (Some m) i bs n = Ok (CM_OK, Some m', Some u)" "cm_inv m'"
        "contents m' = (contents m)[i := (e_tag e, e_type e, take (unat n * tsize (e_type e)) bs)]" by blast
    then show ?thesis using True update_capacity [OF m'(1) i live(3) ty] cn
      unfolding step_meets_def by (intro exI [of _ m']) (simp del: has_room.simps)
  next
    case False
    then have "update_camera_metadata_entry (Some m) i bs n = Ok (CM_ERROR, Some m, None)"
      using update_no_room [OF inv live i] f(3) sane i nth by (simp add: Let_def)
    then show ?thesis using False inv by (simp add: step_meets_def del: has_room.simps)
  qed
next
  case False
  then show ?thesis using inv by (simp add: step_meets_def update_camera_metadata_entry_def)
qed

section \<open>Sequences of operations\<close>

fun run_ops :: "('op \<Rightarrow> 's \<Rightarrow> (int \<times> 's option) outcome) \<Rightarrow> 'op list \<Rightarrow> 's \<Rightarrow> (int list \<times> 's) outcome" where
  "run_ops step [] s = Ok ([], s)"
| "run_ops step (op # ops) s =
     obind (step op s) (\<lambda>(rc, s'). case s' of None \<Rightarrow> Fault Null_Deref | Some s' \<Rightarrow>
       obind (run_ops step ops s') (\<lambda>(rcs, t). Ok (rc # rcs, t)))"

text \<open>The effects of the calls that returned success.\<close>

fun replay :: "('op \<Rightarrow> 'v \<Rightarrow> 'v) \<Rightarrow> ('op \<times> int) list \<Rightarrow> 'v \<Rightarrow> 'v" where
  "replay eff [] v = v"
| "replay eff ((op, rc) # l) v = replay eff l (if rc = 0 then eff op v else v)"

text \<open>
  The contract of a store that is driven by operations and seen through its contents: a call goes through exactly when
  there is room, and then has its effect.
\<close>

locale op_store =
  fixes step :: "'op \<Rightarrow> 's \<Rightarrow> (int \<times> 's option) outcome"
    and inv :: "'s \<Rightarrow> bool"
    and view :: "'s \<Rightarrow> 'v"
    and room :: "'op \<Rightarrow> 's \<Rightarrow> bool"
    and eff :: "'op \<Rightarrow> 'v \<Rightarrow> 'v"
    and allowed :: "'op \<Rightarrow> 's \<Rightarrow> bool"
  assumes step_spec: "inv s \<Longrightarrow> allowed op s \<Longrightarrow>
      \<exists>s'. step op s = Ok (if room op s then 0 else 1, Some s') \<and> inv s' \<and>
        view s' = (if room op s then eff op (view s) else view s) \<and> (\<forall>p. allowed p s' = allowed p s)"
begin

lemma run_spec:
  assumes "inv s" and "\<forall>op \<in> set ops. allowed op s"
  shows "\<exists>rcs t. run_ops step ops s = Ok (rcs, t) \<and> length rcs = length ops \<and> set rcs \<subseteq> {0, 1} \<and> inv t \<and>
    view t = replay eff (zip ops rcs) (view s)"
  using assms
proof (induction ops arbitrary: s)
  case (Cons op ops)
  obtain s' where s': "step op s = Ok (if room op s then 0 else 1, Some s')" "inv s'"
      "view s' = (if room op s then eff op (view s) else view s)" "\<forall>p. allowed p s' = allowed p s"
    using step_spec [of s op] Cons.prems by auto
  obtain rcs t where t: "run_ops step ops s' = Ok (rcs, t)" "length rcs = length ops" "set rcs \<subseteq> {0, 1}" "inv t"
      "view t = replay eff (zip ops rcs) (view s')"
    using Cons.IH [OF s'(2)] Cons.prems s'(4) by auto
  show ?case
    by (rule exI [of _ "(if room op s then 0 else 1) # rcs"], rule exI [of _ t]) (use s'(1,3) t in auto)
qed simp

end

interpretation packet: op_store run_op cm_inv contents has_room effect "\<lambda>op m. sane (unat (data_capacity m)) op"
proof unfold_locales
  fix m op
  assume inv: "cm_inv m" and sane: "sane (unat (data_capacity m)) op"
  have "step_meets op m"
    using add_meets [OF inv] delete_meets [OF inv] update_meets [OF inv] sane by (cases op) auto
  then obtain m' where "run_op op m = Ok (if has_room op m then 0 else 1, Some m')" "cm_inv m'" "data_capacity m' = data_capacity m"
      "contents m' = (if has_room op m then effect op (contents m) else contents m)"
    unfolding step_meets_def by blast
  then show "\<exists>s'. run_op op m = Ok (if has_room op m then 0 else 1, Some s') \<and> cm_inv s' \<and>
      contents s' = (if has_room op m then effect op (contents m) else contents m) \<and>
      (\<forall>p. sane (unat (data_capacity s')) p = sane (unat (data_capacity m)) p)"
    by (intro exI [of _ m']) simp
qed

end
