(* ===== verification/Camera_Metadata_Spec.thy ===== *)
theory Camera_Metadata_Spec
  imports Camera_Metadata_Run
begin

text \<open>
  The properties of camera metadata packets, their instances on small packets, and packets on which the code does
  not do what it means to.
\<close>

section \<open>Small packets\<close>

definition demo_raw :: raw_mem where
  "demo_raw = \<lparr>raw_addr = 4096, raw_entry = (\<lambda>_. blank_entry 0 0 0), raw_byte = (\<lambda>_. 0)\<rparr>"

definition demo_empty :: camera_metadata where
  "demo_empty = the (place_camera_metadata (Some demo_raw) 128 3 24)"

definition demo_ops :: "cm_op list" where
  "demo_ops = [Op_add 0x10007 0 (replicate 8 1) 1, Op_add 1 3 (replicate 16 7) 1, Op_update 0 (replicate 40 2) 5, Op_delete 1]"

definition demo_two :: camera_metadata where
  "demo_two = demo_empty\<lparr>entry_count := 2, data_count := 8,
     cm_entries := [\<lparr>e_tag = 0x10007, e_count = 5, e_data = 0, e_type = 0\<rparr>,
       \<lparr>e_tag = 0x10000, e_count = 1, e_data = 3, e_type = 0\<rparr>, blank_entry 0 0 0],
     cm_data := replicate 5 9 @ replicate 19 0\<rparr>"

lemma demo_two_fields:
  "entry_count demo_two = 2" "data_count demo_two = 8" "entry_capacity demo_two = 3" "data_capacity demo_two = 24"
  "length (cm_entries demo_two) = 3" "length (cm_data demo_two) = 24" "cm_flags demo_two = 0"
  "live demo_two = [\<lparr>e_tag = 0x10007, e_count = 5, e_data = 0, e_type = 0\<rparr>, \<lparr>e_tag = 0x10000, e_count = 1, e_data = 3, e_type = 0\<rparr>]"
  by code_simp+

lemma demo_two_inv: "cm_inv demo_two"
  by (simp add: cm_inv_def demo_two_fields entries_ok_def entry_ok_def fits_def apart_def esize_def tsize_def
      camera_metadata_type_size_def calculate_camera_metadata_entry_data_size_def ALIGN_TO_def)

text \<open>A sort and a binary search that keep the contracts of \<open>qsort\<close> and \<open>bsearch\<close>.\<close>

definition list_qsort :: qsort_fun where
  "list_qsort cmp es = foldr (insort_key e_tag) es []"

function bsearch_between :: "(buffer_entry \<Rightarrow> buffer_entry \<Rightarrow> int) \<Rightarrow> buffer_entry \<Rightarrow> buffer_entry list \<Rightarrow> nat \<Rightarrow> nat \<Rightarrow> nat option" where
  "bsearch_between cmp key es lo hi =
     (if hi \<le> lo then None
      else let mid = (lo + hi) div 2; c = cmp key (es ! mid)
           in if c = 0 then Some mid else if c < 0 then bsearch_between cmp key es lo mid
              else bsearch_between cmp key es (Suc mid) hi)"
  by auto
termination by (relation "measure (\<lambda>(_, _, _, lo, hi). hi - lo)") auto

definition list_bsearch :: bsearch_fun where
  "list_bsearch cmp key es = bsearch_between cmp key es 0 (length es)"

declare bsearch_between.simps [simp del]

lemma list_qsort_sorts: "qsort_sorts list_qsort"
proof -
  have q: "list_qsort c es = sort_key e_tag es" for c es by (simp add: list_qsort_def sort_key_def)
  have "sorted_wrt (\<lambda>a b. e_tag a \<le> e_tag b) (sort_key e_tag es)" for es :: "buffer_entry list"
    using sorted_sort_key [of e_tag es] by (simp only: sorted_map)
  then show ?thesis by (simp add: qsort_sorts_def q compare_le)
qed

lemma bsearch_between_spec:
  assumes sorted: "tag_sorted es" and "hi \<le> length es"
  shows "case bsearch_between compare_entry_tags key es lo hi of
      None \<Rightarrow> \<forall>j. lo \<le> j \<and> j < hi \<longrightarrow> e_tag (es ! j) \<noteq> e_tag key
    | Some i \<Rightarrow> i < length es \<and> e_tag (es ! i) = e_tag key"
  using assms(2)
proof (induction "hi - lo" arbitrary: lo hi rule: less_induct)
  case less
  have mono: "e_tag (es ! i) \<le> e_tag (es ! j)" if "i \<le> j" "j < length es" for i j
    using sorted_nth_mono [of "map e_tag es" i j] sorted that by (simp add: tag_sorted_tags)
  show ?case
  proof (cases "hi \<le> lo")
    case False
    define mid where "mid = (lo + hi) div 2"
    have mid: "lo \<le> mid" "mid < hi" using False by (auto simp: mid_def)
    let ?c = "compare_entry_tags key (es ! mid)"
    have unf: "bsearch_between compare_entry_tags key es lo hi =
        (if ?c = 0 then Some mid else if ?c < 0 then bsearch_between compare_entry_tags key es lo mid
         else bsearch_between compare_entry_tags key es (Suc mid) hi)"
      using False by (subst bsearch_between.simps) (simp add: Let_def mid_def)
    show ?thesis
    proof (cases "e_tag key" "e_tag (es ! mid)" rule: linorder_cases)
      case equal then show ?thesis using mid less.prems unf by (simp add: compare_entry_tags_def)
    next
      case lt: less
      have up: "e_tag (es ! j) \<noteq> e_tag key" if "mid \<le> j" "j < hi" for j
        using mono [of mid j] that less.prems lt by auto
      have "bsearch_between compare_entry_tags key es lo hi = bsearch_between compare_entry_tags key es lo mid"
        using lt unf by (simp add: compare_entry_tags_def)
      then show ?thesis
        using less.hyps [of mid lo] mid less.prems up not_le [of mid]
        by (cases "bsearch_between compare_entry_tags key es lo mid") (simp_all, metis diff_less_mono le_less_trans)
    next
      case greater
      have down: "e_tag (es ! j) \<noteq> e_tag key" if "j \<le> mid" for j
        using mono [of j mid] that mid less.prems greater by auto
      have "?c = 1" using greater order_less_not_sym [OF greater] by (auto simp: compare_entry_tags_def)
      then have "bsearch_between compare_entry_tags key es lo hi = bsearch_between compare_entry_tags key es (Suc mid) hi"
        using unf by simp
      moreover have "hi - Suc mid < hi - lo" using mid by simp
      ultimately show ?thesis
        using less.hyps [of hi "Suc mid"] less.prems down not_less_eq_eq [of _ mid]
        by (cases "bsearch_between compare_entry_tags key es (Suc mid) hi") (simp_all, metis)
    qed
  qed (auto simp: bsearch_between.simps)
qed

lemma list_bsearch_finds: "bsearch_finds list_bsearch"
  unfolding bsearch_finds_def
proof (intro allI impI)
  fix es :: "buffer_entry list" and key
  assume "sorted_wrt (\<lambda>x y. compare_entry_tags x y \<le> 0) es"
  then show "case list_bsearch compare_entry_tags key es of
      None \<Rightarrow> \<forall>e \<in> set es. compare_entry_tags key e \<noteq> 0
    | Some i \<Rightarrow> i < length es \<and> compare_entry_tags key (es ! i) = 0"
    using bsearch_between_spec [where es = es and hi = "length es" and key = key and lo = 0]
    by (auto simp: list_bsearch_def tag_sorted_def compare_eq in_set_conv_nth split: option.splits)
qed

section \<open>Properties\<close>

text \<open>
  C16. Refinement of a packet to a list. Any sequence of \<open>add_camera_metadata_entry_raw\<close>,
  \<open>delete_camera_metadata_entry\<close> and \<open>update_camera_metadata_entry\<close> calls on a well-formed packet runs without a fault,
  keeps the packet well-formed, and each call returns success or error; what the packet holds afterwards is what the list of its
  tags, types and payloads becomes when the successful calls append, remove or replace an element. The calls must
  name an existing type and hand over enough bytes, and their sizes must not overflow next to the data capacity.
\<close>
theorem packet_refines_list:
  assumes "cm_inv m" and "\<forall>op \<in> set ops. sane (unat (data_capacity m)) op"
  shows "\<exists>rcs m'. run_ops run_op ops m = Ok (rcs, m') \<and> length rcs = length ops \<and> set rcs \<subseteq> {CM_OK, CM_ERROR} \<and>
    cm_inv m' \<and> contents m' = replay effect (zip ops rcs) (contents m)"
  using packet.run_spec [OF assms] .

theorem packet_refines_list_witness:
  "\<exists>rcs m'. run_ops run_op demo_ops demo_empty = Ok (rcs, m') \<and> length rcs = length demo_ops \<and> set rcs \<subseteq> {CM_OK, CM_ERROR} \<and>
    cm_inv m' \<and> contents m' = replay effect (zip demo_ops rcs) (contents demo_empty)"
proof (rule packet_refines_list)
  show "cm_inv demo_empty" by code_simp
  have "data_capacity demo_empty = 24" by code_simp
  then show "\<forall>op \<in> set demo_ops. sane (unat (data_capacity demo_empty)) op" by (simp add: demo_ops_def)
qed

text \<open>
  C17. A call of the three operations succeeds exactly when there is room: for an addition a free entry and enough free
  data, for a deletion an existing index, for an update an existing index and enough data once the old payload is gone.
  Otherwise the call returns an error and the contents stay as they were.
\<close>
theorem packet_op_outcome:
  assumes "cm_inv m" and "sane (unat (data_capacity m)) op"
  shows "\<exists>m'. run_op op m = Ok (if has_room op m then CM_OK else CM_ERROR, Some m') \<and> cm_inv m' \<and>
    contents m' = (if has_room op m then effect op (contents m) else contents m)"
  using packet.step_spec [OF assms] by blast

theorem packet_op_outcome_witness:
  "\<exists>m'. run_op (Op_update 0 (replicate 200 1) 25) demo_two =
      Ok (if has_room (Op_update 0 (replicate 200 1) 25) demo_two then CM_OK else CM_ERROR, Some m') \<and> cm_inv m' \<and>
    contents m' = (if has_room (Op_update 0 (replicate 200 1) 25) demo_two
      then effect (Op_update 0 (replicate 200 1) 25) (contents demo_two) else contents demo_two)"
proof (rule packet_op_outcome)
  show "cm_inv demo_two" by (rule demo_two_inv)
  show "sane (unat (data_capacity demo_two)) (Op_update 0 (replicate 200 1) 25)" by (simp add: demo_two_fields)
qed

text \<open>
  C18. \<open>append_camera_metadata\<close> of one well-formed packet to another that has room for it succeeds, and the contents
  of the result are the contents of the one followed by those of the other.
\<close>
theorem append_concatenates:
  assumes "cm_inv d" and "cm_inv s" and "append_room d s"
  shows "\<exists>m. append_camera_metadata (Some d) (Some s) = Ok (CM_OK, Some m) \<and> cm_inv m \<and> contents m = contents d @ contents s"
  using append_ok [OF assms] by blast

theorem append_concatenates_witness:
  "\<exists>m. append_camera_metadata (Some demo_empty) (Some demo_two) = Ok (CM_OK, Some m) \<and> cm_inv m \<and>
    contents m = contents demo_empty @ contents demo_two"
proof (rule append_concatenates)
  show "cm_inv demo_empty" by code_simp
  show "append_room demo_empty demo_two" by code_simp
qed (rule demo_two_inv)

text \<open>
  C19. \<open>clone_camera_metadata\<close> and \<open>copy_camera_metadata\<close> of a well-formed packet with at least one entry give well-formed
  packets with the same contents, the clone with capacities cut down to what is used, whenever the packet's size
  can be computed without overflow, memory is there, and, for the copy, the destination is large enough.
\<close>
theorem clone_and_copy_keep_contents:
  assumes "cm_inv s" and "entry_count s \<noteq> 0" and "48 + 16 * unat (entry_count s) + unat (data_count s) \<le> 2 ^ 32"
    and "packet_bytes (unat (entry_count s)) (unat (data_count s)) \<le> unat sz"
  shows "(\<exists>c. clone_camera_metadata (Some raw) (Some s) = Ok (Some c) \<and> cm_inv c \<and> contents c = contents s \<and>
      entry_capacity c = entry_count s \<and> data_capacity c = data_count s) \<and>
    (\<exists>c. copy_camera_metadata (Some raw) sz s = Ok (Some c) \<and> cm_inv c \<and> contents c = contents s)"
  using clone_ok [OF assms(1-3)] copy_ok [OF assms] by blast

theorem clone_and_copy_keep_contents_witness:
  "(\<exists>c. clone_camera_metadata (Some demo_raw) (Some demo_two) = Ok (Some c) \<and> cm_inv c \<and> contents c = contents demo_two \<and>
      entry_capacity c = entry_count demo_two \<and> data_capacity c = data_count demo_two) \<and>
   (\<exists>c. copy_camera_metadata (Some demo_raw) 128 demo_two = Ok (Some c) \<and> cm_inv c \<and> contents c = contents demo_two)"
proof -
  show ?thesis
    using clone_and_copy_keep_contents [of demo_two 128 demo_raw] demo_two_inv
    by (simp add: demo_two_fields packet_bytes_def align_up_def)
qed

text \<open>
  C20. \<open>sort_camera_metadata\<close>, with a \<open>qsort\<close> that sorts, leaves the packet well-formed, permutes its contents and
  puts them in the order of their tags, provided a packet that is marked sorted is sorted.
\<close>
theorem sort_sorts_contents:
  assumes "cm_inv m" and "flag_ok m" and "qsort_sorts q"
  shows "\<exists>m'. sort_camera_metadata q (Some m) = Ok (CM_OK, Some m') \<and> cm_inv m' \<and> flag_ok m' \<and>
    mset (contents m') = mset (contents m) \<and> sorted (map fst (contents m'))"
  using sort_ok [OF assms] by blast

theorem sort_sorts_contents_witness:
  "\<exists>m'. sort_camera_metadata list_qsort (Some demo_two) = Ok (CM_OK, Some m') \<and> cm_inv m' \<and> flag_ok m' \<and>
    mset (contents m') = mset (contents demo_two) \<and> sorted (map fst (contents m'))"
proof (rule sort_sorts_contents)
  show "cm_inv demo_two" by (rule demo_two_inv)
  show "flag_ok demo_two" by (simp add: flag_ok_def demo_two_fields)
qed (rule list_qsort_sorts)

text \<open>
  C21. \<open>find_camera_metadata_entry\<close>, with a \<open>bsearch\<close> that keeps its contract, reports not-found exactly when no entry of the
  packet has the tag, and otherwise an entry with the tag, its index and its type, by binary search in a sorted packet and
  by linear search in any other.
\<close>
theorem find_is_correct:
  assumes "cm_inv m" and "flag_ok m" and "bsearch_finds b"
  shows "\<exists>r. find_camera_metadata_entry b (Some m) tag = Ok r \<and> found m tag r"
  using find_ok [OF assms] .

theorem find_is_correct_witness:
  "\<exists>r. find_camera_metadata_entry list_bsearch (Some demo_two) 0x10000 = Ok r \<and> found demo_two 0x10000 r"
proof (rule find_is_correct)
  show "cm_inv demo_two" by (rule demo_two_inv)
  show "flag_ok demo_two" by (simp add: flag_ok_def demo_two_fields)
qed (rule list_bsearch_finds)

text \<open>
  C22. A packet that \<open>validate_camera_metadata_structure\<close> accepts can be read: \<open>get_camera_metadata_entry\<close> succeeds for every
  index below the entry count, and the data it points to lies inside the entry or inside the data array, as long as no
  entry announces a payload whose size wraps around.
\<close>
theorem validated_reads_in_bounds:
  assumes "validate_camera_metadata_structure vops (Some m) expected = Ok CM_OK"
    and "i < unat (entry_count m)" and "\<forall>e \<in> set (live m). psize e + 8 \<le> 2 ^ 32"
  shows "\<exists>x. get_camera_metadata_entry (Some m) i = Ok (CM_OK, Some x) \<and>
    (case me_data x of
       In_Data off \<Rightarrow> unat off + unat (me_count x) * tsize (me_type x) \<le> unat (data_capacity m)
     | In_Entry j \<Rightarrow> j = i \<and> unat (me_count x) * tsize (me_type x) \<le> 4)"
  using validated_get [OF assms] .

lemma demo_two_valid: "validate_camera_metadata_structure None (Some demo_two) None = Ok CM_OK"
  by code_simp

theorem validated_reads_in_bounds_witness:
  "\<exists>x. get_camera_metadata_entry (Some demo_two) 0 = Ok (CM_OK, Some x) \<and>
    (case me_data x of
       In_Data off \<Rightarrow> unat off + unat (me_count x) * tsize (me_type x) \<le> unat (data_capacity demo_two)
     | In_Entry j \<Rightarrow> j = 0 \<and> unat (me_count x) * tsize (me_type x) \<le> 4)"
  by (rule validated_reads_in_bounds [OF demo_two_valid])
    (simp_all add: demo_two_fields psize_def tsize_def camera_metadata_type_size_def)

text \<open>
  C23. \<open>validate_camera_metadata_structure\<close> accepts what the library builds: a well-formed packet laid out by
  \<open>place_camera_metadata\<close> at an aligned address, whose entries have the types the tables give their tags and whose
  empty entries are zero.
\<close>
theorem validate_accepts_built_packets:
  assumes "cm_inv m" and "laid_out m" and "\<forall>e \<in> set (live m). well_typed vops e"
    and "\<forall>n. expected = Some n \<longrightarrow> cm_size m \<le> n"
  shows "validate_camera_metadata_structure vops (Some m) expected = Ok CM_OK"
  using validate_ok [OF assms] .

lemma demo_two_layout: "cm_addr demo_two = 4096" "entries_start demo_two = 40" "data_start demo_two = 88" "cm_size demo_two = 112"
    "known_tag 0x10007 = Some (''afMode'', 0)" "known_tag 0x10000 = Some (''aeAntibandingMode'', 0)"
  by code_simp+

theorem validate_accepts_built_packets_witness:
  "validate_camera_metadata_structure None (Some demo_two) (Some 112) = Ok CM_OK"
  by (rule validate_accepts_built_packets [OF demo_two_inv])
    (simp_all add: laid_out_def demo_two_layout demo_two_fields well_typed_def ALIGN_TO_def calculate_camera_metadata_size_def)

text \<open>
  C24. The tag tables and the section bounds agree: for every 32 bit tag the lookups of type and name stay
  inside the tables. They return the vendor's answer for a vendor tag when vendor operations are set, the entry of the
  table when the tag is in one, and otherwise \<open>-1\<close> and \<open>NULL\<close>; and every type in the tables is a valid type.
\<close>
theorem tag_lookup_stays_in_tables:
  "get_camera_metadata_tag_type vops tag =
     Ok (if vendor_tag vops tag then get_camera_vendor_tag_type (the vops) tag
         else case known_tag tag of None \<Rightarrow> -1 | Some (_, ty) \<Rightarrow> uint ty) \<and>
   get_camera_metadata_tag_name vops tag =
     Ok (if vendor_tag vops tag then get_camera_vendor_tag_name (the vops) tag else map_option fst (known_tag tag)) \<and>
   (case known_tag tag of None \<Rightarrow> True | Some (_, ty) \<Rightarrow> unat ty < NUM_TYPES)"
  using tag_type_spec tag_name_spec known_tag_type [of tag] by (auto split: option.splits)

section \<open>Where the code misbehaves\<close>

definition demo_sorted_empty :: camera_metadata where
  "demo_sorted_empty = demo_empty\<lparr>cm_flags := 1\<rparr>"

text \<open>
  A packet that is empty and marked sorted stays marked when an unsorted packet is appended to it, and the binary search
  of \<open>find_camera_metadata_entry\<close> then reports an entry that is there as not found.
\<close>
theorem append_to_sorted_empty:
  "case append_camera_metadata (Some demo_sorted_empty) (Some demo_two) of
     Ok (rc, Some m) \<Rightarrow> rc = CM_OK \<and> map fst (contents m) = [0x10007, 0x10000] \<and> cm_flags m = FLAG_SORTED \<and>
       find_camera_metadata_entry list_bsearch (Some m) 0x10007 = Ok (NOT_FOUND, None)
   | _ \<Rightarrow> False"
  by code_simp

text \<open>
  \<open>entries_end\<close> is computed without the size of an entry: a packet whose data array starts inside its entry array is
  accepted.
\<close>

lemma validate_misses_overlap:
  "validate_camera_metadata_structure None (Some (demo_two\<lparr>data_start := 48, cm_size := 72\<rparr>)) (Some 72) = Ok CM_OK"
  by code_simp

definition demo_wrap :: camera_metadata where
  "demo_wrap = demo_two\<lparr>cm_entries := [\<lparr>e_tag = 0x10007, e_count = 0xFFFFFFFF, e_data = 0x7FFFFFFF, e_type = 0\<rparr>,
       \<lparr>e_tag = 0x10000, e_count = 1, e_data = 3, e_type = 0\<rparr>, blank_entry 0 0 0]\<rparr>"


text \<open>The same wrap-around makes an addition write past the four bytes of the entry, whatever the data.\<close>

lemma add_wrapped_count_faults:
  "add_camera_metadata_entry_raw (Some demo_empty) 0x10007 0 (Some bs) 0xFFFFFFFD = Fault Out_Of_Bounds"
proof -
  have f: "entry_count demo_empty = 0" "entry_capacity demo_empty = 3" "data_count demo_empty = 0" "data_capacity demo_empty = 24"
    by code_simp+
  have z: "calculate_camera_metadata_entry_data_size 0 0xFFFFFFFD = 0" "type_size_at 0 = Ok 1"
    by (simp_all add: calculate_camera_metadata_entry_data_size_def camera_metadata_type_size_def ALIGN_TO_def type_size_at_def)
  show ?thesis by (simp add: add_camera_metadata_entry_raw_def f z store_value_def mem_load_def mem_store_def)
qed

text \<open>An update to no values leaves the old bytes in the entry, and the packet no longer validates.\<close>

lemma update_to_zero_invalidates:
  "case update_camera_metadata_entry (Some demo_two) 1 [] 0 of
     Ok (rc, Some m, _) \<Rightarrow> rc = CM_OK \<and> validate_camera_metadata_structure None (Some m) None = Ok CM_ERROR
   | _ \<Rightarrow> False"
  by code_simp

text \<open>Copying an empty packet dereferences the null pointer that placing it returns, and cloning it fails.\<close>

lemma copy_empty_faults:
  "copy_camera_metadata (Some demo_raw) 128 demo_empty = Fault Null_Deref \<and>
   clone_camera_metadata (Some demo_raw) (Some demo_empty) = Ok None"
  by code_simp

end
