(* ===== verification/Hashmap.thy ===== *)
theory Hashmap
  imports Prelude "HOL-Library.Multiset"
begin

text \<open>
  \<open>libcutils/hashmap.c\<close>: a hash table with chained buckets.

  A key is a pointer; two keys can be different pointers and still be equal for the table's \<open>equals\<close>. A bucket is
  the list of its entries from the head of the chain. A value is a pointer, \<open>None\<close> for \<open>NULL\<close>. Hashes and
  sizes are \<open>32 word\<close>s; the arithmetic on \<open>int\<close> hashes wraps around, as it does on the supported targets, and a
  plain \<open>char\<close> is unsigned, as on ARM. Whether an allocation succeeds is an argument. \<open>errno\<close> is passed
  along. The mutex of the table is not part of the model.
\<close>

record ('k, 'v) Entry =
  ent_key :: 'k
  ent_hash :: u32
  ent_value :: "'v option"

record ('k, 'v) Hashmap =
  buckets :: "('k, 'v) Entry list list"
  bucketCount :: u32
  hm_hash :: "'k \<Rightarrow> u32"
  hm_equals :: "'k \<Rightarrow> 'k \<Rightarrow> bool"
  hm_size :: u32

section \<open>Creating\<close>

text \<open>The loop that doubles the bucket count; \<open>None\<close> when the fuel runs out.\<close>

fun grow_buckets :: "nat \<Rightarrow> u32 \<Rightarrow> u32 \<Rightarrow> u32 option" where
  "grow_buckets 0 n minimumBucketCount = (if n \<le> minimumBucketCount then None else Some n)"
| "grow_buckets (Suc fuel) n minimumBucketCount =
     (if n \<le> minimumBucketCount then grow_buckets fuel (push_bit 1 n) minimumBucketCount else Some n)"

definition hashmapCreate ::
  "bool \<Rightarrow> bool \<Rightarrow> u32 \<Rightarrow> ('k \<Rightarrow> u32) option \<Rightarrow> ('k \<Rightarrow> 'k \<Rightarrow> bool) option \<Rightarrow> ('k, 'v) Hashmap option outcome" where
  "hashmapCreate map_ok buckets_ok initialCapacity hash equals =
     (case (hash, equals) of
        (Some hash, Some equals) \<Rightarrow>
          if \<not> map_ok then Ok None
          else
            let minimumBucketCount = initialCapacity * 4 div 3
            in (case grow_buckets 32 1 minimumBucketCount of
                  None \<Rightarrow> Fault Diverges
                | Some n \<Rightarrow>
                    if \<not> buckets_ok then Ok None
                    else Ok (Some \<lparr>buckets = replicate (unat n) [], bucketCount = n, hm_hash = hash, hm_equals = equals,
                           hm_size = 0\<rparr>))
      | _ \<Rightarrow> Fault Assert_Fail)"

definition mix_hash :: "u32 \<Rightarrow> u32" where
  "mix_hash h0 =
     (let h1 = h0 + NOT (push_bit 9 h0);
          h2 = h1 XOR drop_bit 14 h1;
          h3 = h2 + push_bit 4 h2
      in h3 XOR drop_bit 10 h3)"

definition hashKey :: "('k, 'v) Hashmap \<Rightarrow> 'k \<Rightarrow> u32" where
  "hashKey hm key = mix_hash (hm_hash hm key)"

definition hashmapSize :: "('k, 'v) Hashmap \<Rightarrow> u32" where
  "hashmapSize hm = hm_size hm"

definition calculateIndex :: "u32 \<Rightarrow> u32 \<Rightarrow> u32" where
  "calculateIndex bc hash = hash AND (bc - 1)"

section \<open>Growing\<close>

definition push_entry :: "u32 \<Rightarrow> ('k, 'v) Entry list list \<Rightarrow> ('k, 'v) Entry \<Rightarrow> ('k, 'v) Entry list list" where
  "push_entry newBucketCount newBuckets entry =
     (let index = unat (calculateIndex newBucketCount (ent_hash entry))
      in newBuckets[index := entry # newBuckets ! index])"

fun move_entries :: "u32 \<Rightarrow> ('k, 'v) Entry list list \<Rightarrow> ('k, 'v) Entry list list \<Rightarrow> ('k, 'v) Entry list list" where
  "move_entries newBucketCount [] newBuckets = newBuckets"
| "move_entries newBucketCount (chain # rest) newBuckets =
     move_entries newBucketCount rest (foldl (push_entry newBucketCount) newBuckets chain)"

definition expandIfNecessary :: "bool \<Rightarrow> ('k, 'v) Hashmap \<Rightarrow> ('k, 'v) Hashmap" where
  "expandIfNecessary alloc_ok hm =
     (if hm_size hm > bucketCount hm * 3 div 4 then
        let newBucketCount = push_bit 1 (bucketCount hm)
        in if \<not> alloc_ok then hm
           else hm\<lparr>buckets := move_entries newBucketCount (buckets hm) (replicate (unat newBucketCount) []),
                  bucketCount := newBucketCount\<rparr>
      else hm)"

text \<open>The entries that \<open>hashmapFree\<close> frees, in order.\<close>

definition hashmapFree :: "('k, 'v) Hashmap \<Rightarrow> ('k, 'v) Entry list" where
  "hashmapFree hm = concat (take (unat (bucketCount hm)) (buckets hm))"

fun hash_loop :: "bytes \<Rightarrow> u32 \<Rightarrow> u32" where
  "hash_loop [] h = h"
| "hash_loop (c # cs) h = hash_loop cs (h * 31 + ucast c)"

definition hashmapHash :: "bytes \<Rightarrow> u32" where
  "hashmapHash key = hash_loop key (of_nat (length key))"

definition createEntry :: "bool \<Rightarrow> 'k \<Rightarrow> u32 \<Rightarrow> 'v option \<Rightarrow> ('k, 'v) Entry option" where
  "createEntry alloc_ok key hash value =
     (if alloc_ok then Some \<lparr>ent_key = key, ent_hash = hash, ent_value = value\<rparr> else None)"

definition equalKeys :: "'k \<Rightarrow> u32 \<Rightarrow> 'k \<Rightarrow> u32 \<Rightarrow> ('k \<Rightarrow> 'k \<Rightarrow> bool) \<Rightarrow> bool" where
  "equalKeys keyA hashA keyB hashB equals =
     (if keyA = keyB then True else if hashA \<noteq> hashB then False else equals keyA keyB)"

section \<open>Operations\<close>

text \<open>The chain a key belongs to.\<close>

definition bucket_at :: "('k, 'v) Hashmap \<Rightarrow> u32 \<Rightarrow> ('k, 'v) Entry list outcome" where
  "bucket_at hm index =
     (if unat index < length (buckets hm) then Ok (buckets hm ! unat index) else Fault Out_Of_Bounds)"

text \<open>The walk along a chain to the entry of a key: the entries before it, the entry, the entries after it.\<close>

fun chain_find :: "('k \<Rightarrow> 'k \<Rightarrow> bool) \<Rightarrow> 'k \<Rightarrow> u32 \<Rightarrow> ('k, 'v) Entry list
    \<Rightarrow> (('k, 'v) Entry list \<times> ('k, 'v) Entry \<times> ('k, 'v) Entry list) option" where
  "chain_find equals key hash [] = None"
| "chain_find equals key hash (current # next) =
     (if equalKeys (ent_key current) (ent_hash current) key hash equals then Some ([], current, next)
      else map_option (\<lambda>(before, found, after). (current # before, found, after)) (chain_find equals key hash next))"

definition hashmapPut ::
  "bool \<Rightarrow> bool \<Rightarrow> int \<Rightarrow> ('k, 'v) Hashmap \<Rightarrow> 'k \<Rightarrow> 'v option \<Rightarrow> ('v option \<times> int \<times> ('k, 'v) Hashmap) outcome" where
  "hashmapPut entry_ok expand_ok errno hm key value =
     (let hash = hashKey hm key; index = calculateIndex (bucketCount hm) hash
      in obind (bucket_at hm index)
           (\<lambda>chain.
              case chain_find (hm_equals hm) key hash chain of
                Some (before, current, after) \<Rightarrow>
                  Ok (ent_value current, errno,
                      hm\<lparr>buckets := (buckets hm)[unat index := before @ current\<lparr>ent_value := value\<rparr> # after]\<rparr>)
              | None \<Rightarrow>
                  (case createEntry entry_ok key hash value of
                     None \<Rightarrow> Ok (None, ENOMEM, hm)
                   | Some entry \<Rightarrow>
                       Ok (None, errno, expandIfNecessary expand_ok
                           (hm\<lparr>buckets := (buckets hm)[unat index := chain @ [entry]], hm_size := hm_size hm + 1\<rparr>)))))"

definition hashmapGet :: "('k, 'v) Hashmap \<Rightarrow> 'k \<Rightarrow> 'v option outcome" where
  "hashmapGet hm key =
     (let hash = hashKey hm key; index = calculateIndex (bucketCount hm) hash
      in obind (bucket_at hm index)
           (\<lambda>chain. case chain_find (hm_equals hm) key hash chain of
              None \<Rightarrow> Ok None | Some (_, entry, _) \<Rightarrow> Ok (ent_value entry)))"

definition hashmapContainsKey :: "('k, 'v) Hashmap \<Rightarrow> 'k \<Rightarrow> bool outcome" where
  "hashmapContainsKey hm key =
     (let hash = hashKey hm key; index = calculateIndex (bucketCount hm) hash
      in obind (bucket_at hm index) (\<lambda>chain. Ok (chain_find (hm_equals hm) key hash chain \<noteq> None)))"

text \<open>The callback is a function of the key; its context is fixed.\<close>

definition hashmapMemoize ::
  "bool \<Rightarrow> bool \<Rightarrow> int \<Rightarrow> ('k, 'v) Hashmap \<Rightarrow> 'k \<Rightarrow> ('k \<Rightarrow> 'v option) \<Rightarrow> ('v option \<times> int \<times> ('k, 'v) Hashmap) outcome" where
  "hashmapMemoize entry_ok expand_ok errno hm key initialValue =
     (let hash = hashKey hm key; index = calculateIndex (bucketCount hm) hash
      in obind (bucket_at hm index)
           (\<lambda>chain.
              case chain_find (hm_equals hm) key hash chain of
                Some (before, current, after) \<Rightarrow> Ok (ent_value current, errno, hm)
              | None \<Rightarrow>
                  (case createEntry entry_ok key hash None of
                     None \<Rightarrow> Ok (None, ENOMEM, hm)
                   | Some entry \<Rightarrow>
                       let value = initialValue key
                       in Ok (value, errno, expandIfNecessary expand_ok
                           (hm\<lparr>buckets := (buckets hm)[unat index := chain @ [entry\<lparr>ent_value := value\<rparr>]],
                              hm_size := hm_size hm + 1\<rparr>)))))"

definition hashmapRemove :: "('k, 'v) Hashmap \<Rightarrow> 'k \<Rightarrow> ('v option \<times> ('k, 'v) Hashmap) outcome" where
  "hashmapRemove hm key =
     (let hash = hashKey hm key; index = calculateIndex (bucketCount hm) hash
      in obind (bucket_at hm index)
           (\<lambda>chain.
              case chain_find (hm_equals hm) key hash chain of
                Some (before, current, after) \<Rightarrow>
                  Ok (ent_value current,
                      hm\<lparr>buckets := (buckets hm)[unat index := before @ after], hm_size := hm_size hm - 1\<rparr>)
              | None \<Rightarrow> Ok (None, hm)))"

text \<open>
  \<open>hashmapForEach\<close> reads the link of an entry before it calls back, so a callback may remove the entry it is given; it must
  leave the entries after it alone. The state \<open>'s\<close> is what the callback may change; \<open>get\<close> is the table in it.
\<close>

fun for_chain :: "('k \<Rightarrow> 'v option \<Rightarrow> 's \<Rightarrow> (bool \<times> 's) outcome) \<Rightarrow> ('k, 'v) Entry list \<Rightarrow> 's \<Rightarrow> (bool \<times> 's) outcome" where
  "for_chain callback [] s = Ok (True, s)"
| "for_chain callback (entry # next) s =
     obind (callback (ent_key entry) (ent_value entry) s)
       (\<lambda>(go_on, s'). if go_on then for_chain callback next s' else Ok (False, s'))"

fun for_buckets :: "('s \<Rightarrow> ('k, 'v) Hashmap) \<Rightarrow> ('k \<Rightarrow> 'v option \<Rightarrow> 's \<Rightarrow> (bool \<times> 's) outcome)
    \<Rightarrow> nat \<Rightarrow> nat \<Rightarrow> 's \<Rightarrow> 's outcome" where
  "for_buckets get callback i 0 s = Ok s"
| "for_buckets get callback i (Suc n) s =
     obind (bucket_at (get s) (of_nat i))
       (\<lambda>chain. obind (for_chain callback chain s)
         (\<lambda>(go_on, s'). if go_on then for_buckets get callback (Suc i) n s' else Ok s'))"

definition hashmapForEach ::
  "('s \<Rightarrow> ('k, 'v) Hashmap) \<Rightarrow> ('k \<Rightarrow> 'v option \<Rightarrow> 's \<Rightarrow> (bool \<times> 's) outcome) \<Rightarrow> 's \<Rightarrow> 's outcome" where
  "hashmapForEach get callback s = for_buckets get callback 0 (unat (bucketCount (get s))) s"

definition hashmapCurrentCapacity :: "('k, 'v) Hashmap \<Rightarrow> u32" where
  "hashmapCurrentCapacity hm = bucketCount hm * 3 div 4"

fun chain_collisions :: "('k, 'v) Entry list \<Rightarrow> u32 \<Rightarrow> u32" where
  "chain_collisions [] collisions = collisions"
| "chain_collisions (entry # next) collisions =
     chain_collisions next (if next \<noteq> [] then collisions + 1 else collisions)"

definition hashmapCountCollisions :: "('k, 'v) Hashmap \<Rightarrow> u32" where
  "hashmapCountCollisions hm = fold chain_collisions (take (unat (bucketCount hm)) (buckets hm)) 0"

text \<open>Keys that point to an \<open>int\<close>: \<open>deref\<close> reads it.\<close>

definition hashmapIntHash :: "('k \<Rightarrow> u32) \<Rightarrow> 'k \<Rightarrow> u32" where
  "hashmapIntHash deref key = deref key"

definition hashmapIntEquals :: "('k \<Rightarrow> u32) \<Rightarrow> 'k \<Rightarrow> 'k \<Rightarrow> bool" where
  "hashmapIntEquals deref keyA keyB = (deref keyA = deref keyB)"

end
