(* ===== verification/C_Library.thy ===== *)
theory C_Library
  imports Prelude
begin

text \<open>
  The functions of the C library on strings that several components call, as the bionic library defines them for a 32 bit
  \<open>long\<close> and the C locale. A string is the list of its characters up to the terminating zero.
\<close>

abbreviation (input) ENOENT :: int where "ENOENT \<equiv> 2"
abbreviation (input) EEXIST :: int where "EEXIST \<equiv> 17"

section \<open>Splitting\<close>

text \<open>The pieces between the occurrences of a delimiter, empty ones included.\<close>

fun pieces :: "char \<Rightarrow> string \<Rightarrow> string list" where
  "pieces d [] = [[]]"
| "pieces d (c # cs) = (if c = d then [] # pieces d cs else (case pieces d cs of p # ps \<Rightarrow> (c # p) # ps | [] \<Rightarrow> [[c]]))"

section \<open>Numbers\<close>

text \<open>\<open>snprintf\<close> with \<open>%d\<close>.\<close>

fun decimal :: "nat \<Rightarrow> string" where
  "decimal n = (if n < 10 then [char_of (48 + n)] else decimal (n div 10) @ [char_of (48 + n mod 10)])"

declare decimal.simps [simp del]

definition format_int :: "int \<Rightarrow> string" where
  "format_int i = (if i < 0 then CHR ''-'' # decimal (nat (- i)) else decimal (nat i))"

text \<open>\<open>strtol\<close> with base 0 and a 32 bit \<open>long\<close>: the value and the rest of the string.\<close>

definition digit_value :: "char \<Rightarrow> nat option" where
  "digit_value c =
     (let n = of_char c :: nat
      in if 48 \<le> n \<and> n \<le> 57 then Some (n - 48)
         else if 65 \<le> n \<and> n \<le> 90 then Some (n - 55)
         else if 97 \<le> n \<and> n \<le> 122 then Some (n - 87)
         else None)"

fun digits_loop :: "nat \<Rightarrow> string \<Rightarrow> nat \<Rightarrow> bool \<Rightarrow> nat \<times> bool \<times> string" where
  "digits_loop base [] acc any = (acc, any, [])"
| "digits_loop base (c # cs) acc any =
     (case digit_value c of
        Some d \<Rightarrow> if d < base then digits_loop base cs (acc * base + d) True else (acc, any, c # cs)
      | None \<Rightarrow> (acc, any, c # cs))"

definition is_space :: "char \<Rightarrow> bool" where
  "is_space c = (let n = of_char c :: nat in n = 32 \<or> 9 \<le> n \<and> n \<le> 13)"

definition LONG_MAX :: int where "LONG_MAX = 2147483647"
definition LONG_MIN :: int where "LONG_MIN = - 2147483648"

definition strtol :: "string \<Rightarrow> int \<times> string" where
  "strtol str =
     (let s1 = dropWhile is_space str;
          neg = (case s1 of c # _ \<Rightarrow> c = CHR ''-'' | [] \<Rightarrow> False);
          s2 = (case s1 of c # cs \<Rightarrow> if c = CHR ''-'' \<or> c = CHR ''+'' then cs else s1 | [] \<Rightarrow> []);
          hex = (case s2 of c # x # _ \<Rightarrow> c = CHR ''0'' \<and> (x = CHR ''x'' \<or> x = CHR ''X'') | _ \<Rightarrow> False);
          octal = (case s2 of c # _ \<Rightarrow> c = CHR ''0'' | [] \<Rightarrow> False);
          base = (if hex then 16 else if octal then 8 else 10);
          s3 = (if hex then drop 2 s2 else s2)
      in case digits_loop base s3 0 False of
           (acc, any, rest) \<Rightarrow>
             let v = (if neg then - int acc else int acc)
             in (max LONG_MIN (min LONG_MAX v), if any then rest else str))"

text \<open>\<open>strlcpy\<close>: the length of the source and the string that ends up in the destination.\<close>

definition strlcpy :: "string \<Rightarrow> u32 \<Rightarrow> nat \<times> string option" where
  "strlcpy src n = (length src, if n = 0 then None else Some (take (unat n - 1) src))"

text \<open>\<open>strtoul\<close> with base 10 and no end pointer. A minus sign negates in \<open>unsigned long\<close>; too large a value gives
  \<open>ULONG_MAX\<close>.\<close>

definition strtoul :: "string \<Rightarrow> u32" where
  "strtoul str =
     (let s1 = dropWhile is_space str;
          neg = (case s1 of c # _ \<Rightarrow> c = CHR ''-'' | [] \<Rightarrow> False);
          s2 = (case s1 of c # cs \<Rightarrow> if c = CHR ''-'' \<or> c = CHR ''+'' then cs else s1 | [] \<Rightarrow> [])
      in case digits_loop 10 s2 0 False of
           (acc, any, rest) \<Rightarrow> if int acc > 2 * LONG_MAX + 1 then - 1 else if neg then - of_nat acc else of_nat acc)"

section \<open>Comparing without case\<close>

definition tolower :: "char \<Rightarrow> char" where
  "tolower c = (let n = of_char c :: nat in if 65 \<le> n \<and> n \<le> 90 then char_of (n + 32) else c)"

text \<open>\<open>strcasecmp\<close> returns zero.\<close>

definition strcaseeq :: "string \<Rightarrow> string \<Rightarrow> bool" where
  "strcaseeq a b = (map tolower a = map tolower b)"

lemma strcaseeq_refl [simp]: "strcaseeq a a"
  by (simp add: strcaseeq_def)

lemma strcaseeq_sym: "strcaseeq a b \<Longrightarrow> strcaseeq b a"
  by (simp add: strcaseeq_def)

lemma strcaseeq_trans: "strcaseeq a b \<Longrightarrow> strcaseeq b c \<Longrightarrow> strcaseeq a c"
  by (simp add: strcaseeq_def)

lemma strcaseeq_length: "strcaseeq a b \<Longrightarrow> length a = length b"
  unfolding strcaseeq_def by (metis length_map)

end
