(* ===== verification/Str_Parms.thy ===== *)
theory Str_Parms
  imports Hashmap C_Library
begin

text \<open>
  \<open>libcutils/str_parms.c\<close>: parameter lists \<open>key=value;key=value\<close> on top of the hash table.

  A pointer to a string is its address and the characters up to the terminating zero, \<open>None\<close> for \<open>NULL\<close>; a copy made by
  \<open>strdup\<close> has an address of its own. The state holds the table, the addresses of the strings that are allocated, a counter
  from which addresses are taken, and \<open>errno\<close>. \<open>ok n\<close> tells whether the allocation with number \<open>n\<close> succeeds.
  Freeing an address that is not allocated is a fault. \<open>strcmp\<close> of \<open>NULL\<close> is undefined; in the table's comparison it
  counts as unequal. Logging is left out.
\<close>

type_synonym cstr = "(nat \<times> string) option"
type_synonym parm_map = "(cstr, nat \<times> string) Hashmap"

record str_parms =
  sp_map :: parm_map
  sp_live :: "nat list"
  sp_next :: nat
  sp_errno :: int

section \<open>The C library\<close>

definition strdup :: "(nat \<Rightarrow> bool) \<Rightarrow> str_parms \<Rightarrow> string \<Rightarrow> cstr \<times> str_parms" where
  "strdup ok s str =
     (if ok (sp_next s)
      then (Some (sp_next s, str), s\<lparr>sp_next := sp_next s + 1, sp_live := sp_next s # sp_live s\<rparr>)
      else (None, s\<lparr>sp_next := sp_next s + 1, sp_errno := ENOMEM\<rparr>))"

definition c_free :: "cstr \<Rightarrow> str_parms \<Rightarrow> str_parms outcome" where
  "c_free p s =
     (case p of
        None \<Rightarrow> Ok s
      | Some (a, _) \<Rightarrow> if a \<in> set (sp_live s) then Ok (s\<lparr>sp_live := remove1 a (sp_live s)\<rparr>) else Fault Use_After_Free)"

text \<open>The tokens that \<open>strtok_r\<close> with delimiter \<open>;\<close> returns one by one: the non-empty pieces.\<close>

definition strtok_tokens :: "string \<Rightarrow> string list" where
  "strtok_tokens str = filter (\<lambda>t. t \<noteq> []) (pieces (CHR '';'') str)"

section \<open>Keys\<close>

definition str_eq :: "cstr \<Rightarrow> cstr \<Rightarrow> bool" where
  "str_eq key_a key_b = (case (key_a, key_b) of (Some (_, a), Some (_, b)) \<Rightarrow> a = b | (None, None) \<Rightarrow> True | _ \<Rightarrow> False)"

fun djb_loop :: "string \<Rightarrow> u32 \<Rightarrow> u32" where
  "djb_loop [] hash = hash"
| "djb_loop (c # cs) hash = djb_loop cs ((push_bit 5 hash + hash) + of_nat (of_char c))"

definition str_hash_fn :: "cstr \<Rightarrow> u32" where
  "str_hash_fn str = (case str of None \<Rightarrow> 5381 | Some (_, s) \<Rightarrow> djb_loop s 5381)"

section \<open>Parameter lists\<close>

text \<open>\<open>live\<close>, \<open>next\<close> and \<open>errno\<close> are what the process has before the call.\<close>

definition str_parms_create :: "(nat \<Rightarrow> bool) \<Rightarrow> nat list \<Rightarrow> nat \<Rightarrow> int \<Rightarrow> str_parms option outcome" where
  "str_parms_create ok live next errno =
     (if \<not> ok next then Ok None
      else obind (hashmapCreate (ok (next + 1)) (ok (next + 2)) 5 (Some str_hash_fn) (Some str_eq))
             (\<lambda>m. case m of
                None \<Rightarrow> Ok None
              | Some m \<Rightarrow> Ok (Some \<lparr>sp_map = m, sp_live = live, sp_next = next + 3, sp_errno = errno\<rparr>)))"

definition remove_pair :: "cstr \<Rightarrow> cstr \<Rightarrow> (nat \<times> string) option \<Rightarrow> str_parms \<Rightarrow> (bool \<times> str_parms) outcome" where
  "remove_pair ctxt_key key val s =
     (let do_remove = (\<lambda>should_continue.
            obind (hashmapRemove (sp_map s) key)
              (\<lambda>(_, m). obind (c_free key (s\<lparr>sp_map := m\<rparr>))
                (\<lambda>s1. obind (c_free val s1) (\<lambda>s2. Ok (should_continue, s2)))))
      in case ctxt_key of
           None \<Rightarrow> do_remove True
         | Some (_, k) \<Rightarrow>
             (case key of
                None \<Rightarrow> Fault Null_Deref
              | Some (_, k') \<Rightarrow> if k = k' then do_remove False else Ok (True, s)))"

definition str_parms_del :: "str_parms \<Rightarrow> cstr \<Rightarrow> str_parms outcome" where
  "str_parms_del s key = hashmapForEach sp_map (remove_pair key) s"

text \<open>The strings that are still allocated after \<open>str_parms_destroy\<close>, and the entries \<open>hashmapFree\<close> frees.\<close>

definition str_parms_destroy :: "str_parms \<Rightarrow> (nat list \<times> (cstr, nat \<times> string) Entry list) outcome" where
  "str_parms_destroy s =
     obind (hashmapForEach sp_map (remove_pair None) s) (\<lambda>s'. Ok (sp_live s', hashmapFree (sp_map s')))"

text \<open>\<open>hashmapPut\<close> on the table of a parameter list.\<close>

definition sp_put :: "(nat \<Rightarrow> bool) \<Rightarrow> str_parms \<Rightarrow> cstr \<Rightarrow> cstr \<Rightarrow> (cstr \<times> str_parms) outcome" where
  "sp_put ok s key val =
     obind (hashmapPut (ok (sp_next s)) (ok (sp_next s + 1)) (sp_errno s) (sp_map s) key val)
       (\<lambda>(old, e, m). Ok (old, s\<lparr>sp_map := m, sp_errno := e, sp_next := sp_next s + 2\<rparr>))"

definition add_pair :: "(nat \<Rightarrow> bool) \<Rightarrow> str_parms \<Rightarrow> string \<Rightarrow> str_parms outcome" where
  "add_pair ok s kvpair =
     (let name = takeWhile (\<lambda>c. c \<noteq> CHR ''='') kvpair; eq = dropWhile (\<lambda>c. c \<noteq> CHR ''='') kvpair
      in if eq \<noteq> [] \<and> name = [] then Ok s
         else
           let (key, s1) = strdup ok s name;
               (val, s2) = strdup ok s1 (if eq \<noteq> [] then tl eq else [])
           in obind (sp_put ok s2 key val)
                (\<lambda>(old_val, s3).
                   if old_val \<noteq> None then obind (c_free old_val s3) (c_free key) else Ok s3))"

fun add_pairs :: "(nat \<Rightarrow> bool) \<Rightarrow> string list \<Rightarrow> str_parms \<Rightarrow> str_parms outcome" where
  "add_pairs ok [] s = Ok s"
| "add_pairs ok (kvpair # rest) s = obind (add_pair ok s kvpair) (add_pairs ok rest)"

definition str_parms_create_str ::
  "(nat \<Rightarrow> bool) \<Rightarrow> nat list \<Rightarrow> nat \<Rightarrow> int \<Rightarrow> string \<Rightarrow> str_parms option outcome" where
  "str_parms_create_str ok live next errno string =
     obind (str_parms_create ok live next errno)
       (\<lambda>sp. case sp of
          None \<Rightarrow> Ok None
        | Some s \<Rightarrow>
            let (str, s1) = strdup ok s string
            in (case str of
                  None \<Rightarrow> obind (str_parms_destroy s1) (\<lambda>_. Ok None)
                | Some (_, text) \<Rightarrow>
                    obind (add_pairs ok (strtok_tokens text) s1)
                      (\<lambda>s2. obind (c_free str s2) (\<lambda>s3. Ok (Some s3)))))"

definition str_parms_add_str :: "(nat \<Rightarrow> bool) \<Rightarrow> str_parms \<Rightarrow> string \<Rightarrow> string \<Rightarrow> (int \<times> str_parms) outcome" where
  "str_parms_add_str ok s key val =
     (let (tmp_key, s1) = strdup ok s key;
          (tmp_val, s2) = strdup ok s1 val
      in obind (sp_put ok s2 tmp_key tmp_val)
           (\<lambda>(old_val, s3).
              if old_val \<noteq> None then obind (c_free old_val s3) (\<lambda>s4. obind (c_free tmp_key s4) (\<lambda>s5. Ok (0, s5)))
              else if sp_errno s3 = ENOMEM
              then obind (c_free tmp_key s3) (\<lambda>s4. obind (c_free tmp_val s4) (\<lambda>s5. Ok (- ENOMEM, s5)))
              else Ok (0, s3)))"

definition str_parms_add_int :: "(nat \<Rightarrow> bool) \<Rightarrow> str_parms \<Rightarrow> string \<Rightarrow> int \<Rightarrow> (int \<times> str_parms) outcome" where
  "str_parms_add_int ok s key val = str_parms_add_str ok s key (take 11 (format_int val))"

text \<open>\<open>fmt\<close> is what \<open>snprintf\<close> with \<open>%.10f\<close> makes of a \<open>float\<close>.\<close>

definition str_parms_add_float ::
  "('f \<Rightarrow> string) \<Rightarrow> (nat \<Rightarrow> bool) \<Rightarrow> str_parms \<Rightarrow> string \<Rightarrow> 'f \<Rightarrow> (int \<times> str_parms) outcome" where
  "str_parms_add_float fmt ok s key val = str_parms_add_str ok s key (take 22 (fmt val))"

text \<open>The caller's key is a string of its own, at address \<open>a\<close>.\<close>

definition str_parms_get_str :: "str_parms \<Rightarrow> nat \<times> string \<Rightarrow> int \<Rightarrow> (int \<times> string option) outcome" where
  "str_parms_get_str s key len =
     obind (hashmapGet (sp_map s) (Some key))
       (\<lambda>v. case v of
          Some (_, str) \<Rightarrow> (case strlcpy str (word_of_int len) of (n, out) \<Rightarrow> Ok (int n, out))
        | None \<Rightarrow> Ok (- ENOENT, None))"

text \<open>The second component is the new content of \<open>*val\<close>, \<open>None\<close> when it is not written.\<close>

definition str_parms_get_int :: "str_parms \<Rightarrow> nat \<times> string \<Rightarrow> (int \<times> int option) outcome" where
  "str_parms_get_int s key =
     obind (hashmapGet (sp_map s) (Some key))
       (\<lambda>v. case v of
          None \<Rightarrow> Ok (- ENOENT, None)
        | Some (_, str) \<Rightarrow>
            (case strtol str of (n, rest) \<Rightarrow> Ok (if str \<noteq> [] \<and> rest = [] then 0 else - EINVAL, Some n)))"

text \<open>\<open>strtof\<close> gives a value and the rest of the string.\<close>

definition str_parms_get_float ::
  "(string \<Rightarrow> 'f \<times> string) \<Rightarrow> str_parms \<Rightarrow> nat \<times> string \<Rightarrow> (int \<times> 'f option) outcome" where
  "str_parms_get_float strtof s key =
     obind (hashmapGet (sp_map s) (Some key))
       (\<lambda>v. case v of
          None \<Rightarrow> Ok (- ENOENT, None)
        | Some (_, str) \<Rightarrow>
            (case strtof str of (out, rest) \<Rightarrow> Ok (if str \<noteq> [] \<and> rest = [] then 0 else - EINVAL, None)))"

text \<open>
  \<open>combine_strings\<close> with an \<open>asprintf\<close> that succeeds when \<open>ok\<close> says so; \<open>NULL\<close> prints as \<open>(null)\<close>. The state is the
  table, the string so far and the allocation counter.
\<close>

definition show_str :: "cstr \<Rightarrow> string" where
  "show_str p = (case p of None \<Rightarrow> ''(null)'' | Some (_, s) \<Rightarrow> s)"

definition combine_strings ::
  "(nat \<Rightarrow> bool) \<Rightarrow> cstr \<Rightarrow> cstr \<Rightarrow> parm_map \<times> string option \<times> nat
    \<Rightarrow> (bool \<times> parm_map \<times> string option \<times> nat) outcome" where
  "combine_strings ok key val st =
     (case st of (m, old_str, n) \<Rightarrow>
        if ok n
        then Ok (True, m, Some ((case old_str of None \<Rightarrow> [] | Some o' \<Rightarrow> o' @ '';'') @ show_str key @ ''='' @ show_str val), n + 1)
        else Ok (False, m, None, n + 1))"

definition str_parms_to_str :: "(nat \<Rightarrow> bool) \<Rightarrow> str_parms \<Rightarrow> string option outcome" where
  "str_parms_to_str ok s =
     (if hashmapSize (sp_map s) > 0
      then obind (hashmapForEach fst (combine_strings ok) (sp_map s, None, sp_next s)) (\<lambda>(_, str, _). Ok str)
      else Ok (if ok (sp_next s) then Some [] else None))"

end
