(* ===== verification/Hashmap_Props.thy ===== *)
theory Hashmap_Props
  imports Hashmap
begin

text \<open>
  The hash table as a map. \<open>hash_keys\<close> is what the table expects of the functions it is created with; under it every
  operation refines the operation on maps, the size counts the entries, and growing changes nothing.
\<close>

section \<open>Indices\<close>

lemma unat_calculateIndex:
  assumes "unat bc = 2 ^ k" and "k < 32"
  shows "unat (calculateIndex bc h) = unat h mod 2 ^ k"
proof -
  have "bc = word_of_nat (unat bc)" by simp
  also have "\<dots> = 2 ^ k" using assms by simp
  finally have "bc - 1 = mask k" by (simp add: mask_eq_exp_minus_1)
  then have "calculateIndex bc h = take_bit k h" by (simp add: calculateIndex_def take_bit_eq_mask)
  then show ?thesis by (simp only: unsigned_take_bit_eq) (simp add: take_bit_eq_mod)
qed

lemma index_less:
  assumes "unat bc = 2 ^ k" and "k < 32"
  shows "unat (calculateIndex bc h) < unat bc"
  using assms by (simp add: unat_calculateIndex)

section \<open>The doubling loop\<close>

lemma unat_double: "unat (n :: u32) < 2 ^ 31 \<Longrightarrow> unat (push_bit 1 n) = 2 * unat n"
  by (simp add: push_bit_eq_mult unat_word_ariths mult.commute)

lemma grow_buckets_finds:
  assumes "unat n = 2 ^ j" and "j + fuel = 32" and "unat m < 2 ^ 31"
  shows "\<exists>b k. grow_buckets fuel n m = Some b \<and> unat b = 2 ^ k \<and> k < 32 \<and> unat m < unat b"
  using assms
proof (induction fuel arbitrary: n j)
  case 0
  then have "unat n = 2 ^ 32" by simp
  then show ?case using unat_u32_less [of n] by simp
next
  case (Suc fuel)
  show ?case
  proof (cases "n \<le> m")
    case True
    then have lt: "unat n < 2 ^ 31" using Suc.prems(3) by (simp add: word_le_nat_alt)
    then have "unat (push_bit 1 n) = 2 ^ Suc j" using Suc.prems(1) unat_double [OF lt] by simp
    then show ?thesis using Suc.IH [of "push_bit 1 n" "Suc j"] Suc.prems True by simp
  next
    case False
    moreover have "j < 32" using Suc.prems(2) by simp
    ultimately show ?thesis using Suc.prems(1) by (auto simp: word_le_nat_alt)
  qed
qed

lemma minimum_small: "unat ((c :: u32) * 4 div 3) < 2 ^ 31"
proof -
  have "unat (c * 4 div 3) = unat (c * 4) div 3" by (simp add: unat_div)
  also have "\<dots> < 2 ^ 31" using unat_u32_less [of "c * 4"] by (simp add: div_less_iff_less_mult)
  finally show ?thesis .
qed

section \<open>Entries\<close>

definition entries :: "('k, 'v) Hashmap \<Rightarrow> ('k, 'v) Entry list" where
  "entries m = concat (buckets m)"

definition placed :: "u32 \<Rightarrow> ('k, 'v) Entry list list \<Rightarrow> bool" where
  "placed bc bs \<longleftrightarrow> (\<forall>i < length bs. \<forall>e \<in> set (bs ! i). unat (calculateIndex bc (ent_hash e)) = i)"

lemma mset_concat_update:
  "i < length bs \<Longrightarrow> mset (concat (bs[i := c])) + mset (bs ! i) = mset (concat bs) + mset c"
proof (induction bs arbitrary: i)
  case (Cons b bs)
  then show ?case by (cases i) (auto simp: ac_simps)
qed simp

lemma push_entry_ok:
  assumes "unat bc = 2 ^ k" "k < 32" and "length bs = unat bc" and "placed bc bs"
  shows "length (push_entry bc bs e) = unat bc" and "placed bc (push_entry bc bs e)"
    and "mset (concat (push_entry bc bs e)) = add_mset e (mset (concat bs))"
proof -
  let ?i = "unat (calculateIndex bc (ent_hash e))"
  have i: "?i < length bs" using index_less [OF assms(1,2)] assms(3) by simp
  show "length (push_entry bc bs e) = unat bc" using assms(3) by (simp add: push_entry_def Let_def)
  show "placed bc (push_entry bc bs e)"
    using assms(4) i by (auto simp: push_entry_def placed_def Let_def nth_list_update)
  have "mset (concat (push_entry bc bs e)) + mset (bs ! ?i) = mset (concat bs) + mset (e # bs ! ?i)"
    unfolding push_entry_def Let_def by (rule mset_concat_update [OF i])
  then show "mset (concat (push_entry bc bs e)) = add_mset e (mset (concat bs))" by simp
qed

lemma push_chain_ok:
  assumes "unat bc = 2 ^ k" "k < 32" and "length bs = unat bc" and "placed bc bs"
  shows "length (foldl (push_entry bc) bs es) = unat bc \<and> placed bc (foldl (push_entry bc) bs es) \<and>
    mset (concat (foldl (push_entry bc) bs es)) = mset es + mset (concat bs)"
  using assms(3,4)
proof (induction es arbitrary: bs)
  case (Cons e es)
  note p = push_entry_ok [OF assms(1,2) Cons.prems, of e]
  show ?case using Cons.IH [OF p(1,2)] p(3) by simp
qed simp

lemma move_entries_ok:
  assumes "unat bc = 2 ^ k" "k < 32" and "length bs = unat bc" and "placed bc bs"
  shows "length (move_entries bc old bs) = unat bc \<and> placed bc (move_entries bc old bs) \<and>
    mset (concat (move_entries bc old bs)) = mset (concat old) + mset (concat bs)"
  using assms(3,4)
proof (induction old arbitrary: bs)
  case (Cons chain old)
  have p: "length (foldl (push_entry bc) bs chain) = unat bc" "placed bc (foldl (push_entry bc) bs chain)"
      "mset (concat (foldl (push_entry bc) bs chain)) = mset chain + mset (concat bs)"
    using push_chain_ok [OF assms(1,2) Cons.prems, of chain] by simp_all
  show ?case using Cons.IH [OF p(1,2)] p(3) by (simp add: ac_simps)
qed simp

lemma concat_set_nth: "e \<in> set (concat bs) \<longleftrightarrow> (\<exists>i < length bs. e \<in> set (bs ! i))"
  unfolding set_concat by (metis UN_iff in_set_conv_nth)

lemma chain_find_Some:
  "chain_find eq key h es = Some (b, c, a) \<Longrightarrow> es = b @ c # a \<and> equalKeys (ent_key c) (ent_hash c) key h eq"
  by (induction es arbitrary: b) (auto split: if_splits)

lemma chain_find_None:
  "chain_find eq key h es = None \<longleftrightarrow> (\<forall>e \<in> set es. \<not> equalKeys (ent_key e) (ent_hash e) key h eq)"
  by (induction es) auto

section \<open>Iteration\<close>

lemma for_chain_append:
  "for_chain cb (xs @ ys) s =
     obind (for_chain cb xs s) (\<lambda>(go_on, s'). if go_on then for_chain cb ys s' else Ok (False, s'))"
proof (induction xs arbitrary: s)
  case (Cons e es)
  show ?case by (cases "cb (ent_key e) (ent_value e) s") (auto simp: Cons.IH split: prod.splits)
qed simp

lemma for_chain_keeps:
  assumes "\<And>k v s go_on s'. cb k v s = Ok (go_on, s') \<Longrightarrow> f s' = f s" and "for_chain cb es s = Ok (go_on, s')"
  shows "f s' = f s"
  using assms(2)
proof (induction es arbitrary: s)
  case (Cons e es)
  then obtain g t where t: "cb (ent_key e) (ent_value e) s = Ok (g, t)" by auto
  then show ?case using Cons.prems Cons.IH [of t] assms(1) [OF t] by (cases g) auto
qed simp

text \<open>A callback that leaves the table alone sees its entries in order.\<close>

lemma for_buckets_keeping:
  assumes keep: "\<And>k v s go_on s'. cb k v s = Ok (go_on, s') \<Longrightarrow> buckets (get s') = buckets (get s)"
    and len: "i + n = length (buckets (get s))" "length (buckets (get s)) < 2 ^ 32"
  shows "for_buckets get cb i n s = obind (for_chain cb (concat (drop i (buckets (get s)))) s) (\<lambda>(_, s'). Ok s')"
  using len
proof (induction n arbitrary: i s)
  case (Suc n)
  let ?bs = "buckets (get s)"
  have i: "i < length ?bs" "unat (word_of_nat i :: u32) = i" using Suc.prems by (simp_all add: unat_of_nat)
  have d: "drop i ?bs = ?bs ! i # drop (Suc i) ?bs" using i(1) by (simp add: Cons_nth_drop_Suc)
  have b: "bucket_at (get s) (word_of_nat i) = Ok (?bs ! i)" using i by (simp add: bucket_at_def)
  show ?case
  proof (cases "for_chain cb (?bs ! i) s")
    case (Ok x)
    then obtain g t where t: "for_chain cb (?bs ! i) s = Ok (g, t)" by (cases x) auto
    have "buckets (get t) = ?bs" using for_chain_keeps [where f = "\<lambda>s. buckets (get s)", OF keep t] by simp
    then show ?thesis using t b Suc.IH [of "Suc i" t] Suc.prems by (simp add: d for_chain_append)
  next
    case (Fault e)
    then show ?thesis using b by (simp add: d for_chain_append)
  qed
qed simp

lemma hashmapForEach_keeping:
  assumes "\<And>k v s go_on s'. cb k v s = Ok (go_on, s') \<Longrightarrow> buckets (get s') = buckets (get s)"
    and "length (buckets (get s)) = unat (bucketCount (get s))"
  shows "hashmapForEach get cb s = obind (for_chain cb (entries (get s)) s) (\<lambda>(_, s'). Ok s')"
  using for_buckets_keeping [where get = get and cb = cb and i = 0 and n = "unat (bucketCount (get s))" and s = s, OF assms(1)] assms(2)
    unat_u32_less [of "bucketCount (get s)"]
  by (simp add: hashmapForEach_def entries_def)

section \<open>Maps\<close>

text \<open>
  A callback that removes the entry it is called with, as the head of its bucket, and keeps an invariant: the whole walk
  leaves the table empty.
\<close>

definition clearing :: "('s \<Rightarrow> bool) \<Rightarrow> ('s \<Rightarrow> ('k, 'v) Hashmap) \<Rightarrow> ('k \<Rightarrow> 'v option \<Rightarrow> 's \<Rightarrow> (bool \<times> 's) outcome) \<Rightarrow> bool" where
  "clearing I get cb \<longleftrightarrow>
     (\<forall>s. I s \<longrightarrow> length (buckets (get s)) = unat (bucketCount (get s))) \<and>
     (\<forall>s i e es. I s \<longrightarrow> i < length (buckets (get s)) \<longrightarrow> buckets (get s) ! i = e # es \<longrightarrow>
        (\<exists>s'. cb (ent_key e) (ent_value e) s = Ok (True, s') \<and> I s' \<and> buckets (get s') = (buckets (get s))[i := es]))"

lemma clearing_chain:
  assumes "clearing I get cb" and "I s" and "i < length (buckets (get s))" "buckets (get s) ! i = es"
  shows "\<exists>s'. for_chain cb es s = Ok (True, s') \<and> I s' \<and> buckets (get s') = (buckets (get s))[i := []]"
  using assms(2-)
proof (induction es arbitrary: s)
  case Nil
  then show ?case by (intro exI [of _ s]) (simp, metis list_update_id)
next
  case (Cons e es)
  obtain s1 where s1: "cb (ent_key e) (ent_value e) s = Ok (True, s1)" "I s1" "buckets (get s1) = (buckets (get s))[i := es]"
    using assms(1) Cons.prems unfolding clearing_def by blast
  obtain s' where "for_chain cb es s1 = Ok (True, s')" "I s'" "buckets (get s') = (buckets (get s1))[i := []]"
    using Cons.IH [OF s1(2)] s1(3) Cons.prems(2) by auto
  then show ?case using s1 by (intro exI [of _ s']) simp
qed

lemma clearing_buckets:
  assumes "clearing I get cb" and "I s" and "i + n = length (buckets (get s))" and "\<forall>j < i. buckets (get s) ! j = []"
  shows "\<exists>s'. for_buckets get cb i n s = Ok s' \<and> I s' \<and> entries (get s') = []"
  using assms(2-)
proof (induction n arbitrary: i s)
  case 0
  then have "\<forall>b \<in> set (buckets (get s)). b = []" by (auto simp: in_set_conv_nth)
  then show ?case using 0 by (auto simp: entries_def)
next
  case (Suc n)
  let ?bs = "buckets (get s)"
  have i: "i < length ?bs" using Suc.prems(2) by simp
  have "length ?bs < 2 ^ 32"
    using assms(1) Suc.prems(1) unat_u32_less [of "bucketCount (get s)"] unfolding clearing_def by simp
  then have b: "bucket_at (get s) (word_of_nat i) = Ok (?bs ! i)" using i by (simp add: bucket_at_def unat_of_nat)
  obtain s1 where s1: "for_chain cb (?bs ! i) s = Ok (True, s1)" "I s1" "buckets (get s1) = ?bs[i := []]"
    using clearing_chain [OF assms(1) Suc.prems(1) i refl] by blast
  have "\<forall>j < Suc i. buckets (get s1) ! j = []" using s1(3) i Suc.prems(3) by (auto simp: less_Suc_eq)
  then show ?case using Suc.IH [OF s1(2), of "Suc i"] s1 b Suc.prems(2) by simp
qed

lemma for_each_clears:
  assumes "clearing I get cb" and "I s"
  shows "\<exists>s'. hashmapForEach get cb s = Ok s' \<and> I s' \<and> entries (get s') = []"
  using clearing_buckets [OF assms, of 0 "length (buckets (get s))"] assms
  by (simp add: hashmapForEach_def clearing_def)

text \<open>What a list of entries says about a key.\<close>

definition view :: "('k \<Rightarrow> 'k \<Rightarrow> bool) \<Rightarrow> ('k, 'v) Entry list \<Rightarrow> 'k \<Rightarrow> 'v option option" where
  "view eq es k = map_option ent_value (find (\<lambda>e. eq (ent_key e) k) es)"

definition uniq :: "('k \<Rightarrow> 'k \<Rightarrow> bool) \<Rightarrow> ('k, 'v) Entry multiset \<Rightarrow> bool" where
  "uniq eq M \<longleftrightarrow> (\<forall>a \<in># M. \<forall>b \<in># M - {#a#}. \<not> eq (ent_key a) (ent_key b))"

definition hm_ok :: "('k \<Rightarrow> u32) \<Rightarrow> ('k \<Rightarrow> 'k \<Rightarrow> bool) \<Rightarrow> ('k, 'v) Hashmap \<Rightarrow> bool" where
  "hm_ok hash eq m \<longleftrightarrow> hm_hash m = hash \<and> hm_equals m = eq \<and> (\<exists>k < 32. unat (bucketCount m) = 2 ^ k) \<and>
     length (buckets m) = unat (bucketCount m) \<and> placed (bucketCount m) (buckets m) \<and>
     (\<forall>e \<in> set (entries m). ent_hash e = mix_hash (hash (ent_key e))) \<and>
     uniq eq (mset (entries m)) \<and> unat (hm_size m) = length (entries m)"

definition hm_view :: "('k, 'v) Hashmap \<Rightarrow> 'k \<Rightarrow> 'v option option" where
  "hm_view m = view (hm_equals m) (entries m)"

text \<open>The bucket of a key, for a table in order.\<close>

definition chain_of :: "('k, 'v) Hashmap \<Rightarrow> 'k \<Rightarrow> ('k, 'v) Entry list" where
  "chain_of m key = buckets m ! unat (calculateIndex (bucketCount m) (hashKey m key))"

text \<open>Replacing the chain of a key; \<open>c\<close> keeps to its bucket.\<close>

definition with_chain :: "('k, 'v) Hashmap \<Rightarrow> 'k \<Rightarrow> ('k, 'v) Entry list \<Rightarrow> ('k, 'v) Entry list list" where
  "with_chain m key c = (buckets m)[unat (calculateIndex (bucketCount m) (hashKey m key)) := c]"

text \<open>
  What \<open>hashmapCreate\<close>'s caller must hand over: an equivalence, and a hash that respects it. The table only compares
  hashes after \<open>hashKey\<close> has mixed them.
\<close>

locale hash_keys =
  fixes hash :: "'k \<Rightarrow> u32" and eq :: "'k \<Rightarrow> 'k \<Rightarrow> bool"
  assumes eq_refl: "eq a a"
    and eq_sym: "eq a b \<Longrightarrow> eq b a"
    and eq_trans: "eq a b \<Longrightarrow> eq b c \<Longrightarrow> eq a c"
    and eq_hash: "eq a b \<Longrightarrow> mix_hash (hash a) = mix_hash (hash b)"
begin

lemma uniq_add:
  "uniq eq (add_mset e M) \<longleftrightarrow> uniq eq M \<and> (\<forall>b \<in># M. \<not> eq (ent_key e) (ent_key b))"
proof
  assume u: "uniq eq (add_mset e M)"
  have "\<not> eq (ent_key a) (ent_key b)" if "a \<in># M" "b \<in># M - {#a#}" for a b
  proof -
    have "b \<in># add_mset e M - {#a#}" using that by (simp add: insert_DiffM2 add_mset_remove_trivial_If)
    then show ?thesis using u that by (auto simp: uniq_def)
  qed
  then show "uniq eq M \<and> (\<forall>b \<in># M. \<not> eq (ent_key e) (ent_key b))" using u by (auto simp: uniq_def)
next
  assume u: "uniq eq M \<and> (\<forall>b \<in># M. \<not> eq (ent_key e) (ent_key b))"
  show "uniq eq (add_mset e M)"
    unfolding uniq_def
  proof (intro ballI)
    fix a b
    assume a: "a \<in># add_mset e M" and b: "b \<in># add_mset e M - {#a#}"
    show "\<not> eq (ent_key a) (ent_key b)"
    proof (cases "a = e")
      case True then show ?thesis using b u by simp
    next
      case False
      then have "a \<in># M" using a by simp
      moreover have "b = e \<or> b \<in># M - {#a#}" using b False by (auto simp: add_mset_remove_trivial_If split: if_splits)
      ultimately show ?thesis using u eq_sym by (auto simp: uniq_def)
    qed
  qed
qed

lemma view_Some_iff:
  assumes "uniq eq (mset es)"
  shows "view eq es k = Some v \<longleftrightarrow> (\<exists>e \<in> set es. eq (ent_key e) k \<and> ent_value e = v)"
  using assms
proof (induction es)
  case (Cons e es)
  then have u: "uniq eq (mset es)" "\<forall>b \<in> set es. \<not> eq (ent_key e) (ent_key b)" by (simp_all add: uniq_add)
  show ?case
  proof (cases "eq (ent_key e) k")
    case True
    then have "\<not> eq (ent_key b) k" if "b \<in> set es" for b using u(2) that eq_sym eq_trans by blast
    then show ?thesis using True by (auto simp: view_def)
  next
    case False
    then show ?thesis using Cons.IH [OF u(1)] by (auto simp: view_def)
  qed
qed (simp add: view_def)

lemma view_perm:
  assumes "mset es = mset es'" and "uniq eq (mset es)"
  shows "view eq es = view eq es'"
proof
  fix k
  have "view eq es k = Some v \<longleftrightarrow> view eq es' k = Some v" for v
    using view_Some_iff assms by (metis mset_eq_setD)
  then show "view eq es k = view eq es' k" by (metis not_None_eq)
qed

lemma view_add:
  assumes "mset es = add_mset e (mset es0)" and "uniq eq (mset es)"
  shows "view eq es k = (if eq (ent_key e) k then Some (ent_value e) else view eq es0 k)"
proof -
  have "view eq es = view eq (e # es0)" using assms by (intro view_perm) simp_all
  then show ?thesis by (simp add: view_def)
qed

lemma view_gone:
  assumes "mset es = add_mset e (mset es0)" and "uniq eq (mset es)" and "eq (ent_key e) k"
  shows "view eq es0 k = None"
proof -
  have "\<forall>b \<in> set es0. \<not> eq (ent_key e) (ent_key b)" using assms by (simp add: uniq_add)
  then have "\<not> eq (ent_key b) k" if "b \<in> set es0" for b using assms(3) that eq_sym eq_trans by blast
  then show ?thesis by (simp add: view_def find_None_iff)
qed

section \<open>Chains\<close>

lemma chain_of_at:
  assumes "hm_ok hash eq m"
  shows "unat (calculateIndex (bucketCount m) (hashKey m key)) < length (buckets m)"
    and "bucket_at m (calculateIndex (bucketCount m) (hashKey m key)) = Ok (chain_of m key)"
    and "set (chain_of m key) \<subseteq> set (entries m)"
proof -
  show i: "unat (calculateIndex (bucketCount m) (hashKey m key)) < length (buckets m)"
    using assms index_less by (auto simp: hm_ok_def)
  show "bucket_at m (calculateIndex (bucketCount m) (hashKey m key)) = Ok (chain_of m key)"
    using i by (simp add: bucket_at_def chain_of_def)
  show "set (chain_of m key) \<subseteq> set (entries m)" using i nth_mem by (auto simp: chain_of_def entries_def)
qed

lemma equalKeys_iff:
  assumes "hm_ok hash eq m" and "e \<in> set (entries m)"
  shows "equalKeys (ent_key e) (ent_hash e) key (hashKey m key) (hm_equals m) \<longleftrightarrow> eq (ent_key e) key"
  using assms eq_refl eq_hash by (auto simp: equalKeys_def hm_ok_def hashKey_def)

lemma equal_in_chain:
  assumes "hm_ok hash eq m" and "e \<in> set (entries m)" and "eq (ent_key e) key"
  shows "e \<in> set (chain_of m key)"
proof -
  have h: "ent_hash e = hashKey m key" using assms eq_hash by (auto simp: hm_ok_def hashKey_def)
  obtain i where i: "i < length (buckets m)" "e \<in> set (buckets m ! i)"
    using assms(2) unfolding entries_def by (metis concat_set_nth)
  then have "unat (calculateIndex (bucketCount m) (ent_hash e)) = i" using assms(1) by (auto simp: hm_ok_def placed_def)
  then show ?thesis using i h by (simp add: chain_of_def)
qed

lemma find_None:
  assumes "hm_ok hash eq m"
  shows "chain_find (hm_equals m) key (hashKey m key) (chain_of m key) = None \<longleftrightarrow> hm_view m key = None"
proof -
  have "chain_find (hm_equals m) key (hashKey m key) (chain_of m key) = None \<longleftrightarrow> (\<forall>e \<in> set (entries m). \<not> eq (ent_key e) key)"
    unfolding chain_find_None using equalKeys_iff [OF assms] equal_in_chain [OF assms] chain_of_at(3) [OF assms] by blast
  also have "\<dots> \<longleftrightarrow> hm_view m key = None"
    using assms by (auto simp: hm_view_def view_def hm_ok_def find_None_iff)
  finally show ?thesis .
qed

lemma find_Some:
  assumes ok: "hm_ok hash eq m"
    and find: "chain_find (hm_equals m) key (hashKey m key) (chain_of m key) = Some (b, c, a)"
  shows "chain_of m key = b @ c # a" and "eq (ent_key c) key" and "hm_view m key = Some (ent_value c)"
    and "c \<in> set (entries m)"
proof -
  show s: "chain_of m key = b @ c # a" using chain_find_Some [OF find] by simp
  then show c: "c \<in> set (entries m)" using chain_of_at(3) [OF ok, of key] by auto
  then show e: "eq (ent_key c) key" using equalKeys_iff [OF ok c] chain_find_Some [OF find] by simp
  have "view eq (entries m) key = Some (ent_value c)"
    using ok c e by (subst view_Some_iff) (auto simp: hm_ok_def)
  then show "hm_view m key = Some (ent_value c)" using ok by (simp add: hm_view_def hm_ok_def)
qed

lemma with_chain_ok:
  assumes ok: "hm_ok hash eq m" and c: "\<forall>e \<in> set c. ent_hash e = hashKey m key \<or> e \<in> set (chain_of m key)"
  shows "length (with_chain m key c) = unat (bucketCount m)" and "placed (bucketCount m) (with_chain m key c)"
    and "mset (concat (with_chain m key c)) + mset (chain_of m key) = mset (entries m) + mset c"
proof -
  show "length (with_chain m key c) = unat (bucketCount m)" using ok by (simp add: with_chain_def hm_ok_def)
  show "placed (bucketCount m) (with_chain m key c)"
    using ok c chain_of_at(1) [OF ok, of key] by (auto simp: placed_def with_chain_def nth_list_update hm_ok_def chain_of_def)
  show "mset (concat (with_chain m key c)) + mset (chain_of m key) = mset (entries m) + mset c"
    unfolding with_chain_def chain_of_def entries_def by (rule mset_concat_update [OF chain_of_at(1) [OF ok]])
qed

section \<open>Operations\<close>

lemma expand_ok:
  assumes "hm_ok hash eq m" and "unat (hm_size m) \<le> 2 ^ 29"
  shows "hm_ok hash eq (expandIfNecessary alloc m)" and "hm_view (expandIfNecessary alloc m) = hm_view m"
    and "hm_size (expandIfNecessary alloc m) = hm_size m"
    and "mset (entries (expandIfNecessary alloc m)) = mset (entries m)"
proof -
  show "hm_size (expandIfNecessary alloc m) = hm_size m" by (simp add: expandIfNecessary_def Let_def)
  obtain k where k: "k < 32" "unat (bucketCount m) = 2 ^ k" using assms(1) by (auto simp: hm_ok_def)
  let ?n = "push_bit 1 (bucketCount m)"
  have "hm_ok hash eq (expandIfNecessary alloc m) \<and> mset (entries (expandIfNecessary alloc m)) = mset (entries m)"
  proof (cases "hm_size m > bucketCount m * 3 div 4 \<and> alloc")
    case True
    have k30: "k < 31"
    proof (rule ccontr)
      assume "\<not> k < 31"
      then have "k = 31" using k by simp
      then have "bucketCount m = 2147483648" using k(2) by (simp add: word_unat_eq_iff)
      then have "bucketCount m * 3 div 4 = 536870912" by simp
      then show False using True assms(2) by (simp add: word_less_nat_alt)
    qed
    then have "(2 :: nat) ^ k < 2 ^ 31" by (intro power_strict_increasing) simp_all
    then have n: "unat ?n = 2 ^ Suc k" using k unat_double [of "bucketCount m"] by simp
    have "placed ?n (replicate (unat ?n) [])" by (simp add: placed_def)
    then have "length (move_entries ?n (buckets m) (replicate (unat ?n) [])) = unat ?n \<and>
        placed ?n (move_entries ?n (buckets m) (replicate (unat ?n) [])) \<and>
        mset (concat (move_entries ?n (buckets m) (replicate (unat ?n) []))) = mset (entries m)"
      using move_entries_ok [OF n, of "replicate (unat ?n) []" "buckets m"] k30 by (simp add: entries_def)
    moreover from this have "set (concat (move_entries ?n (buckets m) (replicate (unat ?n) []))) = set (entries m)"
      "length (concat (move_entries ?n (buckets m) (replicate (unat ?n) []))) = length (entries m)"
      by (metis set_mset_mset, metis size_mset)
    moreover have "\<exists>j < 32. unat ?n = 2 ^ j" using n k30 by (intro exI [of _ "Suc k"]) simp
    ultimately show ?thesis
      using True assms(1) unfolding hm_ok_def expandIfNecessary_def Let_def entries_def by auto
  next
    case False
    then show ?thesis using assms(1) by (auto simp: expandIfNecessary_def Let_def)
  qed
  then show o: "hm_ok hash eq (expandIfNecessary alloc m)" and e: "mset (entries (expandIfNecessary alloc m)) = mset (entries m)"
    by blast+
  show "hm_view (expandIfNecessary alloc m) = hm_view m"
    using o assms(1) view_perm [OF e] by (simp add: hm_view_def hm_ok_def)
qed

lemma put_replace_entries:
  assumes ok: "hm_ok hash eq m" and find: "chain_find (hm_equals m) key (hashKey m key) (chain_of m key) = Some (b, c, a)"
  shows "\<forall>e \<in> set (b @ c\<lparr>ent_value := v\<rparr> # a). ent_hash e = hashKey m key \<or> e \<in> set (chain_of m key)"
    and "add_mset c (mset (concat (with_chain m key (b @ c\<lparr>ent_value := v\<rparr> # a)))) = add_mset (c\<lparr>ent_value := v\<rparr>) (mset (entries m))"
proof -
  note f = find_Some [OF ok find]
  have "ent_hash c = hashKey m key" using ok f(2,4) eq_hash by (auto simp: hm_ok_def hashKey_def)
  then show k: "\<forall>e \<in> set (b @ c\<lparr>ent_value := v\<rparr> # a). ent_hash e = hashKey m key \<or> e \<in> set (chain_of m key)"
    using f(1) by auto
  show "add_mset c (mset (concat (with_chain m key (b @ c\<lparr>ent_value := v\<rparr> # a)))) = add_mset (c\<lparr>ent_value := v\<rparr>) (mset (entries m))"
    using with_chain_ok(3) [OF ok k] by (simp add: f(1))
qed

lemma put_replace:
  assumes ok: "hm_ok hash eq m" and find: "chain_find (hm_equals m) key (hashKey m key) (chain_of m key) = Some (b, c, a)"
    and m': "m' = m\<lparr>buckets := with_chain m key (b @ c\<lparr>ent_value := v\<rparr> # a)\<rparr>"
  shows "hm_ok hash eq m'" and "hm_view m' = (\<lambda>k. if eq key k then Some v else hm_view m k)"
proof -
  let ?c = "c\<lparr>ent_value := v\<rparr>"
  note f = find_Some [OF ok find]
  note w = with_chain_ok [OF ok put_replace_entries(1) [OF ok find]]
  have M: "add_mset c (mset (entries m')) = add_mset ?c (mset (entries m))"
    using put_replace_entries(2) [OF ok find, of v] by (simp add: m' entries_def)
  obtain rest where r: "mset (entries m) = add_mset c (mset rest)"
    using f(4) by (metis ex_mset insert_DiffM set_mset_mset)
  then have r': "mset (entries m') = add_mset ?c (mset rest)" using M by simp
  have u: "uniq eq (add_mset c (mset rest))" using ok r by (simp add: hm_ok_def)
  then have u': "uniq eq (mset (entries m'))" by (simp add: r' uniq_add)
  have "set (entries m') = insert ?c (set rest)" "set (entries m) = insert c (set rest)"
    using r r' by (metis set_mset_add_mset_insert set_mset_mset)+
  moreover have "length (entries m') = length (entries m)" using r r' by (metis size_add_mset size_mset)
  ultimately show "hm_ok hash eq m'" using ok w(1,2) u' by (auto simp: hm_ok_def m')
  show "hm_view m' = (\<lambda>k. if eq key k then Some v else hm_view m k)"
  proof
    fix k
    have "eq (ent_key c) k \<longleftrightarrow> eq key k" using f(2) eq_sym eq_trans by blast
    then show "hm_view m' k = (if eq key k then Some v else hm_view m k)"
      using view_add [OF r' u'] view_add [OF r] u r ok by (simp add: hm_view_def hm_ok_def m')
  qed
qed

lemma put_new:
  assumes ok: "hm_ok hash eq m" and none: "hm_view m key = None" and size: "unat (hm_size m) < 2 ^ 29"
    and m': "m' = m\<lparr>buckets := with_chain m key (chain_of m key @ [\<lparr>ent_key = key, ent_hash = hashKey m key, ent_value = v\<rparr>]),
               hm_size := hm_size m + 1\<rparr>"
  shows "hm_ok hash eq m'" and "hm_view m' = (\<lambda>k. if eq key k then Some v else hm_view m k)"
    and "unat (hm_size m') = Suc (unat (hm_size m))"
proof -
  let ?e = "\<lparr>ent_key = key, ent_hash = hashKey m key, ent_value = v\<rparr>"
  have w: "length (buckets m') = unat (bucketCount m)" "placed (bucketCount m) (buckets m')"
      "mset (entries m') = add_mset ?e (mset (entries m))"
    using with_chain_ok [OF ok, of "chain_of m key @ [?e]" key] by (auto simp: m' entries_def)
  show s: "unat (hm_size m') = Suc (unat (hm_size m))" using size by (simp add: m' unat_add_u32)
  have "\<not> eq (ent_key b) key" if "b \<in> set (entries m)" for b
    using none that ok by (auto simp: hm_view_def view_def hm_ok_def find_None_iff)
  then have u: "uniq eq (mset (entries m'))" using ok eq_sym by (auto simp: w(3) uniq_add hm_ok_def)
  have "set (entries m') = insert ?e (set (entries m))" "length (entries m') = Suc (length (entries m))"
    using w(3) by (metis set_mset_add_mset_insert set_mset_mset, metis size_add_mset size_mset)
  then show "hm_ok hash eq m'" using ok w(1,2) u s by (auto simp: hm_ok_def m' hashKey_def)
  show "hm_view m' = (\<lambda>k. if eq key k then Some v else hm_view m k)"
    using view_add [OF w(3) u] ok by (auto simp: hm_view_def hm_ok_def m')
qed

lemma remove_found:
  assumes ok: "hm_ok hash eq m" and find: "chain_find (hm_equals m) key (hashKey m key) (chain_of m key) = Some (b, c, a)"
    and m': "m' = m\<lparr>buckets := with_chain m key (b @ a), hm_size := hm_size m - 1\<rparr>"
  shows "hm_ok hash eq m'" and "hm_view m' = (\<lambda>k. if eq key k then None else hm_view m k)"
    and "mset (entries m) = add_mset c (mset (entries m'))"
proof -
  note f = find_Some [OF ok find]
  have "\<forall>e \<in> set (b @ a). ent_hash e = hashKey m key \<or> e \<in> set (chain_of m key)" using f(1) by auto
  note w = with_chain_ok [OF ok this]
  show M: "mset (entries m) = add_mset c (mset (entries m'))" using w(3) by (simp add: f(1) m' entries_def)
  then have l: "length (entries m) = Suc (length (entries m'))" and st: "set (entries m') \<subseteq> set (entries m)"
    by (metis size_add_mset size_mset, metis set_mset_add_mset_insert set_mset_mset subset_insertI)
  moreover have "uniq eq (mset (entries m'))" using ok M by (simp add: hm_ok_def uniq_add)
  moreover have "unat (hm_size m') = unat (hm_size m) - 1"
    using ok l by (simp add: m' hm_ok_def unat_sub_u32 word_le_nat_alt)
  ultimately show "hm_ok hash eq m'" using ok w(1,2) by (auto simp: hm_ok_def m')
  show "hm_view m' = (\<lambda>k. if eq key k then None else hm_view m k)"
  proof
    fix k
    have c: "eq (ent_key c) k \<longleftrightarrow> eq key k" using f(2) eq_sym eq_trans by blast
    have u: "uniq eq (mset (entries m))" using ok by (simp add: hm_ok_def)
    show "hm_view m' k = (if eq key k then None else hm_view m k)"
      using view_add [OF M u, of k] view_gone [OF M u, of k] c ok by (simp add: hm_view_def hm_ok_def m')
  qed
qed

text \<open>An entry is at the head of its bucket: removing its key removes it.\<close>

lemma head_removed:
  assumes hm: "hm_ok hash eq m" and i: "i < length (buckets m)" "buckets m ! i = e # es"
    and m': "m' = m\<lparr>buckets := (buckets m)[i := es], hm_size := hm_size m - 1\<rparr>"
  shows "hashmapRemove m (ent_key e) = Ok (ent_value e, m')" and "hm_ok hash eq m'"
    and "mset (entries m) = add_mset e (mset (entries m'))"
proof -
  have "e \<in> set (entries m)" unfolding entries_def concat_set_nth using i by (intro exI [of _ i]) simp
  then have h: "ent_hash e = hashKey m (ent_key e)" using hm by (simp add: hm_ok_def hashKey_def)
  have ix: "unat (calculateIndex (bucketCount m) (hashKey m (ent_key e))) = i"
    using hm i h by (auto simp: hm_ok_def placed_def)
  have ch: "chain_of m (ent_key e) = e # es" using ix i(2) by (simp add: chain_of_def)
  have f: "chain_find (hm_equals m) (ent_key e) (hashKey m (ent_key e)) (chain_of m (ent_key e)) = Some ([], e, es)"
    by (simp add: ch equalKeys_def)
  have m'': "m' = m\<lparr>buckets := with_chain m (ent_key e) ([] @ es), hm_size := hm_size m - 1\<rparr>"
    by (simp add: m' with_chain_def ix)
  show "hashmapRemove m (ent_key e) = Ok (ent_value e, m')"
    using f chain_of_at(2) [OF hm, of "ent_key e"] by (simp add: hashmapRemove_def m'' with_chain_def Let_def)
  show "hm_ok hash eq m'" "mset (entries m) = add_mset e (mset (entries m'))"
    using remove_found [OF hm f m''] by blast+
qed

lemma put_ok:
  assumes ok: "hm_ok hash eq m" and size: "unat (hm_size m) < 2 ^ 29"
  shows "\<exists>m'. hashmapPut True expand errno m key v =
      Ok (case hm_view m key of None \<Rightarrow> None | Some old \<Rightarrow> old, errno, m') \<and>
    hm_ok hash eq m' \<and> hm_view m' = (\<lambda>k. if eq key k then Some v else hm_view m k) \<and>
    unat (hm_size m') = (if hm_view m key = None then Suc (unat (hm_size m)) else unat (hm_size m))"
proof (cases "chain_find (hm_equals m) key (hashKey m key) (chain_of m key)")
  case None
  let ?m = "m\<lparr>buckets := with_chain m key (chain_of m key @ [\<lparr>ent_key = key, ent_hash = hashKey m key, ent_value = v\<rparr>]),
      hm_size := hm_size m + 1\<rparr>"
  have none: "hm_view m key = None" using find_None [OF ok] None by simp
  note n = put_new [OF ok none size refl, of v]
  have s: "unat (hm_size ?m) \<le> 2 ^ 29" using n(3) size by simp
  have "hashmapPut True expand errno m key v = Ok (None, errno, expandIfNecessary expand ?m)"
    using None chain_of_at(2) [OF ok, of key] by (simp add: hashmapPut_def createEntry_def with_chain_def Let_def)
  then show ?thesis
    using none n expand_ok [OF n(1) s, of expand] by (intro exI [of _ "expandIfNecessary expand ?m"]) simp
next
  case (Some x)
  then obtain b c a where f: "chain_find (hm_equals m) key (hashKey m key) (chain_of m key) = Some (b, c, a)"
    by (cases x) auto
  let ?m = "m\<lparr>buckets := with_chain m key (b @ c\<lparr>ent_value := v\<rparr> # a)\<rparr>"
  have "hashmapPut True expand errno m key v = Ok (ent_value c, errno, ?m)"
    using f chain_of_at(2) [OF ok, of key] by (simp add: hashmapPut_def with_chain_def Let_def)
  then show ?thesis
    using find_Some(3) [OF ok f] put_replace [OF ok f refl, of v] by (intro exI [of _ ?m]) simp
qed

text \<open>What \<open>hashmapPut\<close> does to the entries.\<close>

lemma put_step:
  assumes ok: "hm_ok hash eq m" and size: "unat (hm_size m) < 2 ^ 29"
  shows "\<exists>old m'. hashmapPut True expand errno m key v = Ok (old, errno, m') \<and> hm_ok hash eq m' \<and>
    (hm_view m key = None \<and> old = None \<and> unat (hm_size m') = Suc (unat (hm_size m)) \<and>
       mset (entries m') = add_mset \<lparr>ent_key = key, ent_hash = hashKey m key, ent_value = v\<rparr> (mset (entries m)) \<or>
     (\<exists>c R. eq (ent_key c) key \<and> old = ent_value c \<and> hm_size m' = hm_size m \<and>
       mset (entries m) = add_mset c R \<and> mset (entries m') = add_mset (c\<lparr>ent_value := v\<rparr>) R))"
proof (cases "chain_find (hm_equals m) key (hashKey m key) (chain_of m key)")
  case None
  let ?e = "\<lparr>ent_key = key, ent_hash = hashKey m key, ent_value = v\<rparr>"
  let ?m = "m\<lparr>buckets := with_chain m key (chain_of m key @ [?e]), hm_size := hm_size m + 1\<rparr>"
  have none: "hm_view m key = None" using find_None [OF ok] None by simp
  note n = put_new [OF ok none size refl, of v]
  have s: "unat (hm_size ?m) \<le> 2 ^ 29" using n(3) size by simp
  have "mset (entries ?m) = add_mset ?e (mset (entries m))"
    using with_chain_ok(3) [OF ok, of "chain_of m key @ [?e]" key] by (auto simp: entries_def)
  moreover have "hashmapPut True expand errno m key v = Ok (None, errno, expandIfNecessary expand ?m)"
    using None chain_of_at(2) [OF ok, of key] by (simp add: hashmapPut_def createEntry_def with_chain_def Let_def)
  ultimately show ?thesis
    using none n(3) expand_ok(1,3,4) [OF n(1) s, of expand]
    by (intro exI [of _ None] exI [of _ "expandIfNecessary expand ?m"]) simp
next
  case (Some x)
  then obtain b c a where f: "chain_find (hm_equals m) key (hashKey m key) (chain_of m key) = Some (b, c, a)"
    by (cases x) auto
  let ?c = "c\<lparr>ent_value := v\<rparr>" and ?m = "m\<lparr>buckets := with_chain m key (b @ c\<lparr>ent_value := v\<rparr> # a)\<rparr>"
  have "hashmapPut True expand errno m key v = Ok (ent_value c, errno, ?m)"
    using f chain_of_at(2) [OF ok, of key] by (simp add: hashmapPut_def with_chain_def Let_def)
  moreover have "add_mset c (mset (entries ?m)) = add_mset ?c (mset (entries m))"
    using put_replace_entries(2) [OF ok f, of v] by (simp add: entries_def)
  moreover obtain R where R: "mset (entries m) = add_mset c R"
    using find_Some(4) [OF ok f] by (metis insert_DiffM set_mset_mset)
  ultimately show ?thesis
    using put_replace(1) [OF ok f refl, of v] find_Some(2) [OF ok f]
    by (intro exI [of _ "ent_value c"] exI [of _ ?m]) (auto intro!: exI [of _ c] exI [of _ R])
qed

lemma put_no_memory:
  assumes ok: "hm_ok hash eq m" and none: "hm_view m key = None"
  shows "hashmapPut False expand errno m key v = Ok (None, ENOMEM, m)"
  using chain_of_at(2) [OF ok, of key] find_None [OF ok, of key] none
  by (simp add: hashmapPut_def createEntry_def Let_def)

lemma get_ok:
  assumes ok: "hm_ok hash eq m"
  shows "hashmapGet m key = Ok (case hm_view m key of None \<Rightarrow> None | Some v \<Rightarrow> v)"
    and "hashmapContainsKey m key = Ok (hm_view m key \<noteq> None)"
proof -
  show "hashmapGet m key = Ok (case hm_view m key of None \<Rightarrow> None | Some v \<Rightarrow> v)"
  proof (cases "chain_find (hm_equals m) key (hashKey m key) (chain_of m key)")
    case None
    then show ?thesis using find_None [OF ok, of key] chain_of_at(2) [OF ok, of key] by (simp add: hashmapGet_def Let_def)
  next
    case (Some x)
    then obtain b c a where "chain_find (hm_equals m) key (hashKey m key) (chain_of m key) = Some (b, c, a)" by (cases x) auto
    then show ?thesis using find_Some(3) [OF ok] chain_of_at(2) [OF ok, of key] by (simp add: hashmapGet_def Let_def)
  qed
  show "hashmapContainsKey m key = Ok (hm_view m key \<noteq> None)"
    using find_None [OF ok, of key] chain_of_at(2) [OF ok, of key]
    by (simp add: hashmapContainsKey_def Let_def del: not_None_eq)
qed

lemma remove_ok:
  assumes ok: "hm_ok hash eq m"
  shows "\<exists>m'. hashmapRemove m key = Ok (case hm_view m key of None \<Rightarrow> None | Some v \<Rightarrow> v, m') \<and>
    hm_ok hash eq m' \<and> hm_view m' = (\<lambda>k. if eq key k then None else hm_view m k)"
proof (cases "chain_find (hm_equals m) key (hashKey m key) (chain_of m key)")
  case None
  then have none: "hm_view m key = None" using find_None [OF ok] by simp
  have "hm_view m k = None" if "eq key k" for k
  proof -
    have "\<forall>e \<in> set (entries m). \<not> eq (ent_key e) key"
      using none ok by (auto simp: hm_view_def view_def hm_ok_def find_None_iff)
    then have "\<forall>e \<in> set (entries m). \<not> eq (ent_key e) k" using that eq_sym eq_trans by blast
    then show ?thesis using ok by (auto simp: hm_view_def view_def hm_ok_def find_None_iff)
  qed
  then show ?thesis
    using None none ok chain_of_at(2) [OF ok, of key] by (intro exI [of _ m]) (auto simp: hashmapRemove_def Let_def)
next
  case (Some x)
  then obtain b c a where f: "chain_find (hm_equals m) key (hashKey m key) (chain_of m key) = Some (b, c, a)" by (cases x) auto
  let ?m = "m\<lparr>buckets := with_chain m key (b @ a), hm_size := hm_size m - 1\<rparr>"
  have "hashmapRemove m key = Ok (ent_value c, ?m)"
    using f chain_of_at(2) [OF ok, of key] by (simp add: hashmapRemove_def with_chain_def Let_def)
  then show ?thesis
    using find_Some(3) [OF ok f] remove_found [OF ok f refl] by (intro exI [of _ ?m]) simp
qed

lemma memoize_ok:
  assumes ok: "hm_ok hash eq m" and size: "unat (hm_size m) < 2 ^ 29"
  shows "\<exists>m'. hashmapMemoize True expand errno m key init =
      Ok (case hm_view m key of None \<Rightarrow> init key | Some v \<Rightarrow> v, errno, m') \<and> hm_ok hash eq m' \<and>
    hm_view m' = (if hm_view m key = None then (\<lambda>k. if eq key k then Some (init key) else hm_view m k) else hm_view m)"
proof (cases "chain_find (hm_equals m) key (hashKey m key) (chain_of m key)")
  case None
  let ?m = "m\<lparr>buckets := with_chain m key (chain_of m key @ [\<lparr>ent_key = key, ent_hash = hashKey m key, ent_value = init key\<rparr>]),
      hm_size := hm_size m + 1\<rparr>"
  have none: "hm_view m key = None" using find_None [OF ok] None by simp
  note n = put_new [OF ok none size refl, of "init key"]
  have s: "unat (hm_size ?m) \<le> 2 ^ 29" using n(3) size by simp
  have "hashmapMemoize True expand errno m key init = Ok (init key, errno, expandIfNecessary expand ?m)"
    using None chain_of_at(2) [OF ok, of key] by (simp add: hashmapMemoize_def createEntry_def with_chain_def Let_def)
  then show ?thesis
    using none n expand_ok [OF n(1) s, of expand] by (intro exI [of _ "expandIfNecessary expand ?m"]) simp
next
  case (Some x)
  then obtain b c a where f: "chain_find (hm_equals m) key (hashKey m key) (chain_of m key) = Some (b, c, a)" by (cases x) auto
  then have "hashmapMemoize True expand errno m key init = Ok (ent_value c, errno, m)"
    using chain_of_at(2) [OF ok, of key] by (simp add: hashmapMemoize_def Let_def)
  then show ?thesis using find_Some(3) [OF ok f] ok by (intro exI [of _ m]) simp
qed

lemma create_ok:
  "\<exists>m. hashmapCreate True True c (Some hash) (Some eq) = Ok (Some m) \<and> hm_ok hash eq m \<and> hm_view m = (\<lambda>_. None) \<and>
    hm_size m = 0 \<and> unat (c * 4 div 3) < unat (bucketCount m)"
proof -
  obtain b k where b: "grow_buckets 32 1 (c * 4 div 3) = Some b" "unat b = 2 ^ k" "k < 32" "unat (c * 4 div 3) < unat b"
    using grow_buckets_finds [of 1 0 32 "c * 4 div 3"] minimum_small [of c] by auto
  then show ?thesis
    by (auto simp: hashmapCreate_def hm_ok_def placed_def entries_def uniq_def hm_view_def view_def)
qed

end

section \<open>Tables keyed by pointers to integers\<close>

interpretation intk: hash_keys "hashmapIntHash deref" "hashmapIntEquals deref" for deref
  by unfold_locales (simp_all add: hashmapIntHash_def hashmapIntEquals_def)

end
