(* ===== verification/Str_Parms_Props.thy ===== *)
theory Str_Parms_Props
  imports Str_Parms Hashmap_Props
begin

text \<open>
  Parameter lists as maps from strings to strings, the ownership of their strings, and the round trip through
  their printed form.
\<close>

section \<open>The keys keep the contract of the hash table\<close>

interpretation strk: hash_keys str_hash_fn str_eq
  by unfold_locales (auto simp: str_eq_def str_hash_fn_def split: option.splits prod.splits)

section \<open>Contents and ownership\<close>

definition key_of :: "(cstr, nat \<times> string) Entry \<Rightarrow> string" where
  "key_of e = snd (the (ent_key e))"

definition value_of :: "(cstr, nat \<times> string) Entry \<Rightarrow> string" where
  "value_of e = snd (the (ent_value e))"

definition pairs :: "(cstr, nat \<times> string) Entry list \<Rightarrow> (string \<times> string) list" where
  "pairs es = map (\<lambda>e. (key_of e, value_of e)) es"

definition sp_view :: "str_parms \<Rightarrow> string \<Rightarrow> string option" where
  "sp_view s = map_of (pairs (entries (sp_map s)))"

definition owned :: "(cstr, nat \<times> string) Entry \<Rightarrow> nat multiset" where
  "owned e = {#fst (the (ent_key e)), fst (the (ent_value e))#}"

definition set_entry :: "(cstr, nat \<times> string) Entry \<Rightarrow> bool" where
  "set_entry e \<longleftrightarrow> ent_key e \<noteq> None \<and> ent_value e \<noteq> None"

text \<open>
  The list owns the keys and values of its entries and nothing else; \<open>F\<close> are the other strings of the process.
\<close>

definition sp_ok :: "nat multiset \<Rightarrow> str_parms \<Rightarrow> bool" where
  "sp_ok F s \<longleftrightarrow> hm_ok str_hash_fn str_eq (sp_map s) \<and> (\<forall>e \<in> set (entries (sp_map s)). set_entry e) \<and>
     mset (sp_live s) = F + \<Sum>\<^sub># (image_mset owned (mset (entries (sp_map s))))"

lemma str_eq_keys: "ent_key e \<noteq> None \<Longrightarrow> str_eq (ent_key e) (Some (a, k)) \<longleftrightarrow> key_of e = k"
  by (auto simp: str_eq_def key_of_def split: option.splits)

text \<open>A lookup in the table is a lookup in the list of pairs.\<close>

lemma view_pairs:
  assumes "\<forall>e \<in> set es. set_entry e"
  shows "map_option (\<lambda>v. snd (the v)) (view str_eq es (Some (a, k))) = map_of (pairs es) k"
    and "view str_eq es (Some (a, k)) \<noteq> Some None"
  using assms
proof (induction es)
  case Nil
  case 1 show ?case by (simp add: view_def pairs_def)
  case 2 show ?case by (simp add: view_def)
next
  case (Cons e es)
  case 1
  then show ?case using Cons.IH(1) str_eq_keys [of e a k]
    by (auto simp: view_def pairs_def set_entry_def value_of_def)
  case 2
  then show ?case using Cons.IH(2) by (auto simp: view_def set_entry_def)
qed

lemma sp_view_table:
  assumes "sp_ok F s"
  shows "(case hm_view (sp_map s) (Some (a, k)) of None \<Rightarrow> None | Some v \<Rightarrow> v) = None \<longleftrightarrow> sp_view s k = None"
    and "sp_view s k = Some v \<Longrightarrow> \<exists>b. hm_view (sp_map s) (Some (a, k)) = Some (Some (b, v))"
proof -
  have es: "\<forall>e \<in> set (entries (sp_map s)). set_entry e" and eq: "hm_equals (sp_map s) = str_eq"
    using assms by (simp_all add: sp_ok_def hm_ok_def)
  note v = view_pairs [OF es, of a k]
  show "(case hm_view (sp_map s) (Some (a, k)) of None \<Rightarrow> None | Some v \<Rightarrow> v) = None \<longleftrightarrow> sp_view s k = None"
    using v unfolding hm_view_def eq sp_view_def [symmetric]
    by (cases "view str_eq (entries (sp_map s)) (Some (a, k))") (auto simp: sp_view_def)
  show "sp_view s k = Some v \<Longrightarrow> \<exists>b. hm_view (sp_map s) (Some (a, k)) = Some (Some (b, v))"
    using v unfolding hm_view_def eq sp_view_def by (auto simp: option.map_sel)
qed

text \<open>No two entries have the same key.\<close>

lemma keys_distinct:
  assumes "uniq str_eq (mset es)" and "\<forall>e \<in> set es. set_entry e"
  shows "distinct (map key_of es)"
  using assms
proof (induction es)
  case (Cons e es)
  have "key_of e \<noteq> key_of f" if "f \<in> set es" for f
    using Cons.prems that str_eq_keys [of e "fst (the (ent_key f))" "key_of f"]
    by (auto simp: strk.uniq_add set_entry_def key_of_def)
  then show ?case using Cons by (auto simp: strk.uniq_add)
qed simp

lemma map_of_perm:
  assumes "mset xs = mset ys" and "distinct (map fst xs)"
  shows "map_of xs = map_of ys"
proof -
  have "distinct (map fst ys)" using assms by (metis mset_map mset_eq_imp_distinct_iff)
  then show ?thesis using assms by (metis map_of_inject_set mset_eq_setD)
qed

lemma sp_view_perm:
  assumes "sp_ok F s" and "mset (entries (sp_map s)) = mset es"
  shows "sp_view s = map_of (pairs es)"
  unfolding sp_view_def
proof (rule map_of_perm)
  show "mset (pairs (entries (sp_map s))) = mset (pairs es)" using assms(2) by (simp add: pairs_def)
  have "uniq str_eq (mset (entries (sp_map s)))" "\<forall>e \<in> set (entries (sp_map s)). set_entry e"
    using assms(1) by (simp_all add: sp_ok_def hm_ok_def)
  then show "distinct (map fst (pairs (entries (sp_map s))))" using keys_distinct by (simp add: pairs_def comp_def)
qed

section \<open>Putting a pair\<close>

text \<open>Both copies of a pair made by \<open>strdup\<close>, when memory is there.\<close>

lemma two_copies:
  assumes "ok (sp_next s)" and "ok (sp_next s + 1)"
  shows "(case strdup ok s k of (key, s1) \<Rightarrow> case strdup ok s1 v of (val, s2) \<Rightarrow> f key val s2) =
    f (Some (sp_next s, k)) (Some (sp_next s + 1, v))
      (s\<lparr>sp_next := sp_next s + 2, sp_live := (sp_next s + 1) # sp_next s # sp_live s\<rparr>)"
  using assms by (simp add: strdup_def)

text \<open>Memory never runs out.\<close>

definition plenty :: "nat \<Rightarrow> bool" where
  "plenty n = True"

lemma plenty: "plenty n"
  by (simp add: plenty_def)

lemma if_plenty [simp]: "(if plenty n then a else b) = a"
  by (simp add: plenty_def)

lemma free_live:
  assumes "a \<in> set (sp_live s)"
  shows "c_free (Some (a, x)) s = Ok (s\<lparr>sp_live := remove1 a (sp_live s)\<rparr>)"
  using assms by (simp add: c_free_def)

text \<open>A new entry, and an entry with a new value.\<close>

lemma sp_ok_new:
  assumes inv: "sp_ok F s" and m': "hm_ok str_hash_fn str_eq m'"
    and ents: "mset (entries m') = add_mset \<lparr>ent_key = Some (a, k), ent_hash = h, ent_value = Some (b, v)\<rparr> (mset (entries (sp_map s)))"
    and t: "sp_map t = m'" "mset (sp_live t) = {#a, b#} + mset (sp_live s)"
  shows "sp_ok F t" and "sp_view t = (sp_view s)(k \<mapsto> v)"
proof -
  let ?e = "\<lparr>ent_key = Some (a, k), ent_hash = h, ent_value = Some (b, v)\<rparr>"
  have "set (entries m') = insert ?e (set (entries (sp_map s)))" using ents by (metis set_mset_add_mset_insert set_mset_mset)
  then show t': "sp_ok F t"
    using inv m' ents t by (auto simp: sp_ok_def set_entry_def owned_def add_mset_commute)
  have "mset (entries (sp_map t)) = mset (?e # entries (sp_map s))" using ents t by simp
  then have "sp_view t = map_of (pairs (?e # entries (sp_map s)))" by (rule sp_view_perm [OF t'])
  then show "sp_view t = (sp_view s)(k \<mapsto> v)" by (simp add: sp_view_def pairs_def key_of_def value_of_def)
qed

lemma sp_ok_replaced:
  assumes inv: "sp_ok F s" and m': "hm_ok str_hash_fn str_eq m'"
    and ents: "mset (entries (sp_map s)) = add_mset c R" "mset (entries m') = add_mset (c\<lparr>ent_value := Some (b, v)\<rparr>) R"
    and c: "key_of c = k" and t: "sp_map t = m'" "add_mset (fst (the (ent_value c))) (mset (sp_live t)) = add_mset b (mset (sp_live s))"
  shows "sp_ok F t" and "sp_view t = (sp_view s)(k \<mapsto> v)"
proof -
  let ?c = "c\<lparr>ent_value := Some (b, v)\<rparr>"
  obtain r where r: "R = mset r" using ex_mset by metis
  have s: "set (entries m') = insert ?c (set r)" "set (entries (sp_map s)) = insert c (set r)"
    using ents r by (metis set_mset_add_mset_insert set_mset_mset)+
  have "add_mset (fst (the (ent_value c))) (mset (sp_live t)) =
      add_mset (fst (the (ent_value c))) (F + \<Sum>\<^sub># (image_mset owned (mset (entries m'))))"
    using inv by (simp add: t(2) sp_ok_def ents owned_def add_mset_commute)
  then show t': "sp_ok F t"
    using inv m' s t(1) by (auto simp: sp_ok_def set_entry_def)
  have "sp_view t = map_of (pairs (?c # r))" using ents t r by (intro sp_view_perm [OF t']) simp
  moreover have "sp_view s = map_of (pairs (c # r))" using ents r by (intro sp_view_perm [OF inv]) simp
  ultimately show "sp_view t = (sp_view s)(k \<mapsto> v)" using c by (simp add: pairs_def key_of_def value_of_def)
qed

text \<open>The pair goes into the table; when it replaces a value, the old value and the new key are freed.\<close>

lemma put_pair:
  assumes inv: "sp_ok F s" and size: "unat (hm_size (sp_map s)) < 2 ^ 29"
    and ok: "ok (sp_next s + 2)"
    and s2: "s2 = s\<lparr>sp_next := sp_next s + 2, sp_live := (sp_next s + 1) # sp_next s # sp_live s\<rparr>"
  shows "\<exists>old s3. sp_put ok s2 (Some (sp_next s, k)) (Some (sp_next s + 1, v)) = Ok (old, s3) \<and>
    sp_errno s3 = sp_errno s \<and> sp_next s3 = sp_next s + 4 \<and> unat (hm_size (sp_map s3)) \<le> Suc (unat (hm_size (sp_map s))) \<and>
    (if old = None then sp_ok F s3 \<and> sp_view s3 = (sp_view s)(k \<mapsto> v)
     else \<exists>s4 s5. c_free old s3 = Ok s4 \<and> c_free (Some (sp_next s, k)) s4 = Ok s5 \<and> sp_ok F s5 \<and> sp_view s5 = (sp_view s)(k \<mapsto> v) \<and>
       sp_map s5 = sp_map s3 \<and> sp_errno s5 = sp_errno s \<and> sp_next s5 = sp_next s + 4)"
proof -
  have hm: "hm_ok str_hash_fn str_eq (sp_map s)" using inv by (simp add: sp_ok_def)
  let ?key = "Some (sp_next s, k)" and ?val = "Some (sp_next s + 1, v)"
  obtain old m' where p: "hashmapPut True (ok (sp_next s + 3)) (sp_errno s) (sp_map s) ?key ?val = Ok (old, sp_errno s, m')"
      "hm_ok str_hash_fn str_eq m'" and
    cs: "hm_view (sp_map s) ?key = None \<and> old = None \<and> unat (hm_size m') = Suc (unat (hm_size (sp_map s))) \<and>
       mset (entries m') = add_mset \<lparr>ent_key = ?key, ent_hash = hashKey (sp_map s) ?key, ent_value = ?val\<rparr> (mset (entries (sp_map s))) \<or>
     (\<exists>c R. str_eq (ent_key c) ?key \<and> old = ent_value c \<and> hm_size m' = hm_size (sp_map s) \<and>
       mset (entries (sp_map s)) = add_mset c R \<and> mset (entries m') = add_mset (c\<lparr>ent_value := ?val\<rparr>) R)"
    using strk.put_step [OF hm size, of "ok (sp_next s + 3)" "sp_errno s" ?key ?val] by blast
  define s3 where "s3 = s2\<lparr>sp_map := m', sp_next := sp_next s + 4\<rparr>"
  have run: "sp_put ok s2 ?key ?val = Ok (old, s3)"
    using p(1) ok by (simp add: sp_put_def s2 s3_def eval_nat_numeral)
  from cs show ?thesis
  proof (elim disjE exE conjE)
    assume a: "old = None" "unat (hm_size m') = Suc (unat (hm_size (sp_map s)))"
      "mset (entries m') = add_mset \<lparr>ent_key = ?key, ent_hash = hashKey (sp_map s) ?key, ent_value = ?val\<rparr> (mset (entries (sp_map s)))"
    have "sp_ok F s3" "sp_view s3 = (sp_view s)(k \<mapsto> v)"
      using sp_ok_new [OF inv p(2) a(3)] by (simp_all add: s3_def s2 add_mset_commute)
    then show ?thesis using run a by (intro exI [of _ None] exI [of _ s3]) (simp add: s3_def s2)
  next
    fix c R
    assume a: "str_eq (ent_key c) ?key" "old = ent_value c" "hm_size m' = hm_size (sp_map s)"
      "mset (entries (sp_map s)) = add_mset c R" "mset (entries m') = add_mset (c\<lparr>ent_value := ?val\<rparr>) R"
    have "set_entry c" using inv a(4) by (metis sp_ok_def union_single_eq_member add_mset_add_single set_mset_mset)
    then obtain b w where w: "ent_value c = Some (b, w)" "key_of c = k"
      using a(1) str_eq_keys [of c "sp_next s" k] by (auto simp: set_entry_def)
    have "b \<in># mset (sp_live s)" using inv a(4) w by (simp add: sp_ok_def owned_def)
    then obtain M where M: "mset (sp_live s) = add_mset b M" by (metis multi_member_split)
    define s4 where "s4 = s3\<lparr>sp_live := remove1 b (sp_live s3)\<rparr>"
    define s5 where "s5 = s4\<lparr>sp_live := remove1 (sp_next s) (sp_live s4)\<rparr>"
    have M3: "mset (sp_live s3) = add_mset b (add_mset (sp_next s) (add_mset (sp_next s + 1) M))"
      using M by (simp add: s3_def s2 add_mset_commute)
    then have M4: "mset (sp_live s4) = add_mset (sp_next s) (add_mset (sp_next s + 1) M)" by (simp add: s4_def)
    then have M5: "mset (sp_live s5) = add_mset (sp_next s + 1) M" by (simp add: s5_def)
    have "b \<in> set (sp_live s3)" "sp_next s \<in> set (sp_live s4)"
      using M3 M4 by (metis set_mset_mset union_single_eq_member add_mset_add_single)+
    then have "c_free old s3 = Ok s4" "c_free ?key s4 = Ok s5" using a(2) w(1) by (simp_all add: free_live s4_def s5_def)
    moreover have "sp_ok F s5" "sp_view s5 = (sp_view s)(k \<mapsto> v)"
      using sp_ok_replaced [OF inv p(2) a(4,5) w(2), of s5] M M5 w(1)
      by (simp_all add: s5_def s4_def s3_def add_mset_commute)
    ultimately show ?thesis
      using run a(2,3) w(1)
      by (intro exI [of _ old] exI [of _ s3]) (auto simp: s5_def s4_def s3_def s2)
  qed
qed

lemma add_str_ok:
  assumes inv: "sp_ok F s" and size: "unat (hm_size (sp_map s)) < 2 ^ 29" and errno: "sp_errno s \<noteq> ENOMEM"
    and ok: "ok (sp_next s)" "ok (sp_next s + 1)" "ok (sp_next s + 2)"
  shows "\<exists>s'. str_parms_add_str ok s k v = Ok (0, s') \<and> sp_ok F s' \<and> sp_view s' = (sp_view s)(k \<mapsto> v) \<and>
    sp_errno s' = sp_errno s \<and> unat (hm_size (sp_map s')) \<le> Suc (unat (hm_size (sp_map s)))"
proof -
  obtain old s3 where p: "sp_put ok (s\<lparr>sp_next := sp_next s + 2, sp_live := (sp_next s + 1) # sp_next s # sp_live s\<rparr>)
      (Some (sp_next s, k)) (Some (sp_next s + 1, v)) = Ok (old, s3)" "sp_errno s3 = sp_errno s"
      "unat (hm_size (sp_map s3)) \<le> Suc (unat (hm_size (sp_map s)))" and
    cs: "if old = None then sp_ok F s3 \<and> sp_view s3 = (sp_view s)(k \<mapsto> v)
     else \<exists>s4 s5. c_free old s3 = Ok s4 \<and> c_free (Some (sp_next s, k)) s4 = Ok s5 \<and> sp_ok F s5 \<and> sp_view s5 = (sp_view s)(k \<mapsto> v) \<and>
       sp_map s5 = sp_map s3 \<and> sp_errno s5 = sp_errno s \<and> sp_next s5 = sp_next s + 4"
    using put_pair [of F s ok, OF inv size ok(3) refl, of k v] by blast
  have run: "str_parms_add_str ok s k v =
      obind (sp_put ok (s\<lparr>sp_next := sp_next s + 2, sp_live := (sp_next s + 1) # sp_next s # sp_live s\<rparr>)
          (Some (sp_next s, k)) (Some (sp_next s + 1, v)))
        (\<lambda>(old_val, s3).
           if old_val \<noteq> None then obind (c_free old_val s3) (\<lambda>s4. obind (c_free (Some (sp_next s, k)) s4) (\<lambda>s5. Ok (0, s5)))
           else if sp_errno s3 = ENOMEM
           then obind (c_free (Some (sp_next s, k)) s3) (\<lambda>s4. obind (c_free (Some (sp_next s + 1, v)) s4) (\<lambda>s5. Ok (- ENOMEM, s5)))
           else Ok (0, s3))"
    by (simp only: str_parms_add_str_def Let_def two_copies [OF ok(1,2)])
  show ?thesis
  proof (cases old)
    case None
    then show ?thesis using run p cs errno by (intro exI [of _ s3]) simp
  next
    case (Some x)
    then obtain s4 s5 where "c_free old s3 = Ok s4" "c_free (Some (sp_next s, k)) s4 = Ok s5" "sp_ok F s5"
        "sp_view s5 = (sp_view s)(k \<mapsto> v)" "sp_map s5 = sp_map s3" "sp_errno s5 = sp_errno s"
      using cs by auto
    then show ?thesis using run p Some by (intro exI [of _ s5]) simp
  qed
qed

lemma add_pair_ok:
  assumes inv: "sp_ok F s" and size: "unat (hm_size (sp_map s)) < 2 ^ 29"
    and k: "k \<noteq> []" "CHR ''='' \<notin> set k"
  shows "\<exists>s'. add_pair plenty s (k @ ''='' @ v) = Ok s' \<and> sp_ok F s' \<and> sp_view s' = (sp_view s)(k \<mapsto> v) \<and>
    unat (hm_size (sp_map s')) \<le> Suc (unat (hm_size (sp_map s)))"
proof -
  have tw: "takeWhile (\<lambda>c. c \<noteq> CHR ''='') (k @ ''='' @ v) = k" "dropWhile (\<lambda>c. c \<noteq> CHR ''='') (k @ ''='' @ v) = CHR ''='' # v"
    using k(2) by (auto simp: takeWhile_append dropWhile_append)
  obtain old s3 where p: "sp_put plenty (s\<lparr>sp_next := sp_next s + 2, sp_live := (sp_next s + 1) # sp_next s # sp_live s\<rparr>)
      (Some (sp_next s, k)) (Some (sp_next s + 1, v)) = Ok (old, s3)"
      "unat (hm_size (sp_map s3)) \<le> Suc (unat (hm_size (sp_map s)))" and
    cs: "if old = None then sp_ok F s3 \<and> sp_view s3 = (sp_view s)(k \<mapsto> v)
     else \<exists>s4 s5. c_free old s3 = Ok s4 \<and> c_free (Some (sp_next s, k)) s4 = Ok s5 \<and> sp_ok F s5 \<and> sp_view s5 = (sp_view s)(k \<mapsto> v) \<and>
       sp_map s5 = sp_map s3 \<and> sp_errno s5 = sp_errno s \<and> sp_next s5 = sp_next s + 4"
    using put_pair [of F s plenty, OF inv size plenty refl, of k v] by blast
  have cond: "\<not> (CHR ''='' # v \<noteq> [] \<and> k = [])" using k(1) by simp
  have run: "add_pair plenty s (k @ ''='' @ v) =
      obind (sp_put plenty (s\<lparr>sp_next := sp_next s + 2, sp_live := (sp_next s + 1) # sp_next s # sp_live s\<rparr>)
          (Some (sp_next s, k)) (Some (sp_next s + 1, v)))
        (\<lambda>(old_val, s3). if old_val \<noteq> None then obind (c_free old_val s3) (c_free (Some (sp_next s, k))) else Ok s3)"
    unfolding add_pair_def Let_def tw two_copies [of plenty, OF plenty plenty] if_not_P [OF cond] by simp
  show ?thesis
  proof (cases old)
    case None
    then show ?thesis using run p cs by (intro exI [of _ s3]) simp
  next
    case (Some x)
    then obtain s4 s5 where "c_free old s3 = Ok s4" "c_free (Some (sp_next s, k)) s4 = Ok s5" "sp_ok F s5"
        "sp_view s5 = (sp_view s)(k \<mapsto> v)" "sp_map s5 = sp_map s3" "sp_errno s5 = sp_errno s"
      using cs by auto
    then show ?thesis using run p Some by (intro exI [of _ s5]) simp
  qed
qed

lemma add_pairs_ok:
  assumes "sp_ok F s" and "unat (hm_size (sp_map s)) + length ps \<le> 2 ^ 29"
    and "\<forall>(k, v) \<in> set ps. k \<noteq> [] \<and> CHR ''='' \<notin> set k"
  shows "\<exists>s'. add_pairs plenty (map (\<lambda>(k, v). k @ ''='' @ v) ps) s = Ok s' \<and> sp_ok F s' \<and> sp_view s' = sp_view s ++ map_of (rev ps)"
  using assms
proof (induction ps arbitrary: s)
  case (Cons p ps)
  obtain k v where p: "p = (k, v)" by (cases p)
  have kv: "k \<noteq> []" "CHR ''='' \<notin> set k" "\<forall>(k, v) \<in> set ps. k \<noteq> [] \<and> CHR ''='' \<notin> set k" using Cons.prems(3) p by auto
  have "\<exists>s1. add_pair plenty s (k @ ''='' @ v) = Ok s1 \<and> sp_ok F s1 \<and> sp_view s1 = (sp_view s)(k \<mapsto> v) \<and>
      unat (hm_size (sp_map s1)) \<le> Suc (unat (hm_size (sp_map s)))"
    using Cons.prems kv by (intro add_pair_ok) simp_all
  then obtain s1 where s1: "add_pair plenty s (k @ ''='' @ v) = Ok s1" "sp_ok F s1" "sp_view s1 = (sp_view s)(k \<mapsto> v)"
      "unat (hm_size (sp_map s1)) \<le> Suc (unat (hm_size (sp_map s)))" by blast
  have "unat (hm_size (sp_map s1)) + length ps \<le> 2 ^ 29" using s1(4) Cons.prems(2) by simp
  then obtain s' where s': "add_pairs plenty (map (\<lambda>(k, v). k @ ''='' @ v) ps) s1 = Ok s'" "sp_ok F s'"
      "sp_view s' = sp_view s1 ++ map_of (rev ps)"
    using Cons.IH [OF s1(2) _ kv(3)] by blast
  have "sp_view s1 ++ map_of (rev ps) = sp_view s ++ map_of (rev (p # ps))"
    using s1(3) p by (auto simp: map_add_def fun_eq_iff split: option.splits)
  then show ?case using s1(1) s' p by (intro exI [of _ s']) simp
qed simp

section \<open>Printing and parsing\<close>

definition show_pair :: "string \<times> string \<Rightarrow> string" where
  "show_pair p = fst p @ ''='' @ snd p"

fun joined :: "(string \<times> string) list \<Rightarrow> string" where
  "joined [] = []"
| "joined (p # ps) = show_pair p @ concat (map (\<lambda>q. '';'' @ show_pair q) ps)"

lemma pieces_nonempty: "pieces d s \<noteq> []"
  by (induction s) (auto split: list.splits)

lemma pieces_plain: "d \<notin> set x \<Longrightarrow> pieces d x = [x]"
  by (induction x) auto

lemma pieces_cut: "d \<notin> set x \<Longrightarrow> pieces d (x @ d # y) = x # pieces d y"
  by (induction x) (auto split: list.splits)

lemma pieces_joined:
  assumes "\<forall>q \<in> set (p # ps). CHR '';'' \<notin> set (show_pair q)"
  shows "pieces (CHR '';'') (joined (p # ps)) = map show_pair (p # ps)"
  using assms
proof (induction ps arbitrary: p)
  case Nil then show ?case by (simp add: pieces_plain)
next
  case (Cons q ps)
  have "joined (p # q # ps) = show_pair p @ CHR '';'' # joined (q # ps)" by simp
  then show ?case using Cons.IH [of q] Cons.prems by (simp only:) (simp add: pieces_cut del: joined.simps)
qed

lemma tokens_joined:
  assumes "\<forall>q \<in> set ps. CHR '';'' \<notin> set (show_pair q)"
  shows "strtok_tokens (joined ps) = map show_pair ps"
proof (cases ps)
  case (Cons p qs)
  have "filter (\<lambda>t. t \<noteq> []) (map show_pair ps) = map show_pair ps" by (auto simp: show_pair_def filter_id_conv)
  then show ?thesis using assms unfolding strtok_tokens_def Cons by (simp only: pieces_joined)
qed (simp add: strtok_tokens_def)

lemma combine_more:
  assumes "\<forall>e \<in> set es. set_entry e"
  shows "for_chain (combine_strings plenty) es (m, Some a, n) =
    Ok (True, m, Some (a @ concat (map (\<lambda>q. '';'' @ show_pair q) (pairs es))), n + length es)"
  using assms
proof (induction es arbitrary: a n)
  case (Cons e es)
  then show ?case
    by (auto simp: combine_strings_def pairs_def show_pair_def show_str_def key_of_def value_of_def set_entry_def)
qed (simp add: pairs_def)

lemma combine_all:
  assumes "\<forall>e \<in> set es. set_entry e" and "es \<noteq> []"
  shows "for_chain (combine_strings plenty) es (m, None, n) = Ok (True, m, Some (joined (pairs es)), n + length es)"
proof -
  obtain e r where es: "es = e # r" using assms(2) by (cases es) auto
  then show ?thesis
    using combine_more [of r m "show_pair (key_of e, value_of e)" "Suc n"] assms
    by (auto simp: combine_strings_def pairs_def show_pair_def show_str_def key_of_def value_of_def set_entry_def)
qed

lemma to_str_ok:
  assumes inv: "sp_ok F s"
  shows "str_parms_to_str plenty s = Ok (Some (joined (pairs (entries (sp_map s)))))"
proof (cases "entries (sp_map s) = []")
  case True
  then have "hm_size (sp_map s) = 0" using inv by (simp add: sp_ok_def hm_ok_def unat_eq_0)
  then show ?thesis using True by (simp add: str_parms_to_str_def hashmapSize_def pairs_def)
next
  case False
  have sz: "hm_size (sp_map s) > 0" using inv False by (simp add: sp_ok_def hm_ok_def word_less_nat_alt)
  have "hashmapForEach fst (combine_strings plenty) (sp_map s, None, sp_next s) =
      obind (for_chain (combine_strings plenty) (entries (sp_map s)) (sp_map s, None, sp_next s)) (\<lambda>(_, s'). Ok s')"
    using inv by (subst hashmapForEach_keeping) (auto simp: combine_strings_def sp_ok_def hm_ok_def split: if_splits)
  then show ?thesis
    using sz combine_all [OF _ False] inv by (simp add: str_parms_to_str_def hashmapSize_def sp_ok_def)
qed

lemma sp_create_ok:
  "\<exists>s. str_parms_create plenty live n e = Ok (Some s) \<and> sp_ok (mset live) s \<and> sp_view s = (\<lambda>_. None) \<and>
    unat (hm_size (sp_map s)) = 0 \<and> sp_errno s = e \<and> sp_live s = live"
proof -
  obtain m :: parm_map where m: "hashmapCreate True True 5 (Some str_hash_fn) (Some str_eq) = Ok (Some m)" "hm_ok str_hash_fn str_eq m"
      "hm_size m = 0"
    using strk.create_ok [of 5] by blast
  then have "entries m = []" by (simp add: hm_ok_def)
  then show ?thesis
    using m by (intro exI [of _ "\<lparr>sp_map = m, sp_live = live, sp_next = n + 3, sp_errno = e\<rparr>"])
      (simp add: str_parms_create_def plenty_def sp_ok_def sp_view_def pairs_def)
qed

lemma create_str_ok:
  assumes "\<forall>(k, v) \<in> set ps. k \<noteq> [] \<and> CHR ''='' \<notin> set k" and "\<forall>q \<in> set ps. CHR '';'' \<notin> set (show_pair q)"
    and "length ps \<le> 2 ^ 29"
  shows "\<exists>s. str_parms_create_str plenty live n e (joined ps) = Ok (Some s) \<and> sp_ok (mset live) s \<and> sp_view s = map_of (rev ps)"
proof -
  obtain s0 where s0: "str_parms_create plenty live n e = Ok (Some s0)" "sp_ok (mset live) s0" "sp_view s0 = (\<lambda>_. None)"
      "unat (hm_size (sp_map s0)) = 0"
    using sp_create_ok [of live n e] by blast
  let ?a = "sp_next s0"
  let ?s1 = "s0\<lparr>sp_next := ?a + 1, sp_live := ?a # sp_live s0\<rparr>"
  have s1: "sp_ok (add_mset ?a (mset live)) ?s1" "sp_view ?s1 = (\<lambda>_. None)" "unat (hm_size (sp_map ?s1)) + length ps \<le> 2 ^ 29"
    using s0 assms(3) by (simp_all add: sp_ok_def sp_view_def)
  obtain s2 where s2: "add_pairs plenty (map (\<lambda>(k, v). k @ ''='' @ v) ps) ?s1 = Ok s2" "sp_ok (add_mset ?a (mset live)) s2"
      "sp_view s2 = sp_view ?s1 ++ map_of (rev ps)"
    using add_pairs_ok [OF s1(1,3) assms(1)] by blast
  have sp: "map show_pair ps = map (\<lambda>(k, v). k @ ''='' @ v) ps" by (auto simp: show_pair_def)
  have live: "?a \<in># mset (sp_live s2)" using s2(2) by (simp add: sp_ok_def)
  let ?s3 = "s2\<lparr>sp_live := remove1 ?a (sp_live s2)\<rparr>"
  have run: "str_parms_create_str plenty live n e (joined ps) = Ok (Some ?s3)"
    using s0(1) s2(1) live tokens_joined [OF assms(2)]
    by (simp add: str_parms_create_str_def strdup_def free_live sp)
  have "sp_ok (mset live) ?s3" using s2(2) by (simp add: sp_ok_def)
  moreover have "sp_view ?s3 = map_of (rev ps)" using s2(3) s1(2) by (simp add: sp_view_def map_add_def fun_eq_iff split: option.splits)
  ultimately show ?thesis using run by blast
qed

section \<open>Removing\<close>

lemma free_pair:
  assumes inv: "sp_ok F s" and ents: "mset (entries (sp_map s)) = add_mset e (mset (entries m'))" and m': "hm_ok str_hash_fn str_eq m'"
  shows "\<exists>s1 s2. c_free (ent_key e) (s\<lparr>sp_map := m'\<rparr>) = Ok s1 \<and> c_free (ent_value e) s1 = Ok s2 \<and> sp_ok F s2 \<and> sp_map s2 = m'"
proof -
  have st: "set (entries (sp_map s)) = insert e (set (entries m'))" using ents by (metis set_mset_add_mset_insert set_mset_mset)
  then have "set_entry e" using inv by (simp add: sp_ok_def)
  then obtain a k b v where e: "ent_key e = Some (a, k)" "ent_value e = Some (b, v)" by (auto simp: set_entry_def)
  define M where "M = F + \<Sum>\<^sub># (image_mset owned (mset (entries m')))"
  have live: "mset (sp_live s) = add_mset a (add_mset b M)"
    using inv by (simp add: sp_ok_def ents M_def owned_def e)
  let ?s1 = "s\<lparr>sp_map := m', sp_live := remove1 a (sp_live s)\<rparr>"
  let ?s2 = "?s1\<lparr>sp_live := remove1 b (sp_live ?s1)\<rparr>"
  have l1: "mset (sp_live ?s1) = add_mset b M" using live by simp
  have "a \<in> set (sp_live s)" "b \<in> set (sp_live ?s1)"
    using live l1 by (metis set_mset_mset union_single_eq_member add_mset_add_single)+
  then have "c_free (ent_key e) (s\<lparr>sp_map := m'\<rparr>) = Ok ?s1" "c_free (ent_value e) ?s1 = Ok ?s2"
    by (simp_all add: c_free_def e)
  moreover have "sp_ok F ?s2" using inv m' st live by (auto simp: sp_ok_def M_def)
  ultimately show ?thesis by (intro exI [of _ ?s1] exI [of _ ?s2]) simp
qed

lemma remove_pair_clears: "clearing (sp_ok F) sp_map (remove_pair None)"
  unfolding clearing_def
proof (intro conjI allI impI)
  fix s i e es
  assume inv: "sp_ok F s" and i: "i < length (buckets (sp_map s))" "buckets (sp_map s) ! i = e # es"
  have hm: "hm_ok str_hash_fn str_eq (sp_map s)" using inv by (simp add: sp_ok_def)
  let ?m' = "(sp_map s)\<lparr>buckets := (buckets (sp_map s))[i := es], hm_size := hm_size (sp_map s) - 1\<rparr>"
  note r = strk.head_removed [OF hm i refl]
  obtain s1 s2 where "c_free (ent_key e) (s\<lparr>sp_map := ?m'\<rparr>) = Ok s1" "c_free (ent_value e) s1 = Ok s2" "sp_ok F s2" "sp_map s2 = ?m'"
    using free_pair [OF inv r(3) r(2)] by blast
  then show "\<exists>s'. remove_pair None (ent_key e) (ent_value e) s = Ok (True, s') \<and> sp_ok F s' \<and>
      buckets (sp_map s') = (buckets (sp_map s))[i := es]"
    using r(1) by (intro exI [of _ s2]) (simp add: remove_pair_def)
qed (simp add: sp_ok_def hm_ok_def)

lemma destroy_ok:
  assumes inv: "sp_ok F s"
  shows "\<exists>live. str_parms_destroy s = Ok (live, []) \<and> mset live = F"
proof -
  obtain s' where s': "hashmapForEach sp_map (remove_pair None) s = Ok s'" "sp_ok F s'" "entries (sp_map s') = []"
    using for_each_clears [OF remove_pair_clears inv] by blast
  have "hashmapFree (sp_map s') = []"
    using s'(2,3) by (simp add: hashmapFree_def entries_def sp_ok_def hm_ok_def)
  then show ?thesis
    using s' by (auto simp: str_parms_destroy_def sp_ok_def)
qed

section \<open>Removing one pair\<close>

lemma for_chain_until:
  assumes "\<forall>e \<in> set es. cb (ent_key e) (ent_value e) s = Ok (if P e then (False, f e) else (True, s))"
  shows "for_chain cb es s = Ok (case find P es of None \<Rightarrow> (True, s) | Some e \<Rightarrow> (False, f e))"
  using assms by (induction es) auto

lemma find_append: "find P (xs @ ys) = (case find P xs of None \<Rightarrow> find P ys | Some x \<Rightarrow> Some x)"
  by (induction xs) auto

lemma for_buckets_until:
  assumes "\<forall>e \<in> set (entries (get s)). cb (ent_key e) (ent_value e) s = Ok (if P e then (False, f e) else (True, s))"
    and "i + n = length (buckets (get s))" and "length (buckets (get s)) < 2 ^ 32"
  shows "for_buckets get cb i n s = Ok (case find P (concat (drop i (buckets (get s)))) of None \<Rightarrow> s | Some e \<Rightarrow> f e)"
  using assms(2)
proof (induction n arbitrary: i)
  case (Suc n)
  let ?bs = "buckets (get s)"
  have i: "i < length ?bs" using Suc.prems by simp
  have d: "drop i ?bs = ?bs ! i # drop (Suc i) ?bs" using i by (simp add: Cons_nth_drop_Suc)
  have b: "bucket_at (get s) (word_of_nat i) = Ok (?bs ! i)" using i assms(3) by (simp add: bucket_at_def unat_of_nat)
  have "set (?bs ! i) \<subseteq> set (entries (get s))" using i nth_mem by (auto simp: entries_def)
  then have "for_chain cb (?bs ! i) s = Ok (case find P (?bs ! i) of None \<Rightarrow> (True, s) | Some e \<Rightarrow> (False, f e))"
    using assms(1) by (intro for_chain_until) blast
  then show ?case using b Suc.IH [of "Suc i"] Suc.prems by (simp add: d find_append split: option.split)
qed simp

text \<open>The state after the removal of an entry.\<close>

lemma remove_entry:
  assumes inv: "sp_ok F s" and e: "e \<in> set (entries (sp_map s))"
  shows "\<exists>s'. obind (hashmapRemove (sp_map s) (ent_key e))
      (\<lambda>(_, m). obind (c_free (ent_key e) (s\<lparr>sp_map := m\<rparr>)) (\<lambda>s1. obind (c_free (ent_value e) s1) (\<lambda>s2. Ok (b, s2)))) = Ok (b, s') \<and>
    sp_ok F s' \<and> sp_view s' = (sp_view s)(key_of e := None)"
proof -
  let ?m = "sp_map s"
  have hm: "hm_ok str_hash_fn str_eq ?m" and se: "set_entry e" using inv e by (simp_all add: sp_ok_def)
  have "hm_view ?m (ent_key e) \<noteq> None"
    using strk.view_Some_iff [of "entries ?m" "ent_key e" "ent_value e"] e hm strk.eq_refl
    by (auto simp: hm_view_def hm_ok_def)
  then obtain p c a where f: "chain_find (hm_equals ?m) (ent_key e) (hashKey ?m (ent_key e)) (chain_of ?m (ent_key e)) = Some (p, c, a)"
    using strk.find_None [OF hm, of "ent_key e"] by auto
  note fs = strk.find_Some [OF hm f]
  have "c = e"
  proof (rule ccontr)
    assume ne: "c \<noteq> e"
    have "e \<in># mset (entries ?m) - {#c#}" using e ne by (simp add: in_diff_count)
    then show False using hm fs(2,4) by (auto simp: hm_ok_def uniq_def)
  qed
  let ?m' = "?m\<lparr>buckets := with_chain ?m (ent_key e) (p @ a), hm_size := hm_size ?m - 1\<rparr>"
  have rm: "hashmapRemove ?m (ent_key e) = Ok (ent_value e, ?m')"
    using f \<open>c = e\<close> strk.chain_of_at(2) [OF hm, of "ent_key e"] by (simp add: hashmapRemove_def with_chain_def Let_def)
  note r = strk.remove_found [OF hm f refl, unfolded \<open>c = e\<close>]
  obtain s1 s2 where s2: "c_free (ent_key e) (s\<lparr>sp_map := ?m'\<rparr>) = Ok s1" "c_free (ent_value e) s1 = Ok s2" "sp_ok F s2" "sp_map s2 = ?m'"
    using free_pair [OF inv r(3) r(1)] by blast
  have eq: "mset (e # entries ?m') = mset (entries ?m)" using r(3) by simp
  then have "set (e # entries ?m') = set (entries ?m)" by (metis mset_eq_setD)
  moreover have "uniq str_eq (mset (e # entries ?m'))" unfolding eq using hm by (simp add: hm_ok_def)
  moreover have "\<forall>x \<in> set (entries ?m). set_entry x" using inv by (simp add: sp_ok_def)
  ultimately have "distinct (map key_of (e # entries ?m'))" by (intro keys_distinct) (simp_all only:)
  moreover have "sp_view s = map_of (pairs (e # entries ?m'))" using r(3) by (intro sp_view_perm [OF inv]) simp
  ultimately have "sp_view s2 = (sp_view s)(key_of e := None)"
    unfolding sp_view_def [of s2] s2(4) by (auto simp: pairs_def fun_eq_iff map_of_eq_None_iff)
  then show ?thesis using rm s2 by (intro exI [of _ s2]) simp
qed

lemma del_ok:
  assumes inv: "sp_ok F s"
  shows "\<exists>s'. str_parms_del s (Some (a, k)) = Ok s' \<and> sp_ok F s' \<and> sp_view s' = (sp_view s)(k := None)"
proof -
  let ?es = "entries (sp_map s)"
  let ?rm = "\<lambda>e. obind (hashmapRemove (sp_map s) (ent_key e))
      (\<lambda>(_, m). obind (c_free (ent_key e) (s\<lparr>sp_map := m\<rparr>)) (\<lambda>s1. obind (c_free (ent_value e) s1) (\<lambda>s2. Ok (False, s2))))"
  define f where "f e = (SOME s'. ?rm e = Ok (False, s') \<and> sp_ok F s' \<and> sp_view s' = (sp_view s)(key_of e := None))" for e
  have f: "?rm e = Ok (False, f e) \<and> sp_ok F (f e) \<and> sp_view (f e) = (sp_view s)(key_of e := None)" if "e \<in> set ?es" for e
    unfolding f_def using remove_entry [OF inv that, of False] by (rule someI_ex)
  have cb: "\<forall>e \<in> set ?es. remove_pair (Some (a, k)) (ent_key e) (ent_value e) s = Ok (if key_of e = k then (False, f e) else (True, s))"
  proof
    fix e assume e: "e \<in> set ?es"
    then have "set_entry e" using inv by (simp add: sp_ok_def)
    then obtain b k' where "ent_key e = Some (b, k')" by (auto simp: set_entry_def)
    then show "remove_pair (Some (a, k)) (ent_key e) (ent_value e) s = Ok (if key_of e = k then (False, f e) else (True, s))"
      using f [OF e] by (simp add: remove_pair_def key_of_def)
  qed
  have len: "length (buckets (sp_map s)) = unat (bucketCount (sp_map s))" using inv by (simp add: sp_ok_def hm_ok_def)
  have run: "str_parms_del s (Some (a, k)) = Ok (case find (\<lambda>e. key_of e = k) ?es of None \<Rightarrow> s | Some e \<Rightarrow> f e)"
    using for_buckets_until [where get = sp_map and i = 0 and s = s and cb = "remove_pair (Some (a, k))" and P = "\<lambda>e. key_of e = k" and f = f, OF cb] len unat_u32_less [of "bucketCount (sp_map s)"]
    by (simp add: str_parms_del_def hashmapForEach_def entries_def)
  show ?thesis
  proof (cases "find (\<lambda>e. key_of e = k) ?es")
    case None
    then have "sp_view s k = None" by (auto simp: sp_view_def pairs_def map_of_eq_None_iff find_None_iff)
    then show ?thesis using run None inv by (intro exI [of _ s]) auto
  next
    case (Some e)
    then have "e \<in> set ?es" "key_of e = k" by (auto simp: find_Some_iff in_set_conv_nth)
    then show ?thesis using run Some f [of e] by (intro exI [of _ "f e"]) auto
  qed
qed

end
