(* ===== verification/Str_Parms_Spec.thy ===== *)
theory Str_Parms_Spec
  imports Str_Parms_Props
begin

text \<open>
  The properties of the hash table and of parameter lists, with small instances.
\<close>

section \<open>Reading\<close>

lemma get_str_ok:
  assumes "sp_ok F s"
  shows "str_parms_get_str s (a, k) len =
    Ok (case sp_view s k of
          None \<Rightarrow> (- ENOENT, None)
        | Some v \<Rightarrow> (int (length v), if (word_of_int len :: u32) = 0 then None else Some (take (unat (word_of_int len :: u32) - 1) v)))"
proof -
  have hm: "hm_ok str_hash_fn str_eq (sp_map s)" using assms by (simp add: sp_ok_def)
  note g = strk.get_ok(1) [OF hm, of "Some (a, k)"]
  show ?thesis
  proof (cases "sp_view s k")
    case None
    then show ?thesis using g sp_view_table(1) [OF assms, of a k] by (simp add: str_parms_get_str_def)
  next
    case (Some v)
    then show ?thesis using g sp_view_table(2) [OF assms Some, of a] by (auto simp: str_parms_get_str_def strlcpy_def)
  qed
qed

lemma get_int_ok:
  assumes "sp_ok F s"
  shows "str_parms_get_int s (a, k) =
    Ok (case sp_view s k of
          None \<Rightarrow> (- ENOENT, None)
        | Some v \<Rightarrow> (if v \<noteq> [] \<and> snd (strtol v) = [] then 0 else - EINVAL, Some (fst (strtol v))))"
proof -
  have hm: "hm_ok str_hash_fn str_eq (sp_map s)" using assms by (simp add: sp_ok_def)
  note g = strk.get_ok(1) [OF hm, of "Some (a, k)"]
  show ?thesis
  proof (cases "sp_view s k")
    case None
    then show ?thesis using g sp_view_table(1) [OF assms, of a k] by (simp add: str_parms_get_int_def)
  next
    case (Some v)
    then show ?thesis using g sp_view_table(2) [OF assms Some, of a]
      by (auto simp: str_parms_get_int_def split: prod.split)
  qed
qed

section \<open>Numbers\<close>

lemma digit_char: "d < 10 \<Longrightarrow> of_char (char_of (48 + d) :: char) = (48 + d :: nat)"
  by simp

lemma digit_value_char: "d < 10 \<Longrightarrow> digit_value (char_of (48 + d)) = Some d"
  by (simp add: digit_value_def Let_def)

lemma digits_loop_append:
  assumes "digits_loop b xs acc any = (acc', any', [])"
  shows "digits_loop b (xs @ ys) acc any = digits_loop b ys acc' any'"
  using assms by (induction b xs acc any rule: digits_loop.induct) (auto split: option.splits if_splits)

lemma digits_loop_decimal: "digits_loop 10 (decimal n) acc any = (acc * 10 ^ length (decimal n) + n, True, [])"
proof (induction n arbitrary: acc any rule: decimal.induct)
  case (1 n)
  show ?case
  proof (cases "n < 10")
    case True
    then show ?thesis by (simp add: decimal.simps [of n] digit_value_char)
  next
    case False
    then have d: "decimal n = decimal (n div 10) @ [char_of (48 + n mod 10)]" by (simp add: decimal.simps [of n])
    have "digits_loop 10 (decimal n) acc any =
        digits_loop 10 [char_of (48 + n mod 10)] (acc * 10 ^ length (decimal (n div 10)) + n div 10) True"
      unfolding d using 1 [OF False] by (intro digits_loop_append)
    then show ?thesis using d by (simp add: digit_value_char algebra_simps)
  qed
qed

lemma decimal_first:
  "\<exists>d r. decimal n = char_of (48 + d) # r \<and> d < (10 :: nat) \<and> (d = 0 \<longrightarrow> n = 0 \<and> r = [])"
proof (induction n rule: decimal.induct)
  case (1 n)
  show ?case
  proof (cases "n < 10")
    case True
    then show ?thesis by (intro exI [of _ n] exI [of _ "[]"]) (simp add: decimal.simps [of n])
  next
    case False
    obtain d :: nat and r where "decimal (n div 10) = char_of (48 + d) # r" "d < 10" "d = 0 \<longrightarrow> n div 10 = 0 \<and> r = []"
      using 1 [OF False] by blast
    then show ?thesis
      using False by (intro exI [of _ d] exI [of _ "r @ [char_of (48 + n mod 10)]"]) (auto simp: decimal.simps [of n])
  qed
qed

text \<open>The digits of a number, without a sign, are read in base 10, or in base 8 for \<open>0\<close>.\<close>

lemma strtol_decimal:
  assumes "s2 = decimal n"
  shows "(case s2 of c # x # _ \<Rightarrow> c = CHR ''0'' \<and> (x = CHR ''x'' \<or> x = CHR ''X'') | _ \<Rightarrow> False) = False"
    and "digits_loop (if (case s2 of c # _ \<Rightarrow> c = CHR ''0'' | [] \<Rightarrow> False) then 8 else 10) s2 0 False = (n, True, [])"
proof -
  obtain d :: nat and r where d: "decimal n = char_of (48 + d) # r" "d < 10" "d = 0 \<longrightarrow> n = 0 \<and> r = []" using decimal_first [of n] by blast
  have z: "char_of (48 + d) = CHR ''0'' \<longleftrightarrow> d = 0"
  proof
    assume "char_of (48 + d) = CHR ''0''"
    then have "of_char (char_of (48 + d) :: char) = (of_char CHR ''0'' :: nat)" by simp
    then show "d = 0" using digit_char [OF d(2)] by simp
  next
    have "char_of (48 :: nat) = CHR ''0''" by code_simp
    then show "d = 0 \<Longrightarrow> char_of (48 + d) = CHR ''0''" by simp
  qed
  show "(case s2 of c # x # _ \<Rightarrow> c = CHR ''0'' \<and> (x = CHR ''x'' \<or> x = CHR ''X'') | _ \<Rightarrow> False) = False"
    using d z by (auto simp: assms split: list.splits)
  show "digits_loop (if (case s2 of c # _ \<Rightarrow> c = CHR ''0'' | [] \<Rightarrow> False) then 8 else 10) s2 0 False = (n, True, [])"
  proof (cases "d = 0")
    case True
    then show ?thesis using d by (simp add: assms digit_value_def)
  next
    case False
    then have "(case s2 of c # _ \<Rightarrow> c = CHR ''0'' | [] \<Rightarrow> False) = False" using d z by (simp add: assms)
    then show ?thesis using digits_loop_decimal [of n 0 False] by (simp add: assms)
  qed
qed

lemma char_codes: "of_char CHR ''-'' = (45 :: nat)" "of_char CHR ''+'' = (43 :: nat)"
  by code_simp+

lemma digit_not_special:
  assumes "d < (10 :: nat)"
  shows "\<not> is_space (char_of (48 + d))" and "char_of (48 + d) \<noteq> CHR ''-''" and "char_of (48 + d) \<noteq> CHR ''+''"
proof -
  have c: "of_char (char_of (48 + d) :: char) = 48 + d" using assms by simp
  show "\<not> is_space (char_of (48 + d))" using assms by (simp add: is_space_def Let_def)
  show "char_of (48 + d) \<noteq> CHR ''-''" "char_of (48 + d) \<noteq> CHR ''+''"
    using c char_codes by fastforce+
qed

lemma strtol_format:
  assumes "LONG_MIN \<le> i" and "i \<le> LONG_MAX"
  shows "strtol (format_int i) = (i, [])"
proof -
  define n where "n = nat (if i < 0 then - i else i)"
  obtain d r where d: "decimal n = char_of (48 + d) # r" "d < (10 :: nat)" using decimal_first [of n] by blast
  note sp = digit_not_special [OF d(2)]
  note dec = strtol_decimal [OF refl, of n]
  have f: "format_int i = (if i < 0 then CHR ''-'' # decimal n else decimal n)" by (simp add: format_int_def n_def)
  have minus: "\<not> is_space CHR ''-''" by code_simp
  have v: "max LONG_MIN (min LONG_MAX (if i < 0 then - int n else int n)) = i" using assms by (auto simp: n_def)
  show ?thesis
  proof (cases "i < 0")
    case True
    then show ?thesis using v minus dec unfolding f strtol_def by (simp add: Let_def)
  next
    case False
    have "dropWhile is_space (decimal n) = decimal n" using d sp by simp
    moreover have "(case decimal n of c # cs \<Rightarrow> if c = CHR ''-'' \<or> c = CHR ''+'' then cs else decimal n | [] \<Rightarrow> []) = decimal n"
      "(case decimal n of c # _ \<Rightarrow> c = CHR ''-'' | [] \<Rightarrow> False) = False"
      using d sp by simp_all
    ultimately show ?thesis using v dec False unfolding f strtol_def by (simp add: Let_def)
  qed
qed

lemma decimal_length: "n < 10 ^ Suc k \<Longrightarrow> length (decimal n) \<le> Suc k"
proof (induction k arbitrary: n)
  case 0
  then show ?case by (simp add: decimal.simps [of n])
next
  case (Suc k)
  have "n div 10 < 10 ^ Suc k" using Suc.prems by (simp add: div_less_iff_less_mult mult.commute)
  then show ?case using Suc.IH [of "n div 10"] by (simp add: decimal.simps [of n])
qed

lemma format_int_short:
  assumes "LONG_MIN \<le> i" and "i \<le> LONG_MAX"
  shows "length (format_int i) \<le> 11"
proof -
  have "nat (if i < 0 then - i else i) < 10 ^ Suc 9" using assms by (auto simp: LONG_MIN_def LONG_MAX_def nat_less_iff)
  then have "length (decimal (nat (if i < 0 then - i else i))) \<le> Suc 9" by (rule decimal_length)
  then show ?thesis by (simp add: format_int_def split: if_splits)
qed

section \<open>A small list\<close>

definition demo_sp :: str_parms where
  "demo_sp = (case str_parms_create_str plenty [] 0 0 ''a=1;b=xy'' of Ok (Some s) \<Rightarrow> s | _ \<Rightarrow> undefined)"

lemma demo_sp_ok: "sp_ok {#} demo_sp" and demo_sp_view: "sp_view demo_sp = map_of [(''b'', ''xy''), (''a'', ''1'')]"
proof -
  have j: "joined [(''a'', ''1''), (''b'', ''xy'')] = ''a=1;b=xy''" by (simp add: show_pair_def)
  obtain s where s: "str_parms_create_str plenty [] 0 0 ''a=1;b=xy'' = Ok (Some s)" "sp_ok {#} s"
      "sp_view s = map_of (rev [(''a'', ''1''), (''b'', ''xy'')])"
    using create_str_ok [of "[(''a'', ''1''), (''b'', ''xy'')]" "[]" 0 0] unfolding j by (auto simp: show_pair_def)
  then have "demo_sp = s" by (simp add: demo_sp_def)
  then show "sp_ok {#} demo_sp" "sp_view demo_sp = map_of [(''b'', ''xy''), (''a'', ''1'')]" using s by simp_all
qed

lemma demo_sp_fields: "unat (hm_size (sp_map demo_sp)) = 2" "sp_errno demo_sp = 0" "sp_next demo_sp = 12"
    "set (sp_live demo_sp) = {4, 5, 8, 9}" "length (entries (sp_map demo_sp)) = 2"
  by code_simp+

section \<open>Properties of the hash table\<close>

text \<open>
  C25. The hash table refines a map. With an equivalence on keys and a hash that respects it, on a table in order with fewer
  than \<open>2 ^ 29\<close> entries: \<open>hashmapPut\<close> returns the old value and updates the map at the key,
  \<open>hashmapRemove\<close> returns the value and removes the key, \<open>hashmapMemoize\<close> adds the computed value only when the key is
  missing, \<open>hashmapGet\<close> and \<open>hashmapContainsKey\<close> look it up; the table stays in order, whether or not a rehash happens
  or its allocation fails.
\<close>
theorem hashmap_refines_map:
  assumes "hash_keys hash eq" and "hm_ok hash eq m" and "unat (hm_size m) < 2 ^ 29"
  shows "(\<exists>m'. hashmapPut True expand errno m key v = Ok (case hm_view m key of None \<Rightarrow> None | Some old \<Rightarrow> old, errno, m') \<and>
      hm_ok hash eq m' \<and> hm_view m' = (\<lambda>k. if eq key k then Some v else hm_view m k) \<and>
      unat (hm_size m') = (if hm_view m key = None then Suc (unat (hm_size m)) else unat (hm_size m))) \<and>
    (\<exists>m'. hashmapRemove m key = Ok (case hm_view m key of None \<Rightarrow> None | Some old \<Rightarrow> old, m') \<and>
      hm_ok hash eq m' \<and> hm_view m' = (\<lambda>k. if eq key k then None else hm_view m k)) \<and>
    (\<exists>m'. hashmapMemoize True expand errno m key init = Ok (case hm_view m key of None \<Rightarrow> init key | Some old \<Rightarrow> old, errno, m') \<and>
      hm_ok hash eq m' \<and>
      hm_view m' = (if hm_view m key = None then (\<lambda>k. if eq key k then Some (init key) else hm_view m k) else hm_view m)) \<and>
    hashmapGet m key = Ok (case hm_view m key of None \<Rightarrow> None | Some old \<Rightarrow> old) \<and>
    hashmapContainsKey m key = Ok (hm_view m key \<noteq> None)"
  using hash_keys.put_ok [OF assms, of expand errno key v] hash_keys.remove_ok [OF assms(1,2), of key]
    hash_keys.memoize_ok [OF assms, of expand errno key init] hash_keys.get_ok [OF assms(1,2), of key]
  by blast

theorem hashmap_refines_map_witness:
  "(\<exists>m'. hashmapPut True True 0 (sp_map demo_sp) (Some (99, ''c'')) (Some (98, ''z'')) =
      Ok (case hm_view (sp_map demo_sp) (Some (99, ''c'')) of None \<Rightarrow> None | Some old \<Rightarrow> old, 0, m') \<and>
    hm_ok str_hash_fn str_eq m')"
proof -
  have "hm_ok str_hash_fn str_eq (sp_map demo_sp)" using demo_sp_ok by (simp add: sp_ok_def)
  moreover have "unat (hm_size (sp_map demo_sp)) < 2 ^ 29" by (simp add: demo_sp_fields)
  ultimately show ?thesis
    using hashmap_refines_map [OF strk.hash_keys_axioms, of "sp_map demo_sp" True 0 "Some (99, ''c'')" "Some (98, ''z'')"] by blast
qed


section \<open>Properties of parameter lists\<close>

text \<open>
  C26. Printing and parsing: \<open>str_parms_create_str\<close> on the string that \<open>str_parms_to_str\<close> prints gives a list with the
  same parameters, when no key is empty or contains \<open>=\<close> or \<open>;\<close>, no value contains \<open>;\<close>, and memory does not
  run out.
\<close>
theorem str_parms_roundtrip:
  assumes "sp_ok F s" and "length (entries (sp_map s)) \<le> 2 ^ 29"
    and "\<forall>(k, v) \<in> set (pairs (entries (sp_map s))). k \<noteq> [] \<and> CHR ''='' \<notin> set k \<and> CHR '';'' \<notin> set k \<and> CHR '';'' \<notin> set v"
  shows "\<exists>str s'. str_parms_to_str plenty s = Ok (Some str) \<and>
    str_parms_create_str plenty live n e str = Ok (Some s') \<and> sp_ok (mset live) s' \<and> sp_view s' = sp_view s"
proof -
  let ?ps = "pairs (entries (sp_map s))"
  have p: "\<forall>(k, v) \<in> set ?ps. k \<noteq> [] \<and> CHR ''='' \<notin> set k" "\<forall>q \<in> set ?ps. CHR '';'' \<notin> set (show_pair q)" "length ?ps \<le> 2 ^ 29"
    using assms(2,3) by (auto simp: show_pair_def pairs_def)
  obtain s' where s': "str_parms_create_str plenty live n e (joined ?ps) = Ok (Some s')" "sp_ok (mset live) s'" "sp_view s' = map_of (rev ?ps)"
    using create_str_ok [OF p] by blast
  have "distinct (map fst ?ps)"
    using keys_distinct [of "entries (sp_map s)"] assms(1) by (simp add: sp_ok_def hm_ok_def pairs_def comp_def)
  then have "map_of (rev ?ps) = sp_view s" using map_of_perm [of ?ps "rev ?ps"] by (simp add: sp_view_def)
  then show ?thesis using to_str_ok [OF assms(1)] s' by auto
qed

theorem str_parms_roundtrip_witness:
  "\<exists>str s'. str_parms_to_str plenty demo_sp = Ok (Some str) \<and>
    str_parms_create_str plenty [] 0 0 str = Ok (Some s') \<and> sp_ok (mset []) s' \<and> sp_view s' = sp_view demo_sp"
proof (rule str_parms_roundtrip [OF demo_sp_ok])
  show "length (entries (sp_map demo_sp)) \<le> 2 ^ 29" by (simp add: demo_sp_fields)
  have "set (pairs (entries (sp_map demo_sp))) = {(''a'', ''1''), (''b'', ''xy'')}" by code_simp
  then show "\<forall>(k, v) \<in> set (pairs (entries (sp_map demo_sp))). k \<noteq> [] \<and> CHR ''='' \<notin> set k \<and> CHR '';'' \<notin> set k \<and> CHR '';'' \<notin> set v"
    by simp
qed

text \<open>
  C27. Ownership: a parameter list owns exactly the keys and values of its entries. \<open>str_parms_add_str\<close> (with memory, and no
  stale \<open>errno\<close>) and \<open>str_parms_del\<close> keep that, free every string they replace or remove and have the effect of an
  update of the map; \<open>str_parms_destroy\<close> frees everything the list owns and nothing else.
\<close>
theorem str_parms_ownership:
  assumes "sp_ok F s" and "unat (hm_size (sp_map s)) < 2 ^ 29" and "sp_errno s \<noteq> ENOMEM"
  shows "(\<exists>s'. str_parms_add_str plenty s k v = Ok (0, s') \<and> sp_ok F s' \<and> sp_view s' = (sp_view s)(k \<mapsto> v)) \<and>
    (\<exists>s'. str_parms_del s (Some (a, k)) = Ok s' \<and> sp_ok F s' \<and> sp_view s' = (sp_view s)(k := None)) \<and>
    (\<exists>live. str_parms_destroy s = Ok (live, []) \<and> mset live = F)"
  using add_str_ok [OF assms, of plenty k v] del_ok [OF assms(1), of a k] destroy_ok [OF assms(1)] plenty by blast

theorem str_parms_ownership_witness:
  "(\<exists>s'. str_parms_add_str plenty demo_sp ''b'' ''new'' = Ok (0, s') \<and> sp_ok {#} s' \<and> sp_view s' = (sp_view demo_sp)(''b'' \<mapsto> ''new'')) \<and>
    (\<exists>live. str_parms_destroy demo_sp = Ok (live, []) \<and> mset live = {#})"
  using str_parms_ownership [OF demo_sp_ok, of "''b''" "''new''"] by (simp add: demo_sp_fields)

text \<open>
  C29. A number added with \<open>str_parms_add_int\<close> is read back by \<open>str_parms_get_int\<close>, for every 32 bit \<open>int\<close>.
\<close>
theorem str_parms_int_roundtrip:
  assumes "sp_ok F s" and "unat (hm_size (sp_map s)) < 2 ^ 29" and "sp_errno s \<noteq> ENOMEM" and "LONG_MIN \<le> i" and "i \<le> LONG_MAX"
  shows "\<exists>s'. str_parms_add_int plenty s k i = Ok (0, s') \<and> str_parms_get_int s' (a, k) = Ok (0, Some i)"
proof -
  obtain s' where s': "str_parms_add_str plenty s k (format_int i) = Ok (0, s')" "sp_ok F s'" "sp_view s' = (sp_view s)(k \<mapsto> format_int i)"
    using add_str_ok [OF assms(1-3), of plenty k "format_int i"] plenty by blast
  have "format_int i \<noteq> []" using decimal_first [of "nat i"] by (auto simp: format_int_def)
  then show ?thesis
    using s' strtol_format [OF assms(4,5)] format_int_short [OF assms(4,5)] get_int_ok [OF s'(2), of a k]
    by (intro exI [of _ s']) (simp add: str_parms_add_int_def)
qed

theorem str_parms_int_roundtrip_witness:
  "\<exists>s'. str_parms_add_int plenty demo_sp ''n'' (- 2147483648) = Ok (0, s') \<and> str_parms_get_int s' (0, ''n'') = Ok (0, Some (- 2147483648))"
  by (rule str_parms_int_roundtrip [OF demo_sp_ok]) (simp_all add: demo_sp_fields LONG_MIN_def LONG_MAX_def)

text \<open>
  C40. \<open>str_parms_add_str\<close> looks at \<open>errno\<close> although \<open>hashmapPut\<close> leaves it alone on success: when it is still \<open>ENOMEM\<close> from
  an earlier failure, adding a new parameter puts the pair into the table, frees its key and value all the same and reports failure;
  the table is left with an entry whose key and value are freed.
\<close>
theorem stale_errno_dangles:
  assumes "sp_ok F s" and "unat (hm_size (sp_map s)) < 2 ^ 29" and "sp_errno s = ENOMEM" and "sp_view s k = None"
    and "sp_next s \<notin> set (sp_live s)" and "sp_next s + 1 \<notin> set (sp_live s)"
  shows "\<exists>s' e. str_parms_add_str plenty s k v = Ok (- ENOMEM, s') \<and> e \<in> set (entries (sp_map s')) \<and> key_of e = k \<and>
    fst (the (ent_key e)) \<notin> set (sp_live s') \<and> fst (the (ent_value e)) \<notin> set (sp_live s')"
proof -
  let ?a = "sp_next s" and ?key = "Some (sp_next s, k)" and ?val = "Some (sp_next s + 1, v)"
  let ?e = "\<lparr>ent_key = ?key, ent_hash = hashKey (sp_map s) ?key, ent_value = ?val\<rparr>"
  have hm: "hm_ok str_hash_fn str_eq (sp_map s)" using assms(1) by (simp add: sp_ok_def)
  have absent: "\<not> str_eq (ent_key c) ?key" if "c \<in> set (entries (sp_map s))" for c
    using that assms(1,4) str_eq_keys [of c ?a k] by (force simp: sp_view_def pairs_def map_of_eq_None_iff sp_ok_def set_entry_def)
  obtain old m' where p: "hashmapPut True True ENOMEM (sp_map s) ?key ?val = Ok (old, ENOMEM, m')" "old = None"
      "mset (entries m') = add_mset ?e (mset (entries (sp_map s)))"
    using strk.put_step [OF hm assms(2), of True ENOMEM ?key ?val] absent by (metis set_mset_mset union_single_eq_member add_mset_add_single)
  define s3 where "s3 = s\<lparr>sp_map := m', sp_next := ?a + 4, sp_live := (?a + 1) # ?a # sp_live s\<rparr>"
  have put: "sp_put plenty (s\<lparr>sp_next := ?a + 2, sp_live := (?a + 1) # ?a # sp_live s\<rparr>) ?key ?val = Ok (None, s3)"
    using p assms(3) by (simp add: sp_put_def s3_def plenty_def eval_nat_numeral)
  let ?s' = "s3\<lparr>sp_live := sp_live s\<rparr>"
  have "str_parms_add_str plenty s k v = Ok (- ENOMEM, ?s')"
    unfolding str_parms_add_str_def Let_def two_copies [of plenty, OF plenty plenty] put
    using assms(3) by (simp add: c_free_def s3_def)
  moreover have "?e \<in> set (entries (sp_map ?s'))" using p(3) by (simp add: s3_def) (metis set_mset_mset union_single_eq_member add_mset_add_single)
  ultimately show ?thesis
    using assms(5,6) by (intro exI [of _ ?s'] exI [of _ ?e]) (simp add: key_of_def)
qed

theorem stale_errno_dangles_witness:
  "\<exists>s' e. str_parms_add_str plenty (demo_sp\<lparr>sp_errno := ENOMEM\<rparr>) ''c'' ''z'' = Ok (- ENOMEM, s') \<and>
    e \<in> set (entries (sp_map s')) \<and> key_of e = ''c'' \<and>
    fst (the (ent_key e)) \<notin> set (sp_live s') \<and> fst (the (ent_value e)) \<notin> set (sp_live s')"
proof (rule stale_errno_dangles [of "{#}"])
  show "sp_ok {#} (demo_sp\<lparr>sp_errno := ENOMEM\<rparr>)" using demo_sp_ok by (simp add: sp_ok_def)
  show "sp_view (demo_sp\<lparr>sp_errno := ENOMEM\<rparr>) ''c'' = None" using demo_sp_view by (simp add: sp_view_def)
qed (simp_all add: demo_sp_fields)

end
