(* ===== verification/Sdcard.thy ===== *)
theory Sdcard
  imports Hashmap C_Library "HOL-Library.AList"
begin

text \<open>
  \<open>sdcard/sdcard.c\<close>, first part: the tree of nodes behind the emulated card, the permissions derived from the position in
  it, and the checks on the caller.

  A \<open>struct node *\<close> is an address, \<open>None\<close> for \<open>NULL\<close>; the nodes that are allocated are an association list from
  addresses, and reading a node at an address that is not in it is the fault \<open>Use_After_Free\<close>. The root is part of
  \<open>struct fuse\<close>; its address is \<open>root_ptr\<close>. Sibling lists are the \<open>child\<close> and \<open>next\<close> links of the source. Walks
  along links have fuel, the number of nodes, and running out of it is the fault \<open>Diverges\<close>.

  A path buffer is the string in it. Results of allocations and of system calls are arguments, the record \<open>os\<close>; the calls
  made and the replies written are appended to logs in the state. The keys of the package table are copies of names, each
  with an address of its own. Traces and messages are left out.
\<close>

type_synonym addr = nat

abbreviation (input) PATH_MAX :: nat where "PATH_MAX \<equiv> 4096"
abbreviation (input) AID_ROOT :: u32 where "AID_ROOT \<equiv> 0"
abbreviation (input) AID_SDCARD_RW :: u32 where "AID_SDCARD_RW \<equiv> 1015"
abbreviation (input) AID_SDCARD_R :: u32 where "AID_SDCARD_R \<equiv> 1028"
abbreviation (input) AID_SDCARD_PICS :: u32 where "AID_SDCARD_PICS \<equiv> 1033"
abbreviation (input) AID_SDCARD_AV :: u32 where "AID_SDCARD_AV \<equiv> 1034"
abbreviation (input) AID_SDCARD_ALL :: u32 where "AID_SDCARD_ALL \<equiv> 1035"
abbreviation (input) FUSE_ROOT_ID :: u64 where "FUSE_ROOT_ID \<equiv> 1"
abbreviation (input) EACCES :: int where "EACCES \<equiv> 13"
abbreviation (input) W_OK :: u32 where "W_OK \<equiv> 2"
abbreviation (input) R_OK :: u32 where "R_OK \<equiv> 4"

text \<open>Modes, octal in the source: \<open>0770\<close>, \<open>0771\<close>, \<open>0775\<close>, \<open>0664\<close>, \<open>0700\<close>, \<open>0777\<close>.\<close>

abbreviation (input) o770 :: u32 where "o770 \<equiv> 504"
abbreviation (input) o771 :: u32 where "o771 \<equiv> 505"
abbreviation (input) o775 :: u32 where "o775 \<equiv> 509"
abbreviation (input) o664 :: u32 where "o664 \<equiv> 436"
abbreviation (input) o700 :: u32 where "o700 \<equiv> 448"
abbreviation (input) o777 :: u32 where "o777 \<equiv> 511"
abbreviation (input) S_IFMT :: u32 where "S_IFMT \<equiv> 61440"
abbreviation (input) S_IFDIR :: u32 where "S_IFDIR \<equiv> 16384"

section \<open>Data\<close>

datatype perm_t =
    PERM_INHERIT
  | PERM_LEGACY_PRE_ROOT
  | PERM_ROOT
  | PERM_ANDROID
  | PERM_ANDROID_DATA
  | PERM_ANDROID_OBB
  | PERM_ANDROID_USER

datatype derive_t = DERIVE_NONE | DERIVE_LEGACY | DERIVE_UNIFIED

record node =
  nd_refcount :: u32
  nd_nid :: u64
  nd_gen :: u64
  nd_perm :: perm_t
  nd_userid :: u32
  nd_uid :: u32
  nd_gid :: u32
  nd_mode :: u32
  nd_next :: "addr option"
  nd_child :: "addr option"
  nd_parent :: "addr option"
  nd_namelen :: u32
  nd_name :: string
  nd_actual_name :: "string option"
  nd_graft_path :: "string option"
  nd_graft_pathlen :: u32

record stat =
  st_size :: u64
  st_blocks :: u64
  st_atime :: u64
  st_mtime :: u64
  st_ctime :: u64
  st_atime_nsec :: u32
  st_mtime_nsec :: u32
  st_ctime_nsec :: u32
  st_mode :: u32
  st_nlink :: u32
  st_uid :: u32
  st_gid :: u32

record fuse_attr =
  at_ino :: u64
  at_size :: u64
  at_blocks :: u64
  at_atime :: u64
  at_mtime :: u64
  at_ctime :: u64
  at_atimensec :: u32
  at_mtimensec :: u32
  at_ctimensec :: u32
  at_mode :: u32
  at_nlink :: u32
  at_uid :: u32
  at_gid :: u32

text \<open>A time for \<open>utimensat\<close>: \<open>UTIME_OMIT\<close>, \<open>UTIME_NOW\<close>, or seconds and nanoseconds.\<close>

datatype timespec = UTIME_OMIT | UTIME_NOW | Time u64 u32

datatype syscall =
    Access string
  | Opendir string
  | Closedir string
  | Lstat string
  | Mknod string u32 u32
  | Mkdir string u32
  | Chmod string u32
  | Chown string u32 u32
  | Unlink string
  | Rmdir string
  | Rename string string
  | Truncate string u64
  | Utimensat string timespec timespec
  | Open string u32
  | Open_new string u32
  | Close int
  | Pread int u32 u64
  | Pwrite int bytes u64
  | Fsync int bool
  | Statfs string
  | Readdir int bool

record statfs =
  f_blocks :: u64
  f_bfree :: u64
  f_bavail :: u64
  f_files :: u64
  f_ffree :: u64
  f_bsize :: u32
  f_namelen :: u32
  f_frsize :: u32

text \<open>The payload of a reply; \<open>0\<close> fields that no caller reads are left out.\<close>

datatype payload =
    No_data
  | Entry_out (out_nodeid: u64) (out_generation: u64) (out_entry_valid: u64) (out_attr_valid: u64) (out_attr: fuse_attr)
  | Attr_out u64 fuse_attr
  | Open_out u64 u32
  | Bytes_out bytes
  | Write_out u32
  | Statfs_out statfs
  | Dirent_out u64 u64 u32 string
  | Init_out u32 u32 u32 u32 u16 u16 u32

record fuse_out =
  out_len :: u32
  out_error :: int
  out_unique :: u64
  out_data :: payload

text \<open>The header of a request.\<close>

record fuse_in_header =
  hdr_len :: u32
  hdr_opcode :: u32
  hdr_unique :: u64
  hdr_nodeid :: u64
  hdr_uid :: u32
  hdr_gid :: u32
  hdr_pid :: u32

text \<open>
  What the system answers while a request is handled: \<open>os_access\<close> is whether a path exists, \<open>os_readdir\<close> the names
  in a directory that can be opened, \<open>Inl\<close> an \<open>errno\<close>. \<open>os_call\<close> answers the other calls. \<open>os_node\<close> and
  \<open>os_handle\<close> are the addresses \<open>calloc\<close> and \<open>malloc\<close> return, the three flags whether the allocations for names
  succeed, \<open>os_writev\<close> whether a reply reaches the kernel.
\<close>

record os =
  os_access :: "string \<Rightarrow> bool"
  os_readdir :: "string \<Rightarrow> string list option"
  os_lstat :: "string \<Rightarrow> int + stat"
  os_call :: "syscall \<Rightarrow> int + int"
  os_pread :: "syscall \<Rightarrow> int + bytes"
  os_statfs :: "string \<Rightarrow> int + statfs"
  os_dirent :: "syscall \<Rightarrow> (u32 \<times> string) option"
  os_node :: "addr option"
  os_handle :: "addr option"
  os_name :: bool
  os_actual :: bool
  os_realloc_actual :: bool
  os_writev :: bool

type_synonym key = "addr \<times> string"

record fuse =
  node_heap :: "(addr \<times> node) list"
  next_generation :: u64
  derive :: derive_t
  split_perms :: bool
  write_gid :: u32
  obbpath :: string
  package_to_appid :: "(key, u32) Hashmap option"
  appid_with_rw :: "(u32, u32) Hashmap option"
  key_heap :: "addr list"
  key_next :: addr
  handle_heap :: "(addr \<times> int) list"
  dir_heap :: "(addr \<times> int) list"
  sys_calls :: "syscall list"
  replies :: "fuse_out list"

definition issue :: "syscall \<Rightarrow> fuse \<Rightarrow> fuse" where
  "issue c f = f\<lparr>sys_calls := sys_calls f @ [c]\<rparr>"

section \<open>Keys\<close>

definition bytes_of :: "string \<Rightarrow> bytes" where
  "bytes_of s = map of_char s"

definition str_hash :: "key \<Rightarrow> u32" where
  "str_hash key = hashmapHash (bytes_of (snd key))"

definition str_icase_equals :: "key \<Rightarrow> key \<Rightarrow> bool" where
  "str_icase_equals keyA keyB = strcaseeq (snd keyA) (snd keyB)"

definition int_hash :: "u32 \<Rightarrow> u32" where
  "int_hash key = key"

definition int_equals :: "u32 \<Rightarrow> u32 \<Rightarrow> bool" where
  "int_equals keyA keyB = (keyA = keyB)"

section \<open>Nodes and references\<close>

definition root_ptr :: addr where "root_ptr = 1"

definition id_to_ptr :: "u64 \<Rightarrow> addr option" where
  "id_to_ptr nid = (if nid = 0 then None else Some (unat nid))"

definition ptr_to_id :: "addr \<Rightarrow> u64" where
  "ptr_to_id ptr = of_nat ptr"

definition get_node :: "fuse \<Rightarrow> addr \<Rightarrow> node outcome" where
  "get_node f a = (case map_of (node_heap f) a of None \<Rightarrow> Fault Use_After_Free | Some n \<Rightarrow> Ok n)"

definition set_node :: "addr \<Rightarrow> node \<Rightarrow> fuse \<Rightarrow> fuse" where
  "set_node a n f = f\<lparr>node_heap := AList.update a n (node_heap f)\<rparr>"

definition free_node :: "addr \<Rightarrow> fuse \<Rightarrow> fuse" where
  "free_node a f = f\<lparr>node_heap := AList.delete a (node_heap f)\<rparr>"

definition acquire_node_locked :: "addr \<Rightarrow> fuse \<Rightarrow> fuse outcome" where
  "acquire_node_locked node f =
     obind (get_node f node) (\<lambda>n. Ok (set_node node (n\<lparr>nd_refcount := nd_refcount n + 1\<rparr>) f))"

definition add_node_to_parent_locked :: "addr \<Rightarrow> addr \<Rightarrow> fuse \<Rightarrow> fuse outcome" where
  "add_node_to_parent_locked node parent f =
     obind (get_node f node) (\<lambda>n. obind (get_node f parent) (\<lambda>p.
       let f1 = set_node node (n\<lparr>nd_parent := Some parent, nd_next := nd_child p\<rparr>) f
       in obind (get_node f1 parent) (\<lambda>p1.
            acquire_node_locked parent (set_node parent (p1\<lparr>nd_child := Some node\<rparr>) f1))))"

text \<open>The loop of \<open>remove_node_from_parent_locked\<close> that looks for the sibling before \<open>node\<close>.\<close>

fun unlink_loop :: "nat \<Rightarrow> addr \<Rightarrow> addr \<Rightarrow> fuse \<Rightarrow> fuse outcome" where
  "unlink_loop 0 node2 node f = Fault Diverges"
| "unlink_loop (Suc k) node2 node f =
     obind (get_node f node2) (\<lambda>n2.
       if nd_next n2 = Some node
       then obind (get_node f node) (\<lambda>n. Ok (set_node node2 (n2\<lparr>nd_next := nd_next n\<rparr>) f))
       else (case nd_next n2 of None \<Rightarrow> Fault Null_Deref | Some b \<Rightarrow> unlink_loop k b node f))"

definition unlink_sibling :: "addr \<Rightarrow> addr \<Rightarrow> fuse \<Rightarrow> fuse outcome" where
  "unlink_sibling parent node f =
     obind (get_node f parent) (\<lambda>p.
       if nd_child p = Some node
       then obind (get_node f node) (\<lambda>n. Ok (set_node parent (p\<lparr>nd_child := nd_next n\<rparr>) f))
       else (case nd_child p of
               None \<Rightarrow> Fault Null_Deref
             | Some b \<Rightarrow> unlink_loop (length (node_heap f)) b node f))"

text \<open>Releasing the last reference removes a node from its parent, which releases the parent.\<close>

fun release_node_locked :: "nat \<Rightarrow> addr \<Rightarrow> fuse \<Rightarrow> fuse outcome"
  and remove_node_from_parent_locked :: "nat \<Rightarrow> addr \<Rightarrow> fuse \<Rightarrow> fuse outcome" where
  "release_node_locked 0 node f = Fault Diverges"
| "release_node_locked (Suc k) node f =
     obind (get_node f node) (\<lambda>n.
       if nd_refcount n > 0 then
         let rc = nd_refcount n - 1; f1 = set_node node (n\<lparr>nd_refcount := rc\<rparr>) f
         in if rc = 0
            then obind (remove_node_from_parent_locked k node f1) (\<lambda>f2. Ok (free_node node f2))
            else Ok f1
       else Ok f)"
| "remove_node_from_parent_locked 0 node f = Fault Diverges"
| "remove_node_from_parent_locked (Suc k) node f =
     obind (get_node f node) (\<lambda>n.
       case nd_parent n of
         None \<Rightarrow> Ok f
       | Some parent \<Rightarrow>
           obind (unlink_sibling parent node f) (\<lambda>f1.
           obind (release_node_locked k parent f1) (\<lambda>f2.
           obind (get_node f2 node) (\<lambda>n2.
             Ok (set_node node (n2\<lparr>nd_parent := None, nd_next := None\<rparr>) f2)))))"

definition node_fuel :: "fuse \<Rightarrow> nat" where
  "node_fuel f = 2 * length (node_heap f)"

definition release :: "addr \<Rightarrow> fuse \<Rightarrow> fuse outcome" where
  "release node f = release_node_locked (node_fuel f) node f"

section \<open>Paths\<close>

text \<open>
  \<open>cap\<close> is the size of the caller's buffer, which every level of the recursion writes to; \<open>bufsize\<close> is what the level
  is told. \<open>None\<close> is the result \<open>-1\<close>.
\<close>

definition node_label :: "node \<Rightarrow> string \<times> u32" where
  "node_label n =
     (case nd_graft_path n of
        Some g \<Rightarrow> (g, nd_graft_pathlen n)
      | None \<Rightarrow> (case nd_actual_name n of Some s \<Rightarrow> (s, nd_namelen n) | None \<Rightarrow> (nd_name n, nd_namelen n)))"

fun get_node_path_locked :: "nat \<Rightarrow> fuse \<Rightarrow> addr \<Rightarrow> nat \<Rightarrow> u32 \<Rightarrow> string option outcome" where
  "get_node_path_locked 0 f node cap bufsize = Fault Diverges"
| "get_node_path_locked (Suc k) f node cap bufsize =
     obind (get_node f node) (\<lambda>n.
       let (name, namelen) = node_label n
       in if bufsize < namelen + 1 then Ok None
          else
            obind (case (nd_parent n, nd_graft_path n) of
                     (Some p, None) \<Rightarrow>
                       obind (get_node_path_locked k f p cap (bufsize - namelen - 2)) (\<lambda>r.
                         case r of
                           None \<Rightarrow> Ok None
                         | Some buf \<Rightarrow> if length buf < cap then Ok (Some (buf @ ''/'')) else Fault Out_Of_Bounds)
                   | _ \<Rightarrow> Ok (Some []))
              (\<lambda>r. case r of
                     None \<Rightarrow> Ok None
                   | Some buf \<Rightarrow>
                       if length buf + unat namelen + 1 \<le> cap then Ok (Some (buf @ take (unat namelen) name))
                       else Fault Out_Of_Bounds))"

definition node_path :: "fuse \<Rightarrow> addr \<Rightarrow> string option outcome" where
  "node_path f node = get_node_path_locked (length (node_heap f)) f node PATH_MAX (of_nat PATH_MAX)"

text \<open>The name within the buffer and the whole path in the buffer.\<close>

definition find_file_within ::
  "os \<Rightarrow> string \<Rightarrow> string \<Rightarrow> nat \<Rightarrow> bool \<Rightarrow> fuse \<Rightarrow> (string \<times> string) option \<times> fuse" where
  "find_file_within os path name bufsize search f =
     (let childlen = length path + length name + 1
      in if bufsize \<le> childlen then (None, f)
         else
           let buf = path @ ''/'' @ name
           in if search then
                let f1 = issue (Access buf) f
                in if os_access os buf then (Some (name, buf), f1)
                   else (case os_readdir os path of
                           None \<Rightarrow> (Some (name, buf), issue (Opendir path) f1)
                         | Some entries \<Rightarrow>
                             let actual = (case find (\<lambda>d. strcaseeq d name) entries of
                                             None \<Rightarrow> name | Some d \<Rightarrow> take (length name) d)
                             in (Some (actual, path @ ''/'' @ actual), issue (Closedir path) (issue (Opendir path) f1)))
              else (Some (name, buf), f))"

definition attr_from_stat :: "stat \<Rightarrow> node \<Rightarrow> fuse_attr" where
  "attr_from_stat s n =
     (let owner_mode = st_mode s AND o700;
          filtered_mode = nd_mode n AND (owner_mode OR drop_bit 3 owner_mode OR drop_bit 6 owner_mode)
      in \<lparr>at_ino = nd_nid n, at_size = st_size s, at_blocks = st_blocks s, at_atime = st_atime s, at_mtime = st_mtime s,
          at_ctime = st_ctime s, at_atimensec = st_atime_nsec s, at_mtimensec = st_mtime_nsec s,
          at_ctimensec = st_ctime_nsec s, at_mode = (st_mode s AND S_IFMT) OR filtered_mode, at_nlink = st_nlink s,
          at_uid = nd_uid n, at_gid = nd_gid n\<rparr>)"

definition touch :: "os \<Rightarrow> string \<Rightarrow> u32 \<Rightarrow> fuse \<Rightarrow> int \<times> fuse" where
  "touch os path mode f =
     (let c = Open_new path mode; f1 = issue c f
      in case os_call os c of
           Inl e \<Rightarrow> (if e = EEXIST then 0 else - 1, f1)
         | Inr fd \<Rightarrow> (0, issue (Close fd) f1))"

section \<open>Permissions\<close>

text \<open>\<open>libcutils/multiuser.c\<close>.\<close>

abbreviation (input) MULTIUSER_APP_PER_USER_RANGE :: u32 where "MULTIUSER_APP_PER_USER_RANGE \<equiv> 100000"

definition multiuser_get_user_id :: "u32 \<Rightarrow> u32" where
  "multiuser_get_user_id uid = uid div MULTIUSER_APP_PER_USER_RANGE"

definition multiuser_get_app_id :: "u32 \<Rightarrow> u32" where
  "multiuser_get_app_id uid = uid mod MULTIUSER_APP_PER_USER_RANGE"

definition multiuser_get_uid :: "u32 \<Rightarrow> u32 \<Rightarrow> u32" where
  "multiuser_get_uid userId appId = userId * MULTIUSER_APP_PER_USER_RANGE + (appId mod MULTIUSER_APP_PER_USER_RANGE)"

text \<open>A table that was never created is a null pointer.\<close>

definition the_table :: "'a option \<Rightarrow> 'a outcome" where
  "the_table t = (case t of None \<Rightarrow> Fault Null_Deref | Some m \<Rightarrow> Ok m)"

definition lookup_appid :: "fuse \<Rightarrow> string \<Rightarrow> u32 outcome" where
  "lookup_appid f name =
     obind (the_table (package_to_appid f)) (\<lambda>m.
       obind (hashmapGet m (0, name)) (\<lambda>v. Ok (case v of None \<Rightarrow> 0 | Some appid \<Rightarrow> appid)))"

text \<open>The case of a directory below \<open>/Android/data\<close> or \<open>/Android/obb\<close>.\<close>

definition app_directory :: "fuse \<Rightarrow> node \<Rightarrow> node \<Rightarrow> node outcome" where
  "app_directory f parent node =
     obind (lookup_appid f (nd_name node)) (\<lambda>appid.
       Ok ((if appid \<noteq> 0 then node\<lparr>nd_uid := multiuser_get_uid (nd_userid parent) appid\<rparr> else node)\<lparr>nd_mode := o770\<rparr>))"

definition derive_permissions_locked :: "fuse \<Rightarrow> node \<Rightarrow> node \<Rightarrow> node outcome" where
  "derive_permissions_locked f parent node =
     (let node = node\<lparr>nd_perm := PERM_INHERIT, nd_userid := nd_userid parent, nd_uid := nd_uid parent,
                      nd_gid := nd_gid parent, nd_mode := nd_mode parent\<rparr>;
          name = nd_name node
      in if derive f = DERIVE_NONE then Ok node
         else
           (case nd_perm parent of
              PERM_INHERIT \<Rightarrow> Ok node
            | PERM_LEGACY_PRE_ROOT \<Rightarrow> Ok (node\<lparr>nd_perm := PERM_ROOT, nd_userid := strtoul name\<rparr>)
            | PERM_ROOT \<Rightarrow>
                let node = node\<lparr>nd_mode := o770\<rparr>
                in Ok (if strcaseeq name ''Android'' then node\<lparr>nd_perm := PERM_ANDROID, nd_mode := o771\<rparr>
                       else if split_perms f then
                         (if strcaseeq name ''DCIM'' \<or> strcaseeq name ''Pictures'' then node\<lparr>nd_gid := AID_SDCARD_PICS\<rparr>
                          else if strcaseeq name ''Alarms'' \<or> strcaseeq name ''Movies'' \<or> strcaseeq name ''Music''
                               \<or> strcaseeq name ''Notifications'' \<or> strcaseeq name ''Podcasts'' \<or> strcaseeq name ''Ringtones''
                          then node\<lparr>nd_gid := AID_SDCARD_AV\<rparr>
                          else node)
                       else node)
            | PERM_ANDROID \<Rightarrow>
                Ok (if strcaseeq name ''data'' then node\<lparr>nd_perm := PERM_ANDROID_DATA, nd_mode := o771\<rparr>
                    else if strcaseeq name ''obb'' then
                      node\<lparr>nd_perm := PERM_ANDROID_OBB, nd_mode := o771, nd_graft_path := Some (obbpath f),
                           nd_graft_pathlen := of_nat (length (obbpath f))\<rparr>
                    else if strcaseeq name ''user'' then
                      node\<lparr>nd_perm := PERM_ANDROID_USER, nd_gid := AID_SDCARD_ALL, nd_mode := o770\<rparr>
                    else node)
            | PERM_ANDROID_DATA \<Rightarrow> app_directory f parent node
            | PERM_ANDROID_OBB \<Rightarrow> app_directory f parent node
            | PERM_ANDROID_USER \<Rightarrow>
                Ok (node\<lparr>nd_perm := PERM_ROOT, nd_userid := strtoul name, nd_gid := AID_SDCARD_R, nd_mode := o771\<rparr>)))"

definition get_caller_has_rw_locked :: "fuse \<Rightarrow> fuse_in_header \<Rightarrow> bool outcome" where
  "get_caller_has_rw_locked f hdr =
     (if derive f = DERIVE_NONE then Ok True
      else obind (the_table (appid_with_rw f)) (\<lambda>m. hashmapContainsKey m (multiuser_get_app_id (hdr_uid hdr))))"

definition check_caller_access_to_name ::
  "fuse \<Rightarrow> fuse_in_header \<Rightarrow> node option \<Rightarrow> string \<Rightarrow> u32 \<Rightarrow> bool \<Rightarrow> bool" where
  "check_caller_access_to_name f hdr parent_node name mode has_rw =
     (if (case parent_node of None \<Rightarrow> False | Some p \<Rightarrow> nd_perm p = PERM_ROOT) \<and>
         (strcaseeq name ''autorun.inf'' \<or> strcaseeq name ''.android_secure'' \<or> strcaseeq name ''android_secure'')
      then False
      else if derive f = DERIVE_NONE then True
      else if hdr_uid hdr = 0 then True
      else if mode AND W_OK \<noteq> 0 then
        (case parent_node of None \<Rightarrow> has_rw | Some p \<Rightarrow> if hdr_uid hdr = nd_uid p then True else has_rw)
      else True)"

definition check_caller_access_to_node :: "fuse \<Rightarrow> fuse_in_header \<Rightarrow> node \<Rightarrow> u32 \<Rightarrow> bool \<Rightarrow> bool outcome" where
  "check_caller_access_to_node f hdr node mode has_rw =
     (case nd_parent node of
        None \<Rightarrow> Ok (check_caller_access_to_name f hdr None (nd_name node) mode has_rw)
      | Some p \<Rightarrow> obind (get_node f p) (\<lambda>pn. Ok (check_caller_access_to_name f hdr (Some pn) (nd_name node) mode has_rw)))"

section \<open>Creating, renaming and finding nodes\<close>

definition blank_node :: node where
  "blank_node = \<lparr>nd_refcount = 0, nd_nid = 0, nd_gen = 0, nd_perm = PERM_INHERIT, nd_userid = 0, nd_uid = 0, nd_gid = 0,
     nd_mode = 0, nd_next = None, nd_child = None, nd_parent = None, nd_namelen = 0, nd_name = [], nd_actual_name = None,
     nd_graft_path = None, nd_graft_pathlen = 0\<rparr>"

definition create_node_locked :: "os \<Rightarrow> addr \<Rightarrow> string \<Rightarrow> string \<Rightarrow> fuse \<Rightarrow> (addr option \<times> fuse) outcome" where
  "create_node_locked os parent name actual_name f =
     (case os_node os of
        None \<Rightarrow> Ok (None, f)
      | Some a \<Rightarrow>
          if \<not> os_name os then Ok (None, f)
          else if name \<noteq> actual_name \<and> \<not> os_actual os then Ok (None, f)
          else
            let n = blank_node\<lparr>nd_name := name,
                      nd_actual_name := (if name \<noteq> actual_name then Some (take (length name) actual_name) else None),
                      nd_namelen := of_nat (length name), nd_nid := ptr_to_id a, nd_gen := next_generation f\<rparr>;
                f1 = f\<lparr>next_generation := next_generation f + 1\<rparr>
            in obind (get_node f1 parent) (\<lambda>p.
               obind (derive_permissions_locked f1 p n) (\<lambda>n1.
               obind (acquire_node_locked a (set_node a n1 f1)) (\<lambda>f2.
               obind (add_node_to_parent_locked a parent f2) (\<lambda>f3. Ok (Some a, f3))))))"

text \<open>A failed allocation leaves the names as they are, in storage that may have grown.\<close>

definition rename_node_locked :: "os \<Rightarrow> addr \<Rightarrow> string \<Rightarrow> string \<Rightarrow> fuse \<Rightarrow> (int \<times> fuse) outcome" where
  "rename_node_locked os node name actual_name f =
     obind (get_node f node) (\<lambda>n.
       let namelen = of_nat (length name); need_actual_name = (name \<noteq> actual_name)
       in if namelen > nd_namelen n \<and> \<not> os_name os then Ok (- ENOMEM, f)
          else if namelen > nd_namelen n \<and> need_actual_name \<and> nd_actual_name n \<noteq> None \<and> \<not> os_realloc_actual os
          then Ok (- ENOMEM, f)
          else if need_actual_name \<and> nd_actual_name n = None \<and> \<not> os_actual os then Ok (- ENOMEM, f)
          else Ok (0, set_node node (n\<lparr>nd_actual_name := (if need_actual_name then Some (take (length name) actual_name) else None),
                     nd_name := name, nd_namelen := namelen\<rparr>) f))"

definition lookup_node_by_id_locked :: "u64 \<Rightarrow> addr option" where
  "lookup_node_by_id_locked nid = (if nid = FUSE_ROOT_ID then Some root_ptr else id_to_ptr nid)"

text \<open>The node and its path, \<open>None\<close> for a null node.\<close>

definition lookup_node_and_path_by_id_locked :: "fuse \<Rightarrow> u64 \<Rightarrow> (addr \<times> string) option outcome" where
  "lookup_node_and_path_by_id_locked f nid =
     (case lookup_node_by_id_locked nid of
        None \<Rightarrow> Ok None
      | Some node \<Rightarrow> obind (node_path f node) (\<lambda>r. Ok (case r of None \<Rightarrow> None | Some path \<Rightarrow> Some (node, path))))"

fun child_loop :: "nat \<Rightarrow> fuse \<Rightarrow> addr option \<Rightarrow> string \<Rightarrow> addr option outcome" where
  "child_loop k f None name = Ok None"
| "child_loop 0 f (Some node) name = Fault Diverges"
| "child_loop (Suc k) f (Some node) name =
     obind (get_node f node) (\<lambda>n. if name = nd_name n then Ok (Some node) else child_loop k f (nd_next n) name)"

definition lookup_child_by_name_locked :: "fuse \<Rightarrow> addr \<Rightarrow> string \<Rightarrow> addr option outcome" where
  "lookup_child_by_name_locked f node name =
     obind (get_node f node) (\<lambda>n. child_loop (length (node_heap f)) f (nd_child n) name)"

definition acquire_or_create_child_locked ::
  "os \<Rightarrow> addr \<Rightarrow> string \<Rightarrow> string \<Rightarrow> fuse \<Rightarrow> (addr option \<times> fuse) outcome" where
  "acquire_or_create_child_locked os parent name actual_name f =
     obind (lookup_child_by_name_locked f parent name) (\<lambda>c.
       case c of
         Some child \<Rightarrow> obind (acquire_node_locked child f) (\<lambda>f1. Ok (Some child, f1))
       | None \<Rightarrow> create_node_locked os parent name actual_name f)"

section \<open>Start-up\<close>

text \<open>\<open>fs_prepare_dir\<close> of \<open>libcutils/fs.c\<close>; a call that a signal interrupts is made again, so \<open>EINTR\<close> is not an answer.\<close>

definition fixup_dir :: "os \<Rightarrow> string \<Rightarrow> u32 \<Rightarrow> u32 \<Rightarrow> u32 \<Rightarrow> fuse \<Rightarrow> int \<times> fuse" where
  "fixup_dir os path mode uid gid f =
     (let f1 = issue (Chmod path mode) f
      in case os_call os (Chmod path mode) of
           Inl e \<Rightarrow> (- 1, f1)
         | Inr _ \<Rightarrow>
             (let f2 = issue (Chown path uid gid) f1
              in case os_call os (Chown path uid gid) of Inl e \<Rightarrow> (- 1, f2) | Inr _ \<Rightarrow> (0, f2)))"

definition fs_prepare_dir :: "os \<Rightarrow> string \<Rightarrow> u32 \<Rightarrow> u32 \<Rightarrow> u32 \<Rightarrow> fuse \<Rightarrow> int \<times> fuse" where
  "fs_prepare_dir os path mode uid gid f =
     (let f1 = issue (Lstat path) f
      in case os_lstat os path of
           Inl e \<Rightarrow>
             if e = ENOENT then
               (let f2 = issue (Mkdir path mode) f1
                in case os_call os (Mkdir path mode) of
                     Inl e \<Rightarrow> if e \<noteq> EEXIST then (- 1, f2) else fixup_dir os path mode uid gid f2
                   | Inr _ \<Rightarrow> fixup_dir os path mode uid gid f2)
             else (- 1, f1)
         | Inr sb \<Rightarrow>
             if st_mode sb AND S_IFMT \<noteq> S_IFDIR then (- 1, f1)
             else if st_mode sb AND 4095 = mode \<and> st_uid sb = uid \<and> st_gid sb = gid then (0, f1)
             else fixup_dir os path mode uid gid f1)"

definition root_node :: "string \<Rightarrow> derive_t \<Rightarrow> node" where
  "root_node source_path d =
     blank_node\<lparr>nd_nid := FUSE_ROOT_ID, nd_refcount := 2, nd_namelen := of_nat (length source_path), nd_name := source_path,
       nd_userid := 0, nd_uid := AID_ROOT,
       nd_perm := (case d of DERIVE_NONE \<Rightarrow> PERM_ROOT | DERIVE_LEGACY \<Rightarrow> PERM_LEGACY_PRE_ROOT | DERIVE_UNIFIED \<Rightarrow> PERM_ROOT),
       nd_mode := (case d of DERIVE_NONE \<Rightarrow> o775 | DERIVE_LEGACY \<Rightarrow> o771 | DERIVE_UNIFIED \<Rightarrow> o771),
       nd_gid := (case d of DERIVE_NONE \<Rightarrow> AID_SDCARD_RW | DERIVE_LEGACY \<Rightarrow> AID_SDCARD_R | DERIVE_UNIFIED \<Rightarrow> AID_SDCARD_R)\<rparr>"

text \<open>
  \<open>uid\<close> and \<open>gid\<close> are what \<open>getuid\<close> and \<open>getgid\<close> return; the copy of \<open>source_path\<close> and the two tables are
  allocated.
\<close>

definition fuse_init :: "os \<Rightarrow> u32 \<Rightarrow> u32 \<Rightarrow> string \<Rightarrow> u32 \<Rightarrow> derive_t \<Rightarrow> bool \<Rightarrow> fuse outcome" where
  "fuse_init os uid gid source_path w d split =
     (let f = \<lparr>node_heap = [(root_ptr, root_node source_path d)], next_generation = 0, derive = d, split_perms = split,
               write_gid = w, obbpath = [], package_to_appid = None, appid_with_rw = None, key_heap = [], key_next = 1,
               handle_heap = [], dir_heap = [], sys_calls = [], replies = []\<rparr>
      in case d of
           DERIVE_NONE \<Rightarrow> Ok f
         | _ \<Rightarrow>
             obind (hashmapCreate True True 256 (Some str_hash) (Some str_icase_equals)) (\<lambda>packages.
             obind (hashmapCreate True True 128 (Some int_hash) (Some int_equals)) (\<lambda>appids.
               let f1 = f\<lparr>package_to_appid := packages, appid_with_rw := appids,
                          obbpath := take (PATH_MAX - 1)
                            (source_path @ (if d = DERIVE_LEGACY then ''/obb'' else ''/Android/obb''))\<rparr>
               in Ok (if d = DERIVE_LEGACY then snd (fs_prepare_dir os (obbpath f1) o775 uid gid f1) else f1))))"

end
