(* ===== verification/Sdcard_Handlers.thy ===== *)
theory Sdcard_Handlers
  imports Sdcard
begin

text \<open>
  \<open>sdcard/sdcard.c\<close>, second part: the request handlers, the package list and the start of the program.

  A handler returns the status and the state; \<open>NO_STATUS\<close> says that the reply was written. A request is decoded into the
  constructor for its opcode. \<open>handle_rename\<close> and \<open>fuse_reply_entry\<close> take the lock more than once or late; the parts
  under the lock are definitions of their own, so that requests of several threads can be interleaved.
\<close>

abbreviation (input) NO_STATUS :: int where "NO_STATUS \<equiv> 1"
abbreviation (input) ENOSYS :: int where "ENOSYS \<equiv> 38"
abbreviation (input) EINTR :: int where "EINTR \<equiv> 4"
abbreviation (input) MAX_READ :: u32 where "MAX_READ \<equiv> 131072"
abbreviation (input) MAX_WRITE :: u32 where "MAX_WRITE \<equiv> 262144"
abbreviation (input) FATTR_SIZE :: u32 where "FATTR_SIZE \<equiv> 8"
abbreviation (input) FATTR_ATIME :: u32 where "FATTR_ATIME \<equiv> 16"
abbreviation (input) FATTR_MTIME :: u32 where "FATTR_MTIME \<equiv> 32"
abbreviation (input) FATTR_ATIME_NOW :: u32 where "FATTR_ATIME_NOW \<equiv> 128"
abbreviation (input) FATTR_MTIME_NOW :: u32 where "FATTR_MTIME_NOW \<equiv> 256"
abbreviation (input) O_ACCMODE :: u32 where "O_ACCMODE \<equiv> 3"
abbreviation (input) O_RDONLY :: u32 where "O_RDONLY \<equiv> 0"
abbreviation (input) O_WRONLY :: u32 where "O_WRONLY \<equiv> 1"
abbreviation (input) O_TRUNC :: u32 where "O_TRUNC \<equiv> 512"
abbreviation (input) FUSE_UNKNOWN_INO :: u64 where "FUSE_UNKNOWN_INO \<equiv> 4294967295"

section \<open>Replies\<close>

definition fuse_status :: "u64 \<Rightarrow> int \<Rightarrow> fuse \<Rightarrow> fuse" where
  "fuse_status unique err f =
     f\<lparr>replies := replies f @ [\<lparr>out_len = 16, out_error = err, out_unique = unique, out_data = No_data\<rparr>]\<rparr>"

text \<open>A reply that cannot be written is dropped.\<close>

definition fuse_reply :: "os \<Rightarrow> u64 \<Rightarrow> payload \<Rightarrow> u32 \<Rightarrow> fuse \<Rightarrow> fuse" where
  "fuse_reply os unique data len f =
     (if os_writev os
      then f\<lparr>replies := replies f @ [\<lparr>out_len = len + 16, out_error = 0, out_unique = unique, out_data = data\<rparr>]\<rparr>
      else f)"

text \<open>The part of \<open>fuse_reply_entry\<close> under the lock: the node and what the reply says of it.\<close>

definition reply_entry_locked ::
  "os \<Rightarrow> addr \<Rightarrow> string \<Rightarrow> string \<Rightarrow> stat \<Rightarrow> fuse \<Rightarrow> ((addr \<times> payload) option \<times> fuse) outcome" where
  "reply_entry_locked os parent name actual_name s f =
     obind (acquire_or_create_child_locked os parent name actual_name f) (\<lambda>(c, f1).
       case c of
         None \<Rightarrow> Ok (None, f1)
       | Some node \<Rightarrow>
           obind (get_node f1 node) (\<lambda>n. Ok (Some (node, Entry_out (nd_nid n) (nd_gen n) 10 10 (attr_from_stat s n)), f1)))"

definition fuse_reply_entry ::
  "os \<Rightarrow> u64 \<Rightarrow> addr \<Rightarrow> string \<Rightarrow> string \<Rightarrow> string \<Rightarrow> fuse \<Rightarrow> (int \<times> fuse) outcome" where
  "fuse_reply_entry os unique parent name actual_name path f =
     (let f1 = issue (Lstat path) f
      in case os_lstat os path of
           Inl e \<Rightarrow> Ok (- e, f1)
         | Inr s \<Rightarrow>
             obind (reply_entry_locked os parent name actual_name s f1) (\<lambda>(r, f2).
               case r of
                 None \<Rightarrow> Ok (- ENOMEM, f2)
               | Some (node, out) \<Rightarrow> Ok (NO_STATUS, fuse_reply os unique out 128 f2)))"

definition fuse_reply_attr :: "os \<Rightarrow> u64 \<Rightarrow> addr \<Rightarrow> string \<Rightarrow> fuse \<Rightarrow> (int \<times> fuse) outcome" where
  "fuse_reply_attr os unique node path f =
     (let f1 = issue (Lstat path) f
      in case os_lstat os path of
           Inl e \<Rightarrow> Ok (- e, f1)
         | Inr s \<Rightarrow>
             obind (get_node f1 node) (\<lambda>n.
               Ok (NO_STATUS, fuse_reply os unique (Attr_out 10 (attr_from_stat s n)) 104 f1)))"

section \<open>Names\<close>

definition handle_lookup :: "os \<Rightarrow> fuse_in_header \<Rightarrow> string \<Rightarrow> fuse \<Rightarrow> (int \<times> fuse) outcome" where
  "handle_lookup os hdr name f =
     obind (lookup_node_and_path_by_id_locked f (hdr_nodeid hdr)) (\<lambda>p.
       case p of
         None \<Rightarrow> Ok (- ENOENT, f)
       | Some (parent_node, parent_path) \<Rightarrow>
           (case find_file_within os parent_path name PATH_MAX True f of
              (None, f1) \<Rightarrow> Ok (- ENOENT, f1)
            | (Some (actual_name, child_path), f1) \<Rightarrow>
                obind (get_node f1 parent_node) (\<lambda>pn.
                  if \<not> check_caller_access_to_name f1 hdr (Some pn) name R_OK False then Ok (- EACCES, f1)
                  else fuse_reply_entry os (hdr_unique hdr) parent_node name actual_name child_path f1)))"

fun forget_loop :: "nat \<Rightarrow> addr \<Rightarrow> fuse \<Rightarrow> fuse outcome" where
  "forget_loop 0 node f = Ok f"
| "forget_loop (Suc n) node f = obind (release node f) (forget_loop n node)"

definition handle_forget :: "fuse_in_header \<Rightarrow> u64 \<Rightarrow> fuse \<Rightarrow> (int \<times> fuse) outcome" where
  "handle_forget hdr nlookup f =
     (case lookup_node_by_id_locked (hdr_nodeid hdr) of
        None \<Rightarrow> Ok (NO_STATUS, f)
      | Some node \<Rightarrow> obind (forget_loop (unat nlookup) node f) (\<lambda>f1. Ok (NO_STATUS, f1)))"

definition handle_getattr :: "os \<Rightarrow> fuse_in_header \<Rightarrow> fuse \<Rightarrow> (int \<times> fuse) outcome" where
  "handle_getattr os hdr f =
     obind (lookup_node_and_path_by_id_locked f (hdr_nodeid hdr)) (\<lambda>p.
       case p of
         None \<Rightarrow> Ok (- ENOENT, f)
       | Some (node, path) \<Rightarrow>
           obind (get_node f node) (\<lambda>n.
           obind (check_caller_access_to_node f hdr n R_OK False) (\<lambda>ok.
             if \<not> ok then Ok (- EACCES, f) else fuse_reply_attr os (hdr_unique hdr) node path f)))"

record fuse_setattr_in =
  sa_valid :: u32
  sa_size :: u64
  sa_atime :: u64
  sa_mtime :: u64
  sa_atimensec :: u32
  sa_mtimensec :: u32

definition setattr_time :: "u32 \<Rightarrow> u32 \<Rightarrow> u32 \<Rightarrow> u64 \<Rightarrow> u32 \<Rightarrow> timespec" where
  "setattr_time valid field now sec nsec =
     (if valid AND field \<noteq> 0 then (if valid AND now \<noteq> 0 then UTIME_NOW else Time sec nsec) else UTIME_OMIT)"

definition handle_setattr :: "os \<Rightarrow> fuse_in_header \<Rightarrow> fuse_setattr_in \<Rightarrow> fuse \<Rightarrow> (int \<times> fuse) outcome" where
  "handle_setattr os hdr req f =
     obind (get_caller_has_rw_locked f hdr) (\<lambda>has_rw.
     obind (lookup_node_and_path_by_id_locked f (hdr_nodeid hdr)) (\<lambda>p.
       case p of
         None \<Rightarrow> Ok (- ENOENT, f)
       | Some (node, path) \<Rightarrow>
           obind (get_node f node) (\<lambda>n.
           obind (check_caller_access_to_node f hdr n W_OK has_rw) (\<lambda>ok.
             if \<not> ok then Ok (- EACCES, f)
             else
               let trunc = Truncate path (sa_size req);
                   f1 = (if sa_valid req AND FATTR_SIZE \<noteq> 0 then issue trunc f else f)
               in case (if sa_valid req AND FATTR_SIZE \<noteq> 0 then os_call os trunc else Inr 0) of
                    Inl e \<Rightarrow> Ok (- e, f1)
                  | Inr _ \<Rightarrow>
                      if sa_valid req AND (FATTR_ATIME OR FATTR_MTIME) \<noteq> 0 then
                        (let times = Utimensat path
                               (setattr_time (sa_valid req) FATTR_ATIME FATTR_ATIME_NOW (sa_atime req) (sa_atimensec req))
                               (setattr_time (sa_valid req) FATTR_MTIME FATTR_MTIME_NOW (sa_mtime req) (sa_mtimensec req));
                             f2 = issue times f1
                         in case os_call os times of
                              Inl e \<Rightarrow> Ok (- e, f2)
                            | Inr _ \<Rightarrow> fuse_reply_attr os (hdr_unique hdr) node path f2)
                      else fuse_reply_attr os (hdr_unique hdr) node path f1))))"

text \<open>
  The opening of \<open>handle_mknod\<close>, \<open>handle_mkdir\<close>, \<open>handle_unlink\<close> and \<open>handle_rmdir\<close>, which is the same in
  all four: the parent, its path, the file in it and the check of the caller. \<open>Inl\<close> is the status to return.
\<close>

definition enter_child ::
  "os \<Rightarrow> fuse_in_header \<Rightarrow> string \<Rightarrow> fuse \<Rightarrow> ((int + addr \<times> node \<times> string \<times> string) \<times> fuse) outcome" where
  "enter_child os hdr name f =
     obind (get_caller_has_rw_locked f hdr) (\<lambda>has_rw.
     obind (lookup_node_and_path_by_id_locked f (hdr_nodeid hdr)) (\<lambda>p.
       case p of
         None \<Rightarrow> Ok (Inl (- ENOENT), f)
       | Some (parent_node, parent_path) \<Rightarrow>
           (case find_file_within os parent_path name PATH_MAX True f of
              (None, f1) \<Rightarrow> Ok (Inl (- ENOENT), f1)
            | (Some (actual_name, child_path), f1) \<Rightarrow>
                obind (get_node f1 parent_node) (\<lambda>pn.
                  if \<not> check_caller_access_to_name f1 hdr (Some pn) name W_OK has_rw then Ok (Inl (- EACCES), f1)
                  else Ok (Inr (parent_node, pn, actual_name, child_path), f1)))))"

definition handle_mknod :: "os \<Rightarrow> fuse_in_header \<Rightarrow> u32 \<Rightarrow> u32 \<Rightarrow> string \<Rightarrow> fuse \<Rightarrow> (int \<times> fuse) outcome" where
  "handle_mknod os hdr req_mode rdev name f =
     obind (enter_child os hdr name f) (\<lambda>(r, f1).
       case r of
         Inl e \<Rightarrow> Ok (e, f1)
       | Inr (parent_node, pn, actual_name, child_path) \<Rightarrow>
           (let c = Mknod child_path ((req_mode AND NOT o777) OR o664) rdev; f2 = issue c f1
            in case os_call os c of
                 Inl e \<Rightarrow> Ok (- e, f2)
               | Inr _ \<Rightarrow> fuse_reply_entry os (hdr_unique hdr) parent_node name actual_name child_path f2))"

definition nomedia :: "os \<Rightarrow> bool \<Rightarrow> string \<Rightarrow> fuse \<Rightarrow> bool \<times> fuse" where
  "nomedia os needed dir f =
     (if needed then (case touch os (take (PATH_MAX - 1) (dir @ ''/.nomedia'')) o664 f of (r, f1) \<Rightarrow> (r = 0, f1)) else (True, f))"

definition handle_mkdir :: "os \<Rightarrow> fuse_in_header \<Rightarrow> u32 \<Rightarrow> string \<Rightarrow> fuse \<Rightarrow> (int \<times> fuse) outcome" where
  "handle_mkdir os hdr req_mode name f =
     obind (enter_child os hdr name f) (\<lambda>(r, f1).
       case r of
         Inl e \<Rightarrow> Ok (e, f1)
       | Inr (parent_node, pn, actual_name, child_path) \<Rightarrow>
           (let c = Mkdir child_path ((req_mode AND NOT o777) OR o775); f2 = issue c f1
            in case os_call os c of
                 Inl e \<Rightarrow> Ok (- e, f2)
               | Inr _ \<Rightarrow>
                   (case nomedia os (nd_perm pn = PERM_ANDROID \<and> strcaseeq name ''data'') child_path f2 of
                      (False, f3) \<Rightarrow> Ok (- ENOENT, f3)
                    | (True, f3) \<Rightarrow>
                        (case nomedia os (nd_perm pn = PERM_ANDROID \<and> strcaseeq name ''obb'') (obbpath f3) f3 of
                           (False, f4) \<Rightarrow> Ok (- ENOENT, f4)
                         | (True, f4) \<Rightarrow>
                             fuse_reply_entry os (hdr_unique hdr) parent_node name actual_name child_path f4))))"

definition handle_unlink :: "os \<Rightarrow> fuse_in_header \<Rightarrow> string \<Rightarrow> fuse \<Rightarrow> (int \<times> fuse) outcome" where
  "handle_unlink os hdr name f =
     obind (enter_child os hdr name f) (\<lambda>(r, f1).
       case r of
         Inl e \<Rightarrow> Ok (e, f1)
       | Inr (parent_node, pn, actual_name, child_path) \<Rightarrow>
           (case os_call os (Unlink child_path) of
              Inl e \<Rightarrow> Ok (- e, issue (Unlink child_path) f1)
            | Inr _ \<Rightarrow> Ok (0, issue (Unlink child_path) f1)))"

definition handle_rmdir :: "os \<Rightarrow> fuse_in_header \<Rightarrow> string \<Rightarrow> fuse \<Rightarrow> (int \<times> fuse) outcome" where
  "handle_rmdir os hdr name f =
     obind (enter_child os hdr name f) (\<lambda>(r, f1).
       case r of
         Inl e \<Rightarrow> Ok (e, f1)
       | Inr (parent_node, pn, actual_name, child_path) \<Rightarrow>
           (case os_call os (Rmdir child_path) of
              Inl e \<Rightarrow> Ok (- e, issue (Rmdir child_path) f1)
            | Inr _ \<Rightarrow> Ok (0, issue (Rmdir child_path) f1)))"

section \<open>Renaming\<close>

text \<open>What \<open>handle_rename\<close> keeps from its first locked part.\<close>

record rename_ctx =
  rn_child :: addr
  rn_old_parent :: addr
  rn_new_parent :: addr
  rn_old_path :: string
  rn_new_parent_path :: string

definition rename_child ::
  "addr \<Rightarrow> addr \<Rightarrow> string \<Rightarrow> string \<Rightarrow> fuse \<Rightarrow> ((int + rename_ctx) \<times> fuse) outcome" where
  "rename_child old_parent_node new_parent_node new_parent_path old_name f =
     obind (lookup_child_by_name_locked f old_parent_node old_name) (\<lambda>c.
       case c of
         None \<Rightarrow> Ok (Inl (- ENOENT), f)
       | Some child_node \<Rightarrow>
           obind (node_path f child_node) (\<lambda>r.
             case r of
               None \<Rightarrow> Ok (Inl (- ENOENT), f)
             | Some old_child_path \<Rightarrow>
                 obind (acquire_node_locked child_node f) (\<lambda>f1.
                   Ok (Inr \<lparr>rn_child = child_node, rn_old_parent = old_parent_node, rn_new_parent = new_parent_node,
                            rn_old_path = old_child_path, rn_new_parent_path = new_parent_path\<rparr>, f1))))"

definition rename_lookup ::
  "fuse_in_header \<Rightarrow> u64 \<Rightarrow> string \<Rightarrow> string \<Rightarrow> fuse \<Rightarrow> ((int + rename_ctx) \<times> fuse) outcome" where
  "rename_lookup hdr newdir old_name new_name f =
     obind (get_caller_has_rw_locked f hdr) (\<lambda>has_rw.
     obind (lookup_node_and_path_by_id_locked f (hdr_nodeid hdr)) (\<lambda>old.
     obind (lookup_node_and_path_by_id_locked f newdir) (\<lambda>new.
       case (old, new) of
         (Some (old_parent_node, old_parent_path), Some (new_parent_node, new_parent_path)) \<Rightarrow>
           obind (get_node f old_parent_node) (\<lambda>opn.
           obind (get_node f new_parent_node) (\<lambda>npn.
             if \<not> check_caller_access_to_name f hdr (Some opn) old_name W_OK has_rw then Ok (Inl (- EACCES), f)
             else if \<not> check_caller_access_to_name f hdr (Some npn) new_name W_OK has_rw then Ok (Inl (- EACCES), f)
             else
               rename_child old_parent_node new_parent_node new_parent_path old_name f))
       | _ \<Rightarrow> Ok (Inl (- ENOENT), f))))"

text \<open>Between the locked parts: the new name in the underlying directory, and \<open>rename\<close>.\<close>

definition rename_io :: "os \<Rightarrow> rename_ctx \<Rightarrow> string \<Rightarrow> string \<Rightarrow> fuse \<Rightarrow> (int + string) \<times> fuse" where
  "rename_io os ctx old_name new_name f =
     (let search = (rn_old_parent ctx \<noteq> rn_new_parent ctx \<or> \<not> strcaseeq old_name new_name)
      in case find_file_within os (rn_new_parent_path ctx) new_name PATH_MAX search f of
           (None, f1) \<Rightarrow> (Inl (- ENOENT), f1)
         | (Some (new_actual_name, new_child_path), f1) \<Rightarrow>
             (let c = Rename (rn_old_path ctx) new_child_path; f2 = issue c f1
              in case os_call os c of Inl e \<Rightarrow> (Inl (- e), f2) | Inr _ \<Rightarrow> (Inr new_actual_name, f2)))"

definition rename_finish :: "os \<Rightarrow> rename_ctx \<Rightarrow> string \<Rightarrow> int + string \<Rightarrow> fuse \<Rightarrow> (int \<times> fuse) outcome" where
  "rename_finish os ctx new_name r f =
     obind (case r of
              Inl res \<Rightarrow> Ok (res, f)
            | Inr new_actual_name \<Rightarrow>
                obind (rename_node_locked os (rn_child ctx) new_name new_actual_name f) (\<lambda>(res, f1).
                  if res = 0 then
                    obind (remove_node_from_parent_locked (node_fuel f1) (rn_child ctx) f1) (\<lambda>f2.
                    obind (add_node_to_parent_locked (rn_child ctx) (rn_new_parent ctx) f2) (\<lambda>f3. Ok (res, f3)))
                  else Ok (res, f1)))
       (\<lambda>(res, f4). obind (release (rn_child ctx) f4) (\<lambda>f5. Ok (res, f5)))"

definition handle_rename :: "os \<Rightarrow> fuse_in_header \<Rightarrow> u64 \<Rightarrow> string \<Rightarrow> string \<Rightarrow> fuse \<Rightarrow> (int \<times> fuse) outcome" where
  "handle_rename os hdr newdir old_name new_name f =
     obind (rename_lookup hdr newdir old_name new_name f) (\<lambda>(r, f1).
       case r of
         Inl res \<Rightarrow> Ok (res, f1)
       | Inr ctx \<Rightarrow> (case rename_io os ctx old_name new_name f1 of (r, f2) \<Rightarrow> rename_finish os ctx new_name r f2))"

section \<open>Files\<close>

definition open_flags_to_access_mode :: "u32 \<Rightarrow> u32" where
  "open_flags_to_access_mode open_flags =
     (if open_flags AND O_ACCMODE = O_RDONLY then R_OK
      else if open_flags AND O_ACCMODE = O_WRONLY then W_OK
      else R_OK OR W_OK)"

definition handle_open :: "os \<Rightarrow> fuse_in_header \<Rightarrow> u32 \<Rightarrow> fuse \<Rightarrow> (int \<times> fuse) outcome" where
  "handle_open os hdr flags f =
     obind (get_caller_has_rw_locked f hdr) (\<lambda>has_rw.
     obind (lookup_node_and_path_by_id_locked f (hdr_nodeid hdr)) (\<lambda>p.
       case p of
         None \<Rightarrow> Ok (- ENOENT, f)
       | Some (node, path) \<Rightarrow>
           obind (get_node f node) (\<lambda>n.
           obind (check_caller_access_to_node f hdr n (open_flags_to_access_mode flags) has_rw) (\<lambda>ok.
             if \<not> ok then Ok (- EACCES, f)
             else
               (case os_handle os of
                  None \<Rightarrow> Ok (- ENOMEM, f)
                | Some h \<Rightarrow>
                    (let f1 = issue (Open path flags) f
                     in case os_call os (Open path flags) of
                          Inl e \<Rightarrow> Ok (- e, f1)
                        | Inr fd \<Rightarrow>
                            Ok (NO_STATUS, fuse_reply os (hdr_unique hdr) (Open_out (ptr_to_id h) 0) 16
                                  (f1\<lparr>handle_heap := (h, fd) # handle_heap f1\<rparr>))))))))"

definition get_handle :: "fuse \<Rightarrow> u64 \<Rightarrow> int outcome" where
  "get_handle f fh =
     (case id_to_ptr fh of
        None \<Rightarrow> Fault Null_Deref
      | Some h \<Rightarrow> (case map_of (handle_heap f) h of None \<Rightarrow> Fault Use_After_Free | Some fd \<Rightarrow> Ok fd))"

definition get_dirhandle :: "fuse \<Rightarrow> u64 \<Rightarrow> int outcome" where
  "get_dirhandle f fh =
     (case id_to_ptr fh of
        None \<Rightarrow> Fault Null_Deref
      | Some h \<Rightarrow> (case map_of (dir_heap f) h of None \<Rightarrow> Fault Use_After_Free | Some d \<Rightarrow> Ok d))"

definition handle_read :: "os \<Rightarrow> fuse_in_header \<Rightarrow> u64 \<Rightarrow> u64 \<Rightarrow> u32 \<Rightarrow> fuse \<Rightarrow> (int \<times> fuse) outcome" where
  "handle_read os hdr fh offset req_size f =
     (if req_size > MAX_READ then Ok (- EINVAL, f)
      else obind (get_handle f fh) (\<lambda>fd.
        let c = Pread fd req_size offset; f1 = issue c f
        in case os_pread os c of
             Inl e \<Rightarrow> Ok (- e, f1)
           | Inr buf \<Rightarrow> Ok (NO_STATUS, fuse_reply os (hdr_unique hdr) (Bytes_out buf) (of_nat (length buf)) f1)))"

definition handle_write :: "os \<Rightarrow> fuse_in_header \<Rightarrow> u64 \<Rightarrow> u64 \<Rightarrow> bytes \<Rightarrow> fuse \<Rightarrow> (int \<times> fuse) outcome" where
  "handle_write os hdr fh offset buffer f =
     obind (get_handle f fh) (\<lambda>fd.
       let c = Pwrite fd buffer offset; f1 = issue c f
       in case os_call os c of
            Inl e \<Rightarrow> Ok (- e, f1)
          | Inr res \<Rightarrow> Ok (NO_STATUS, fuse_reply os (hdr_unique hdr) (Write_out (of_int res)) 8 f1))"

definition handle_statfs :: "os \<Rightarrow> fuse_in_header \<Rightarrow> fuse \<Rightarrow> (int \<times> fuse) outcome" where
  "handle_statfs os hdr f =
     obind (node_path f root_ptr) (\<lambda>r.
       case r of
         None \<Rightarrow> Ok (- ENOENT, f)
       | Some path \<Rightarrow>
           obind (get_node f root_ptr) (\<lambda>root.
             let f1 = issue (Statfs (nd_name root)) f
             in case os_statfs os (nd_name root) of
                  Inl e \<Rightarrow> Ok (- e, f1)
                | Inr s \<Rightarrow> Ok (NO_STATUS, fuse_reply os (hdr_unique hdr) (Statfs_out s) 80 f1)))"

definition handle_release :: "u64 \<Rightarrow> fuse \<Rightarrow> (int \<times> fuse) outcome" where
  "handle_release fh f =
     obind (get_handle f fh) (\<lambda>fd. Ok (0, (issue (Close fd) f)\<lparr>handle_heap := AList.delete (unat fh) (handle_heap f)\<rparr>))"

definition handle_fsync :: "os \<Rightarrow> u64 \<Rightarrow> u32 \<Rightarrow> fuse \<Rightarrow> (int \<times> fuse) outcome" where
  "handle_fsync os fh fsync_flags f =
     obind (get_handle f fh) (\<lambda>fd.
       let c = Fsync fd (fsync_flags AND 1 \<noteq> 0); f1 = issue c f
       in case os_call os c of Inl e \<Rightarrow> Ok (- e, f1) | Inr _ \<Rightarrow> Ok (0, f1))"

definition handle_flush :: "fuse \<Rightarrow> (int \<times> fuse) outcome" where
  "handle_flush f = Ok (0, f)"

section \<open>Directories\<close>

definition handle_opendir :: "os \<Rightarrow> fuse_in_header \<Rightarrow> fuse \<Rightarrow> (int \<times> fuse) outcome" where
  "handle_opendir os hdr f =
     obind (lookup_node_and_path_by_id_locked f (hdr_nodeid hdr)) (\<lambda>p.
       case p of
         None \<Rightarrow> Ok (- ENOENT, f)
       | Some (node, path) \<Rightarrow>
           obind (get_node f node) (\<lambda>n.
           obind (check_caller_access_to_node f hdr n R_OK False) (\<lambda>ok.
             if \<not> ok then Ok (- EACCES, f)
             else
               (case os_handle os of
                  None \<Rightarrow> Ok (- ENOMEM, f)
                | Some h \<Rightarrow>
                    (let f1 = issue (Opendir path) f
                     in case os_call os (Opendir path) of
                          Inl e \<Rightarrow> Ok (- e, f1)
                        | Inr d \<Rightarrow>
                            Ok (NO_STATUS, fuse_reply os (hdr_unique hdr) (Open_out (ptr_to_id h) 0) 16
                                  (f1\<lparr>dir_heap := (h, d) # dir_heap f1\<rparr>)))))))"

definition FUSE_DIRENT_ALIGN :: "u32 \<Rightarrow> u32" where
  "FUSE_DIRENT_ALIGN x = (x + 7) AND NOT 7"

text \<open>\<open>rewinddir\<close> and \<open>readdir\<close> are one call, whose flag says whether the stream is rewound first.\<close>

definition handle_readdir :: "os \<Rightarrow> fuse_in_header \<Rightarrow> u64 \<Rightarrow> u64 \<Rightarrow> fuse \<Rightarrow> (int \<times> fuse) outcome" where
  "handle_readdir os hdr fh offset f =
     obind (get_dirhandle f fh) (\<lambda>d.
       let c = Readdir d (offset = 0); f1 = issue c f
       in case os_dirent os c of
            None \<Rightarrow> Ok (0, f1)
          | Some (d_type, d_name) \<Rightarrow>
              if 24 + length d_name + 1 > 8192 then Fault Out_Of_Bounds
              else Ok (NO_STATUS, fuse_reply os (hdr_unique hdr) (Dirent_out FUSE_UNKNOWN_INO (offset + 1) d_type d_name)
                         (FUSE_DIRENT_ALIGN (24 + of_nat (length d_name))) f1))"

definition handle_releasedir :: "u64 \<Rightarrow> fuse \<Rightarrow> (int \<times> fuse) outcome" where
  "handle_releasedir fh f =
     obind (get_dirhandle f fh) (\<lambda>d. Ok (0, (issue (Close d) f)\<lparr>dir_heap := AList.delete (unat fh) (dir_heap f)\<rparr>))"

definition handle_init :: "os \<Rightarrow> fuse_in_header \<Rightarrow> u32 \<Rightarrow> fuse \<Rightarrow> (int \<times> fuse) outcome" where
  "handle_init os hdr max_readahead f =
     Ok (NO_STATUS, fuse_reply os (hdr_unique hdr) (Init_out 7 13 max_readahead (8 OR 32) 32 32 MAX_WRITE) 24 f)"

section \<open>Dispatch\<close>

datatype request =
    FUSE_LOOKUP string
  | FUSE_FORGET u64
  | FUSE_GETATTR
  | FUSE_SETATTR fuse_setattr_in
  | FUSE_MKNOD u32 u32 string
  | FUSE_MKDIR u32 string
  | FUSE_UNLINK string
  | FUSE_RMDIR string
  | FUSE_RENAME u64 string string
  | FUSE_OPEN u32
  | FUSE_READ u64 u64 u32
  | FUSE_WRITE u64 u64 bytes
  | FUSE_STATFS
  | FUSE_RELEASE u64
  | FUSE_FSYNC u64 u32
  | FUSE_FLUSH
  | FUSE_OPENDIR
  | FUSE_READDIR u64 u64
  | FUSE_RELEASEDIR u64
  | FUSE_INIT u32
  | FUSE_other

definition handle_fuse_request :: "os \<Rightarrow> fuse_in_header \<Rightarrow> request \<Rightarrow> fuse \<Rightarrow> (int \<times> fuse) outcome" where
  "handle_fuse_request os hdr req f =
     (case req of
        FUSE_LOOKUP name \<Rightarrow> handle_lookup os hdr name f
      | FUSE_FORGET nlookup \<Rightarrow> handle_forget hdr nlookup f
      | FUSE_GETATTR \<Rightarrow> handle_getattr os hdr f
      | FUSE_SETATTR sa \<Rightarrow> handle_setattr os hdr sa f
      | FUSE_MKNOD mode rdev name \<Rightarrow> handle_mknod os hdr mode rdev name f
      | FUSE_MKDIR mode name \<Rightarrow> handle_mkdir os hdr mode name f
      | FUSE_UNLINK name \<Rightarrow> handle_unlink os hdr name f
      | FUSE_RMDIR name \<Rightarrow> handle_rmdir os hdr name f
      | FUSE_RENAME newdir old_name new_name \<Rightarrow> handle_rename os hdr newdir old_name new_name f
      | FUSE_OPEN flags \<Rightarrow> handle_open os hdr flags f
      | FUSE_READ fh offset req_size \<Rightarrow> handle_read os hdr fh offset req_size f
      | FUSE_WRITE fh offset buffer \<Rightarrow> handle_write os hdr fh offset buffer f
      | FUSE_STATFS \<Rightarrow> handle_statfs os hdr f
      | FUSE_RELEASE fh \<Rightarrow> handle_release fh f
      | FUSE_FSYNC fh flags \<Rightarrow> handle_fsync os fh flags f
      | FUSE_FLUSH \<Rightarrow> handle_flush f
      | FUSE_OPENDIR \<Rightarrow> handle_opendir os hdr f
      | FUSE_READDIR fh offset \<Rightarrow> handle_readdir os hdr fh offset f
      | FUSE_RELEASEDIR fh \<Rightarrow> handle_releasedir fh f
      | FUSE_INIT max_readahead \<Rightarrow> handle_init os hdr max_readahead f
      | FUSE_other \<Rightarrow> Ok (- ENOSYS, f))"

text \<open>
  The cast of the data behind the header to the structure of the opcode. The data reaches to the end of the request buffer;
  a string without a terminating zero in it, or data to write that passes its end, is read beyond the buffer.
\<close>

definition un_le64 :: "bytes \<Rightarrow> u64" where
  "un_le64 bs = ucast (un_le32 bs) OR push_bit 32 (ucast (un_le32 (drop 4 bs)))"

definition cstring :: "bytes \<Rightarrow> string outcome" where
  "cstring bs =
     (if 0 \<in> set bs then Ok (map (\<lambda>b. char_of (unat b)) (takeWhile (\<lambda>b. b \<noteq> 0) bs)) else Fault Out_Of_Bounds)"

definition decode_request :: "u32 \<Rightarrow> bytes \<Rightarrow> request outcome" where
  "decode_request opcode data =
     (let w = (\<lambda>i. un_le32 (drop i data)); d = (\<lambda>i. un_le64 (drop i data))
      in if opcode = 1 then obind (cstring data) (\<lambda>name. Ok (FUSE_LOOKUP name))
         else if opcode = 2 then Ok (FUSE_FORGET (d 0))
         else if opcode = 3 then Ok FUSE_GETATTR
         else if opcode = 4 then
           Ok (FUSE_SETATTR \<lparr>sa_valid = w 0, sa_size = d 16, sa_atime = d 32, sa_mtime = d 40, sa_atimensec = w 56,
                             sa_mtimensec = w 60\<rparr>)
         else if opcode = 8 then obind (cstring (drop 16 data)) (\<lambda>name. Ok (FUSE_MKNOD (w 0) (w 4) name))
         else if opcode = 9 then obind (cstring (drop 8 data)) (\<lambda>name. Ok (FUSE_MKDIR (w 0) name))
         else if opcode = 10 then obind (cstring data) (\<lambda>name. Ok (FUSE_UNLINK name))
         else if opcode = 11 then obind (cstring data) (\<lambda>name. Ok (FUSE_RMDIR name))
         else if opcode = 12 then
           obind (cstring (drop 8 data)) (\<lambda>old_name.
             obind (cstring (drop (8 + length old_name + 1) data)) (\<lambda>new_name. Ok (FUSE_RENAME (d 0) old_name new_name)))
         else if opcode = 14 then Ok (FUSE_OPEN (w 0))
         else if opcode = 15 then Ok (FUSE_READ (d 0) (d 8) (w 16))
         else if opcode = 16 then
           (if 40 + unat (w 16) \<le> length data then Ok (FUSE_WRITE (d 0) (d 8) (take (unat (w 16)) (drop 40 data)))
            else Fault Out_Of_Bounds)
         else if opcode = 17 then Ok FUSE_STATFS
         else if opcode = 18 then Ok (FUSE_RELEASE (d 0))
         else if opcode = 20 then Ok (FUSE_FSYNC (d 0) (w 8))
         else if opcode = 25 then Ok FUSE_FLUSH
         else if opcode = 26 then Ok (FUSE_INIT (w 8))
         else if opcode = 27 then Ok FUSE_OPENDIR
         else if opcode = 28 then Ok (FUSE_READDIR (d 0) (d 8))
         else if opcode = 29 then Ok (FUSE_RELEASEDIR (d 0))
         else Ok FUSE_other)"

definition decode_header :: "bytes \<Rightarrow> fuse_in_header" where
  "decode_header bs =
     \<lparr>hdr_len = un_le32 bs, hdr_opcode = un_le32 (drop 4 bs), hdr_unique = un_le64 (drop 8 bs),
      hdr_nodeid = un_le64 (drop 16 bs), hdr_uid = un_le32 (drop 24 bs), hdr_gid = un_le32 (drop 28 bs),
      hdr_pid = un_le32 (drop 32 bs)\<rparr>"

text \<open>
  One round of the loop of \<open>handle_fuse_requests\<close>: what \<open>read\<close> gives is an error or a message, which replaces the front
  of the request buffer.
\<close>

definition handle_fuse_requests :: "os \<Rightarrow> int + bytes \<Rightarrow> bytes \<Rightarrow> fuse \<Rightarrow> fuse outcome" where
  "handle_fuse_requests os received request_buffer f =
     (case received of
        Inl e \<Rightarrow> Ok f
      | Inr msg \<Rightarrow>
          if length msg < 40 then Ok f
          else
            let buf = msg @ drop (length msg) request_buffer; hdr = decode_header buf
            in if unat (hdr_len hdr) \<noteq> length msg then Ok f
               else obind (decode_request (hdr_opcode hdr) (drop 40 buf)) (\<lambda>req.
                    obind (handle_fuse_request os hdr req f) (\<lambda>(res, f1).
                      Ok (if res \<noteq> NO_STATUS then fuse_status (hdr_unique hdr) res f1 else f1))))"

section \<open>The package list\<close>

text \<open>Freeing a key that is not allocated is a fault. The allocations of this part succeed.\<close>

definition free_key :: "key \<Rightarrow> fuse \<Rightarrow> fuse outcome" where
  "free_key key f =
     (if fst key \<in> set (key_heap f) then Ok (f\<lparr>key_heap := remove1 (fst key) (key_heap f)\<rparr>) else Fault Use_After_Free)"

definition remove_str_to_int :: "key \<Rightarrow> u32 option \<Rightarrow> fuse \<Rightarrow> (bool \<times> fuse) outcome" where
  "remove_str_to_int key value f =
     obind (the_table (package_to_appid f)) (\<lambda>m.
     obind (hashmapRemove m key) (\<lambda>(v, m1).
     obind (free_key key (f\<lparr>package_to_appid := Some m1\<rparr>)) (\<lambda>f1. Ok (True, f1))))"

definition remove_int_to_null :: "u32 \<Rightarrow> u32 option \<Rightarrow> fuse \<Rightarrow> (bool \<times> fuse) outcome" where
  "remove_int_to_null key value f =
     obind (the_table (appid_with_rw f)) (\<lambda>m.
     obind (hashmapRemove m key) (\<lambda>(v, m1). Ok (True, f\<lparr>appid_with_rw := Some m1\<rparr>)))"

text \<open>\<open>fgets\<close> with room for \<open>n\<close> characters: up to and with the next newline.\<close>

fun take_line :: "nat \<Rightarrow> string \<Rightarrow> string \<times> string" where
  "take_line 0 s = ([], s)"
| "take_line (Suc n) [] = ([], [])"
| "take_line (Suc n) (c # cs) =
     (if c = CHR 0x0A then ([c], cs) else (case take_line n cs of (l, r) \<Rightarrow> (c # l, r)))"

lemma take_line_shorter: "take_line n s = (l, r) \<Longrightarrow> length r + length l = length s"
  by (induction n s arbitrary: l r rule: take_line.induct) (auto split: if_splits prod.splits)

lemma take_line_empty: "take_line (Suc n) (c # cs) = (l, r) \<Longrightarrow> l \<noteq> []"
  by (auto split: if_splits prod.splits)

function fgets_lines :: "string \<Rightarrow> string list" where
  "fgets_lines [] = []"
| "fgets_lines (c # cs) = (case take_line 511 (c # cs) of (l, r) \<Rightarrow> l # fgets_lines r)"
  by pat_completeness auto

lemma take_line_rest: "(l, r) = take_line 511 (c # cs) \<Longrightarrow> length r < length (c # cs)"
  using take_line_shorter [of 511 "c # cs" l r] take_line_empty [of 510 c cs l r]
  by (cases l) (auto simp: numeral_eq_Suc)

termination fgets_lines
  by (relation "measure length") (use take_line_rest in \<open>auto simp del: take_line.simps\<close>)

text \<open>The conversions \<open>%s\<close> and \<open>%d\<close> of \<open>sscanf\<close>: the value and the rest, \<open>None\<close> when nothing matches.\<close>

definition scan_word :: "string \<Rightarrow> (string \<times> string) option" where
  "scan_word s =
     (let s1 = dropWhile is_space s; w = takeWhile (\<lambda>c. \<not> is_space c) s1
      in if w = [] then None else Some (w, dropWhile (\<lambda>c. \<not> is_space c) s1))"

definition scan_int :: "string \<Rightarrow> (u32 \<times> string) option" where
  "scan_int s =
     (let s1 = dropWhile is_space s;
          neg = (case s1 of c # _ \<Rightarrow> c = CHR ''-'' | [] \<Rightarrow> False);
          s2 = (case s1 of c # cs \<Rightarrow> if c = CHR ''-'' \<or> c = CHR ''+'' then cs else s1 | [] \<Rightarrow> [])
      in case digits_loop 10 s2 0 False of
           (acc, any, rest) \<Rightarrow>
             if any then Some (of_int (max (- (2 ^ 63)) (min (2 ^ 63 - 1) (if neg then - int acc else int acc))), rest)
             else None)"

definition scan_package :: "string \<Rightarrow> (string \<times> u32 \<times> string) option" where
  "scan_package buf =
     (case scan_word buf of None \<Rightarrow> None | Some (package_name, s1) \<Rightarrow>
      case scan_int s1 of None \<Rightarrow> None | Some (appid, s2) \<Rightarrow>
      case scan_int s2 of None \<Rightarrow> None | Some (_, s3) \<Rightarrow>
      case scan_word s3 of None \<Rightarrow> None | Some (_, s4) \<Rightarrow>
      case scan_word s4 of None \<Rightarrow> None | Some (_, s5) \<Rightarrow>
      case scan_word s5 of None \<Rightarrow> None | Some (gids, _) \<Rightarrow> Some (package_name, appid, gids))"

definition has_gid :: "u32 \<Rightarrow> string \<Rightarrow> bool" where
  "has_gid w gids = list_ex (\<lambda>token. strtoul token = w) (filter (\<lambda>t. t \<noteq> []) (pieces (CHR '','') gids))"

definition add_package :: "string \<Rightarrow> fuse \<Rightarrow> fuse outcome" where
  "add_package buf f =
     (case scan_package buf of
        None \<Rightarrow> Ok f
      | Some (package_name, appid, gids) \<Rightarrow>
          let f1 = f\<lparr>key_heap := key_next f # key_heap f, key_next := key_next f + 1\<rparr>
          in obind (the_table (package_to_appid f1)) (\<lambda>m.
             obind (hashmapPut True True 0 m (key_next f, package_name) (if appid = 0 then None else Some appid))
               (\<lambda>(old, e, m1).
                  let f2 = f1\<lparr>package_to_appid := Some m1\<rparr>
                  in if has_gid (write_gid f2) gids then
                       obind (the_table (appid_with_rw f2)) (\<lambda>a.
                       obind (hashmapPut True True 0 a appid (Some 1)) (\<lambda>(old, e, a1).
                         Ok (f2\<lparr>appid_with_rw := Some a1\<rparr>)))
                     else Ok f2)))"

fun add_packages :: "string list \<Rightarrow> fuse \<Rightarrow> fuse outcome" where
  "add_packages [] f = Ok f"
| "add_packages (buf # bufs) f = obind (add_package buf f) (add_packages bufs)"

text \<open>The file is its text, \<open>None\<close> when it cannot be opened.\<close>

definition read_package_list :: "string option \<Rightarrow> fuse \<Rightarrow> (int \<times> fuse) outcome" where
  "read_package_list file f =
     obind (the_table (package_to_appid f)) (\<lambda>_.
     obind (hashmapForEach (\<lambda>f. the (package_to_appid f)) remove_str_to_int f) (\<lambda>f1.
     obind (the_table (appid_with_rw f1)) (\<lambda>_.
     obind (hashmapForEach (\<lambda>f. the (appid_with_rw f)) remove_int_to_null f1) (\<lambda>f2.
       case file of
         None \<Rightarrow> Ok (- 1, f2)
       | Some text \<Rightarrow> obind (add_packages (fgets_lines text) f2) (\<lambda>f3. Ok (0, f3))))))"

text \<open>
  One round of the loop of \<open>watch_package_list\<close>: \<open>add_watch\<close> is the error of \<open>inotify_add_watch\<close>, \<open>events\<close> what is
  read, an error or the masks of the events. The result is whether the watch is active, \<open>None\<close> when the function returns.
\<close>

abbreviation (input) IN_IGNORED :: u32 where "IN_IGNORED \<equiv> 32768"

definition watch_package_list ::
  "bool \<Rightarrow> int option \<Rightarrow> string option \<Rightarrow> int + u32 list \<Rightarrow> fuse \<Rightarrow> (bool option \<times> fuse) outcome" where
  "watch_package_list active add_watch file events f =
     (let read_events = (\<lambda>active f.
            case events of
              Inl e \<Rightarrow> if e = EINTR then (Some active, f) else (None, f)
            | Inr masks \<Rightarrow> (Some (if list_ex (\<lambda>m. m AND IN_IGNORED = IN_IGNORED) masks then False else active), f))
      in if active then Ok (read_events True f)
         else
           (case add_watch of
              Some e \<Rightarrow> Ok (if e = ENOENT \<or> e = EACCES then Some False else None, f)
            | None \<Rightarrow>
                obind (read_package_list file f) (\<lambda>(res, f1).
                  if res = - 1 then Ok (None, f1) else Ok (read_events True f1))))"

section \<open>The program\<close>

text \<open>What the options and arguments ask for; the result \<open>None\<close> is \<open>usage\<close>. \<open>getopt\<close> gives the options in order.\<close>

record config =
  cf_source_path :: "string option"
  cf_dest_path :: "string option"
  cf_uid :: u32
  cf_gid :: u32
  cf_write_gid :: u32
  cf_num_threads :: u32
  cf_derive :: derive_t
  cf_split_perms :: bool

fun main_options :: "(char \<times> string) list \<Rightarrow> config \<Rightarrow> config option" where
  "main_options [] c = Some c"
| "main_options ((opt, optarg) # opts) c =
     (if opt = CHR ''u'' then main_options opts (c\<lparr>cf_uid := strtoul optarg\<rparr>)
      else if opt = CHR ''g'' then main_options opts (c\<lparr>cf_gid := strtoul optarg\<rparr>)
      else if opt = CHR ''w'' then main_options opts (c\<lparr>cf_write_gid := strtoul optarg\<rparr>)
      else if opt = CHR ''t'' then main_options opts (c\<lparr>cf_num_threads := strtoul optarg\<rparr>)
      else if opt = CHR ''d'' then main_options opts (c\<lparr>cf_derive := DERIVE_UNIFIED\<rparr>)
      else if opt = CHR ''l'' then main_options opts (c\<lparr>cf_derive := DERIVE_LEGACY\<rparr>)
      else if opt = CHR ''s'' then main_options opts (c\<lparr>cf_split_perms := True\<rparr>)
      else None)"

fun main_arguments :: "string list \<Rightarrow> config \<Rightarrow> config option" where
  "main_arguments [] c = Some c"
| "main_arguments (arg # args) c =
     (if cf_source_path c = None then main_arguments args (c\<lparr>cf_source_path := Some arg\<rparr>)
      else if cf_dest_path c = None then main_arguments args (c\<lparr>cf_dest_path := Some arg\<rparr>)
      else if cf_uid c = 0 then main_arguments args (c\<lparr>cf_uid := strtoul arg\<rparr>)
      else if cf_gid c = 0 then main_arguments args (c\<lparr>cf_gid := strtoul arg\<rparr>)
      else None)"

definition main_config :: "(char \<times> string) list \<Rightarrow> string list \<Rightarrow> config option" where
  "main_config opts args =
     (let c = \<lparr>cf_source_path = None, cf_dest_path = None, cf_uid = 0, cf_gid = 0, cf_write_gid = AID_SDCARD_RW,
               cf_num_threads = 2, cf_derive = DERIVE_NONE, cf_split_perms = False\<rparr>
      in case main_options opts c of
           None \<Rightarrow> None
         | Some c1 \<Rightarrow>
             (case main_arguments args c1 of
                None \<Rightarrow> None
              | Some c2 \<Rightarrow>
                  if cf_source_path c2 = None then None
                  else if cf_dest_path c2 = None then None
                  else if cf_uid c2 = 0 \<or> cf_gid c2 = 0 then None
                  else if sint (cf_num_threads c2) < 1 then None
                  else if cf_split_perms c2 \<and> cf_derive c2 = DERIVE_NONE then None
                  else Some c2))"

end
