(* ===== verification/Sdcard_Tree.thy ===== *)
theory Sdcard_Tree
  imports Sdcard_Handlers
begin

text \<open>
  The tree of nodes of the card as a linked structure with reference counts, and that the operations on it keep it in order.

  \<open>link\<close> is the part of a node the structure is made of. \<open>tree_ok G m X\<close> says of the nodes \<open>m\<close> that every sibling
  list is the list of the nodes whose parent it belongs to, that parents lead to the root, and that the count of a node is
  the number of its children plus the references from outside, \<open>X\<close>. The nodes in \<open>G\<close> are detached: allocated, but in
  no sibling list. A release that destroys a chain of nodes, and a rename, pass through such states.
\<close>

section \<open>Links\<close>

record link =
  lk_next :: "addr option"
  lk_child :: "addr option"
  lk_parent :: "addr option"
  lk_refs :: nat

definition link_of :: "node \<Rightarrow> link" where
  "link_of n = \<lparr>lk_next = nd_next n, lk_child = nd_child n, lk_parent = nd_parent n, lk_refs = unat (nd_refcount n)\<rparr>"

lemma link_of_sel [simp]:
  "lk_next (link_of n) = nd_next n" "lk_child (link_of n) = nd_child n" "lk_parent (link_of n) = nd_parent n"
  "lk_refs (link_of n) = unat (nd_refcount n)"
  by (simp_all add: link_of_def)

definition nodes_of :: "fuse \<Rightarrow> addr \<rightharpoonup> node" where
  "nodes_of f = map_of (node_heap f)"

definition links :: "fuse \<Rightarrow> addr \<rightharpoonup> link" where
  "links f = map_option link_of \<circ> nodes_of f"

fun chain :: "(addr \<rightharpoonup> link) \<Rightarrow> addr option \<Rightarrow> addr list \<Rightarrow> bool" where
  "chain m p [] = (p = None)"
| "chain m p (a # xs) = (p = Some a \<and> (case m a of None \<Rightarrow> False | Some l \<Rightarrow> chain m (lk_next l) xs))"

definition kids :: "addr set \<Rightarrow> (addr \<rightharpoonup> link) \<Rightarrow> addr \<Rightarrow> addr set" where
  "kids G m p = {a. a \<notin> G \<and> (\<exists>l. m a = Some l \<and> lk_parent l = Some p)}"

definition par :: "addr set \<Rightarrow> (addr \<rightharpoonup> link) \<Rightarrow> (addr \<times> addr) set" where
  "par G m = {(p, a). a \<in> kids G m p}"

definition anc :: "addr set \<Rightarrow> (addr \<rightharpoonup> link) \<Rightarrow> addr \<Rightarrow> addr set" where
  "anc G m a = {b. (b, a) \<in> (par G m)\<^sup>*}"

definition siblings_ok :: "addr set \<Rightarrow> (addr \<rightharpoonup> link) \<Rightarrow> addr \<Rightarrow> link \<Rightarrow> bool" where
  "siblings_ok G m p l \<longleftrightarrow> (\<exists>xs. chain m (lk_child l) xs \<and> distinct xs \<and> set xs = kids G m p)"

definition parent_ok :: "(addr \<rightharpoonup> link) \<Rightarrow> addr \<Rightarrow> link \<Rightarrow> bool" where
  "parent_ok m a l \<longleftrightarrow> (case lk_parent l of None \<Rightarrow> a = root_ptr | Some p \<Rightarrow> a \<noteq> root_ptr \<and> p \<in> dom m)"

definition tree_ok :: "addr set \<Rightarrow> (addr \<rightharpoonup> link) \<Rightarrow> (addr \<Rightarrow> nat) \<Rightarrow> bool" where
  "tree_ok G m X \<longleftrightarrow>
     finite (dom m) \<and> G \<subseteq> dom m \<and> root_ptr \<in> dom m - G \<and> acyclic (par G m) \<and>
     (\<forall>a l. m a = Some l \<longrightarrow> a \<notin> G \<longrightarrow> parent_ok m a l) \<and>
     (\<forall>p l. m p = Some l \<longrightarrow> siblings_ok G m p l) \<and>
     (\<forall>p l. m p = Some l \<longrightarrow> lk_refs l = X p + card (kids G m p)) \<and>
     (\<forall>p. p \<notin> dom m \<longrightarrow> X p = 0)"

definition live_ok :: "addr set \<Rightarrow> (addr \<rightharpoonup> link) \<Rightarrow> bool" where
  "live_ok G m \<longleftrightarrow> (\<forall>p l. m p = Some l \<longrightarrow> p \<notin> G \<longrightarrow> lk_refs l \<noteq> 0)"

lemma tree_okD:
  assumes "tree_ok G m X"
  shows "finite (dom m)" and "G \<subseteq> dom m" and "root_ptr \<in> dom m" and "root_ptr \<notin> G" and "acyclic (par G m)"
    and "m a = Some l \<Longrightarrow> a \<notin> G \<Longrightarrow> parent_ok m a l"
    and "m p = Some l \<Longrightarrow> siblings_ok G m p l"
    and "m p = Some l \<Longrightarrow> lk_refs l = X p + card (kids G m p)"
    and "m q = None \<Longrightarrow> X q = 0"
  using assms by (auto simp: tree_ok_def domIff)

lemma tree_okI:
  assumes "finite (dom m)" and "G \<subseteq> dom m" and "root_ptr \<in> dom m" and "root_ptr \<notin> G" and "acyclic (par G m)"
    and "\<And>a l. m a = Some l \<Longrightarrow> a \<notin> G \<Longrightarrow> parent_ok m a l"
    and "\<And>p l. m p = Some l \<Longrightarrow> siblings_ok G m p l"
    and "\<And>p l. m p = Some l \<Longrightarrow> lk_refs l = X p + card (kids G m p)"
    and "\<And>q. m q = None \<Longrightarrow> X q = 0"
  shows "tree_ok G m X"
  using assms unfolding tree_ok_def by (simp add: domIff)

lemma chain_cong:
  assumes "\<And>a. a \<in> set xs \<Longrightarrow> map_option lk_next (m' a) = map_option lk_next (m a)"
  shows "chain m' p xs = chain m p xs"
  using assms
proof (induction xs arbitrary: p)
  case (Cons x xs)
  have x: "map_option lk_next (m' x) = map_option lk_next (m x)" by (rule Cons.prems) simp
  have "chain m' q xs = chain m q xs" for q
  proof (rule Cons.IH)
    fix a assume "a \<in> set xs"
    then have "a \<in> set (x # xs)" by simp
    then show "map_option lk_next (m' a) = map_option lk_next (m a)" by (rule Cons.prems)
  qed
  then show ?case using x by (cases "m x"; cases "m' x") simp_all
qed simp

lemma chain_no_self: "chain m p xs \<Longrightarrow> distinct xs \<Longrightarrow> a \<in> set xs \<Longrightarrow> m a = Some l \<Longrightarrow> lk_next l \<noteq> Some a"
proof (induction xs arbitrary: p)
  case (Cons x xs)
  show ?case
  proof (cases "a = x")
    case True
    then have "chain m (lk_next l) xs" "a \<notin> set xs" using Cons.prems by auto
    then show ?thesis by (cases xs) auto
  next
    case False
    then show ?thesis using Cons by (auto split: option.splits)
  qed
qed simp

lemma chain_dom: "chain m p xs \<Longrightarrow> set xs \<subseteq> dom m"
  by (induction xs arbitrary: p) (auto split: option.splits)

lemma parent_ok_mono: "parent_ok m a l \<Longrightarrow> lk_parent l' = lk_parent l \<Longrightarrow> dom m \<subseteq> dom m' \<Longrightarrow> parent_ok m' a l'"
  by (auto simp: parent_ok_def split: option.splits)

lemma same_field: "map_option g (m' b) = map_option g (m b) \<Longrightarrow> m' b = Some l \<Longrightarrow> \<exists>l0. m b = Some l0 \<and> g l0 = g l"
  by (cases "m b") auto

lemma same_dom: "(\<And>c. map_option g (m' c) = map_option g (m c)) \<Longrightarrow> dom m' = dom m"
  by (metis (no_types, lifting) domIff map_option_is_None set_eqI)

lemma kids_upd:
  assumes "m a = Some l" and "lk_parent l' = lk_parent l"
  shows "kids G (m(a \<mapsto> l')) = kids G m"
  using assms by (auto simp: kids_def fun_eq_iff)

lemma par_upd:
  assumes "m a = Some l" and "lk_parent l' = lk_parent l"
  shows "par G (m(a \<mapsto> l')) = par G m"
  using assms by (simp add: par_def kids_upd)

lemma kids_ghost_upd: "a \<in> G \<Longrightarrow> kids G (m(a := v)) = kids G m"
  by (auto simp: kids_def fun_eq_iff)

lemma siblings_ok_cong:
  assumes "siblings_ok G m p l" and "lk_child l' = lk_child l" and "kids G' m' p = kids G m p"
    and "\<And>a. a \<in> kids G m p \<Longrightarrow> map_option lk_next (m' a) = map_option lk_next (m a)"
  shows "siblings_ok G' m' p l'"
proof -
  obtain xs where xs: "chain m (lk_child l) xs" "distinct xs" "set xs = kids G m p"
    using assms(1) by (auto simp: siblings_ok_def)
  have "chain m' (lk_child l') xs"
    using xs assms(2,4) chain_cong [of xs m' m "lk_child l"] by simp
  then show ?thesis using xs assms(3) by (auto simp: siblings_ok_def)
qed

lemma kids_disjoint: "a \<in> kids G m p \<Longrightarrow> a \<in> kids G m q \<Longrightarrow> p = q"
  by (auto simp: kids_def)

lemma kids_sub: "kids G m p \<subseteq> dom m"
  by (auto simp: kids_def)

lemma finite_kids: "tree_ok G m X \<Longrightarrow> finite (kids G m p)"
  by (rule finite_subset [OF kids_sub tree_okD(1)])

lemma kid_parent:
  assumes "tree_ok G m X" and "a \<in> kids G m p"
  shows "a \<noteq> root_ptr" and "p \<in> dom m" and "a \<notin> G" and "a \<in> dom m"
proof -
  obtain l where l: "m a = Some l" "a \<notin> G" "lk_parent l = Some p" using assms(2) by (auto simp: kids_def)
  then show "a \<noteq> root_ptr" "p \<in> dom m" using tree_okD(6) [OF assms(1) l(1,2)] by (simp_all add: parent_ok_def)
  show "a \<notin> G" "a \<in> dom m" using l by auto
qed

lemma kids_None: "tree_ok G m X \<Longrightarrow> m p = None \<Longrightarrow> kids G m p = {}"
  using kid_parent(2) [of G m X _ p] by blast

section \<open>Counts\<close>

text \<open>A change of the count of one node together with the references to it from outside.\<close>

lemma tree_refs:
  assumes t: "tree_ok G m X" and a: "m a = Some l" and r: "r + X a = x + lk_refs l"
  shows "tree_ok G (m(a \<mapsto> l\<lparr>lk_refs := r\<rparr>)) (X(a := x))"
proof -
  let ?m = "m(a \<mapsto> l\<lparr>lk_refs := r\<rparr>)"
  have k: "kids G ?m = kids G m" using a by (intro kids_upd [of m a l]) simp_all
  have p: "par G ?m = par G m" by (simp add: par_def k)
  have s: "siblings_ok G ?m q l'" if q: "?m q = Some l'" for q l'
  proof -
    obtain l0 where l0: "m q = Some l0" "lk_child l' = lk_child l0" using q a by (auto split: if_splits)
    show ?thesis
      by (rule siblings_ok_cong [OF tree_okD(7) [OF t l0(1)] l0(2)]) (use a k in \<open>auto\<close>)
  qed
  have q: "parent_ok ?m b l'" if b: "?m b = Some l'" "b \<notin> G" for b l'
  proof -
    obtain l0 where l0: "m b = Some l0" "lk_parent l' = lk_parent l0" using b a by (auto split: if_splits)
    show ?thesis by (rule parent_ok_mono [OF tree_okD(6) [OF t l0(1) b(2)] l0(2)]) auto
  qed
  have c: "lk_refs l' = (X(a := x)) b + card (kids G ?m b)" if "?m b = Some l'" for b l'
    using that tree_okD(8) [OF t a] tree_okD(8) [OF t, of b l'] r unfolding k by (auto split: if_splits)
  have d: "dom ?m = dom m" using a by auto
  have z: "(X(a := x)) b = 0" if "?m b = None" for b
    using that tree_okD(9) [OF t, of b] by (auto split: if_splits)
  show ?thesis
    by (rule tree_okI, unfold d p) (fact tree_okD(1-5) [OF t] q s c z)+
qed

section \<open>Taking a node out of its sibling list\<close>

lemma chain_remove_mid:
  assumes "chain m p xs" and "distinct xs" and "m b = Some lb" and "lk_next lb = Some a" and "m a = Some la"
    and "b \<in> set xs"
  shows "a \<in> set xs \<and> chain (m(b \<mapsto> lb\<lparr>lk_next := lk_next la\<rparr>)) p (remove1 a xs)"
  using assms
proof (induction xs arbitrary: p)
  case (Cons x xs)
  define m' where "m' = m(b \<mapsto> lb\<lparr>lk_next := lk_next la\<rparr>)"
  have m'b: "m' b = Some (lb\<lparr>lk_next := lk_next la\<rparr>)" and m'x: "x \<noteq> b \<Longrightarrow> m' x = m x" by (simp_all add: m'_def)
  show ?case
  proof (cases "x = b")
    case True
    then have c: "chain m (Some a) xs" using Cons.prems by simp
    then obtain ys where xs: "xs = a # ys" by (cases xs) auto
    then have ys: "chain m (lk_next la) ys" "b \<notin> set ys" "b \<noteq> a"
      using c Cons.prems True by auto
    have "chain m' (lk_next la) ys = chain m (lk_next la) ys"
      by (rule chain_cong) (use ys in \<open>auto simp: m'_def\<close>)
    then have "chain m' (Some b) (b # ys)" using ys by (simp add: m'b)
    then have "chain m' p (remove1 a (x # xs))" using Cons.prems(1) True xs ys(3) by simp
    moreover have "a \<in> set (x # xs)" using xs by simp
    ultimately show ?thesis unfolding m'_def by blast
  next
    case False
    obtain l where l: "m x = Some l" "chain m (lk_next l) xs" using Cons.prems by (auto split: option.splits)
    have IH: "a \<in> set xs" "chain m' (lk_next l) (remove1 a xs)"
    proof -
      have "distinct xs" "b \<in> set xs" using Cons.prems(2,6) False by auto
      from Cons.IH [OF l(2) this(1) Cons.prems(3-5) this(2), folded m'_def]
      show "a \<in> set xs" "chain m' (lk_next l) (remove1 a xs)" by blast+
    qed
    have "x \<noteq> a" using IH(1) Cons.prems(2) by auto
    then have "chain m' p (remove1 a (x # xs))" using IH(2) l m'x [OF False] Cons.prems(1) by simp
    moreover have "a \<in> set (x # xs)" using IH(1) by simp
    ultimately show ?thesis unfolding m'_def by blast
  qed
qed simp

lemma par_insert_ghost: "par (insert a G) m \<subseteq> par G m"
  by (auto simp: par_def kids_def)

text \<open>
  Removing \<open>a\<close> from the sibling list of \<open>p\<close>, however the links do it: the parent keeps its count, now with one reference
  more from outside.
\<close>

lemma tree_unlinkI:
  assumes t: "tree_ok G m X" and a: "a \<in> kids G m p"
    and same: "\<And>c. map_option lk_parent (m' c) = map_option lk_parent (m c)"
      "\<And>c. map_option lk_refs (m' c) = map_option lk_refs (m c)"
    and nxt: "\<And>c. c \<notin> kids G m p \<Longrightarrow> map_option lk_next (m' c) = map_option lk_next (m c)"
    and child: "\<And>c. c \<noteq> p \<Longrightarrow> map_option lk_child (m' c) = map_option lk_child (m c)"
    and p: "m' p = Some lp" and ys: "chain m' (lk_child lp) ys" "distinct ys" "set ys = kids G m p - {a}"
  shows "tree_ok (insert a G) m' (X(p := Suc (X p)))"
proof -
  have d: "dom m' = dom m" by (rule same_dom [OF same(1)])
  have k: "kids G m' = kids G m"
  proof -
    have "(\<exists>l. m' b = Some l \<and> lk_parent l = Some q) = (\<exists>l. m b = Some l \<and> lk_parent l = Some q)" for b q
      using same(1) [of b] by (cases "m b"; cases "m' b") auto
    then show ?thesis by (simp add: kids_def fun_eq_iff)
  qed
  have k1: "kids (insert a G) m' q = kids G m q - {a}" for q using k by (auto simp: kids_def fun_eq_iff set_eq_iff)
  have k2: "kids (insert a G) m' q = kids G m q" if "q \<noteq> p" for q
    using kids_disjoint [OF a, of q] that k1 [of q] by blast
  have ac: "acyclic (par (insert a G) m')"
  proof (rule acyclic_subset [OF tree_okD(5) [OF t]])
    show "par (insert a G) m' \<subseteq> par G m" using k1 by (auto simp: par_def)
  qed
  have am: "m a \<noteq> None" "a \<noteq> root_ptr" using kid_parent(1,4) [OF t a] by auto
  have par: "parent_ok m' b l" if "m' b = Some l" "b \<notin> insert a G" for b l
  proof -
    obtain l0 where "m b = Some l0" "lk_parent l0 = lk_parent l" using same_field [of lk_parent m' b m, OF same(1)] \<open>m' b = Some l\<close> by blast
    then show ?thesis using tree_okD(6) [OF t, of b l0] that d parent_ok_mono [of m b l0 l m'] by simp
  qed
  have sib: "siblings_ok (insert a G) m' q l" if q: "m' q = Some l" for q l
  proof (cases "q = p")
    case True
    then show ?thesis using that p ys k1 by (auto simp: siblings_ok_def)
  next
    case False
    obtain l0 where l0: "m q = Some l0" "lk_child l0 = lk_child l" using same_field [of lk_child m' q m] child [OF False] q by blast
    show ?thesis
    proof (rule siblings_ok_cong [OF tree_okD(7) [OF t l0(1)] l0(2) [symmetric] k2 [OF False]])
      fix c assume "c \<in> kids G m q"
      then have "c \<notin> kids G m p" using kids_disjoint False by blast
      then show "map_option lk_next (m' c) = map_option lk_next (m c)" by (rule nxt)
    qed
  qed
  have cnt: "lk_refs l = (X(p := Suc (X p))) q + card (kids (insert a G) m' q)" if q: "m' q = Some l" for q l
  proof -
    obtain l0 where l0: "m q = Some l0" "lk_refs l0 = lk_refs l" using same_field [of lk_refs m' q m, OF same(2)] q by blast
    have r: "lk_refs l = X q + card (kids G m q)" using tree_okD(8) [OF t l0(1)] l0(2) by simp
    show ?thesis
    proof (cases "q = p")
      case True
      have "card (kids G m p) = Suc (card (kids G m p - {a}))"
        using a finite_kids [OF t] by (metis card_Suc_Diff1)
      then show ?thesis using r k1 True by simp
    qed (use r k2 in simp)
  qed
  have z: "(X(p := Suc (X p))) q = 0" if "m' q = None" for q
  proof -
    have "q \<notin> dom m" using that d by blast
    then show ?thesis using p that tree_okD(9) [OF t, of q] by (auto simp: domIff)
  qed
  have "finite (dom m')" "insert a G \<subseteq> dom m'" "root_ptr \<in> dom m'" "root_ptr \<notin> insert a G"
    using tree_okD(1-4) [OF t] am d by auto
  then show ?thesis by (rule tree_okI) (fact ac par sib cnt z)+
qed

lemma tree_unlink_first:
  assumes t: "tree_ok G m X" and a: "a \<in> kids G m p" and p: "m p = Some lp" and la: "m a = Some la"
    and c: "lk_child lp = Some a"
  shows "tree_ok (insert a G) (m(p \<mapsto> lp\<lparr>lk_child := lk_next la\<rparr>)) (X(p := Suc (X p)))"
proof -
  obtain xs where xs: "chain m (lk_child lp) xs" "distinct xs" "set xs = kids G m p"
    using tree_okD(7) [OF t p] by (auto simp: siblings_ok_def)
  then obtain ys where ys: "xs = a # ys" using c a by (cases xs) auto
  define m' where "m' = m(p \<mapsto> lp\<lparr>lk_child := lk_next la\<rparr>)"
  have n: "map_option lk_next (m' b) = map_option lk_next (m b)" for b using p by (simp add: m'_def)
  have "chain m' (lk_next la) ys" using chain_cong [of ys m' m] n xs(1) ys la by simp
  then have "tree_ok (insert a G) m' (X(p := Suc (X p)))"
    using xs ys n p by (intro tree_unlinkI [OF t a, of m' "lp\<lparr>lk_child := lk_next la\<rparr>" ys]) (auto simp: m'_def)
  then show ?thesis by (simp only: m'_def)
qed

lemma tree_unlink_later:
  assumes t: "tree_ok G m X" and a: "a \<in> kids G m p" and la: "m a = Some la"
    and b: "b \<in> kids G m p" "m b = Some lb" "lk_next lb = Some a"
  shows "tree_ok (insert a G) (m(b \<mapsto> lb\<lparr>lk_next := lk_next la\<rparr>)) (X(p := Suc (X p)))"
proof -
  obtain lp where p: "m p = Some lp" using b(1) kids_None [OF t, of p] by (cases "m p") auto
  obtain xs where xs: "chain m (lk_child lp) xs" "distinct xs" "set xs = kids G m p"
    using tree_okD(7) [OF t p] by (auto simp: siblings_ok_def)
  define m' where "m' = m(b \<mapsto> lb\<lparr>lk_next := lk_next la\<rparr>)"
  have c: "chain m' (lk_child lp) (remove1 a xs)"
    using chain_remove_mid [OF xs(1,2) b(2,3) la] b(1) xs(3) by (simp add: m'_def)
  have bp: "b \<noteq> p"
    using b(1) tree_okD(5) [OF t] by (auto simp: par_def acyclic_def)
  have "tree_ok (insert a G) m' (X(p := Suc (X p)))"
    by (rule tree_unlinkI [OF t a, of m' lp "remove1 a xs"]) (use b xs p c bp in \<open>auto simp: m'_def\<close>)
  then show ?thesis by (simp only: m'_def)
qed

section \<open>Attaching, creating and destroying\<close>

lemma tree_ghost_links:
  assumes t: "tree_ok G m X" and g: "g \<in> G" "m g = Some l"
  shows "tree_ok G (m(g \<mapsto> l\<lparr>lk_parent := x, lk_next := y\<rparr>)) X"
proof -
  define m' where "m' = m(g \<mapsto> l\<lparr>lk_parent := x, lk_next := y\<rparr>)"
  have k: "kids G m' = kids G m" unfolding m'_def by (rule kids_ghost_upd [OF g(1)])
  have p: "par G m' = par G m" by (simp add: par_def k)
  have d: "dom m' = dom m" using g by (auto simp: m'_def)
  have sib: "siblings_ok G m' q l'" if q: "m' q = Some l'" for q l'
  proof -
    obtain l0 where l0: "m q = Some l0" "lk_child l' = lk_child l0" using q g by (auto simp: m'_def split: if_splits)
    show ?thesis
    proof (rule siblings_ok_cong [OF tree_okD(7) [OF t l0(1)] l0(2)])
      fix c assume "c \<in> kids G m q"
      then have "c \<noteq> g" using g by (auto simp: kids_def)
      then show "map_option lk_next (m' c) = map_option lk_next (m c)" by (simp add: m'_def)
    qed (simp add: k)
  qed
  have cnt: "lk_refs l' = X q + card (kids G m' q)" if "m' q = Some l'" for q l'
    using that tree_okD(8) [OF t g(2)] tree_okD(8) [OF t, of q l'] k by (auto simp: m'_def split: if_splits)
  have par: "parent_ok m' b l'" if "m' b = Some l'" "b \<notin> G" for b l'
  proof -
    have "b \<noteq> g" using that g by auto
    then have "m b = Some l'" using that by (simp add: m'_def)
    then show ?thesis using tree_okD(6) [OF t, of b l'] that d parent_ok_mono [of m b l' l' m'] by simp
  qed
  have "tree_ok G m' X"
  proof (rule tree_okI)
    show "X q = 0" if "m' q = None" for q using that d tree_okD(9) [OF t, of q] by (metis domIff)
    show "finite (dom m')" "G \<subseteq> dom m'" "root_ptr \<in> dom m'" "root_ptr \<notin> G" "acyclic (par G m')"
      using tree_okD(1-5) [OF t] unfolding d p by blast+
  qed (fact par sib cnt)+
  then show ?thesis by (simp only: m'_def)
qed

lemma tree_free:
  assumes t: "tree_ok G m X" and g: "g \<in> G" and k0: "kids G m g = {}" and x: "X g = 0"
  shows "tree_ok (G - {g}) (m(g := None)) X"
proof -
  define m' where "m' = m(g := None)"
  have k: "kids (G - {g}) m' = kids G m" using g by (auto simp: kids_def fun_eq_iff m'_def)
  have p: "par (G - {g}) m' = par G m" by (simp add: par_def k)
  have d: "dom m' = dom m - {g}" by (auto simp: m'_def)
  have sib: "siblings_ok (G - {g}) m' q l" if q: "m' q = Some l" for q l
  proof -
    have l0: "m q = Some l" using q by (auto simp: m'_def split: if_splits)
    show ?thesis
    proof (rule siblings_ok_cong [OF tree_okD(7) [OF t l0] refl])
      fix c assume "c \<in> kids G m q"
      then have "c \<noteq> g" using g by (auto simp: kids_def)
      then show "map_option lk_next (m' c) = map_option lk_next (m c)" by (simp add: m'_def)
    qed (simp add: k)
  qed
  have par: "parent_ok m' b l" if b: "m' b = Some l" "b \<notin> G - {g}" for b l
  proof -
    have m: "m b = Some l" "b \<notin> G" using b by (auto simp: m'_def split: if_splits)
    have "lk_parent l \<noteq> Some g" using k0 m by (auto simp: kids_def)
    then show ?thesis using tree_okD(6) [OF t m] d by (auto simp: parent_ok_def split: option.splits)
  qed
  have "tree_ok (G - {g}) m' X"
  proof (rule tree_okI)
    show "X q = 0" if "m' q = None" for q
      using that tree_okD(9) [OF t, of q] x by (cases "q = g") (simp_all add: m'_def)
    show "lk_refs l = X q + card (kids (G - {g}) m' q)" if "m' q = Some l" for q l
      using that tree_okD(8) [OF t, of q l] unfolding k by (cases "q = g") (simp_all add: m'_def)
    show "finite (dom m')" "G - {g} \<subseteq> dom m'" "root_ptr \<in> dom m'" "root_ptr \<notin> G - {g}" "acyclic (par (G - {g}) m')"
      using tree_okD(1-5) [OF t] g unfolding d p by auto
  qed (fact par sib)+
  then show ?thesis by (simp only: m'_def)
qed

lemma tree_new:
  assumes t: "tree_ok G m X" and a: "m a = None" and l: "lk_child l = None"
  shows "tree_ok (insert a G) (m(a \<mapsto> l)) (X(a := lk_refs l))"
proof -
  define m' where "m' = m(a \<mapsto> l)"
  have aG: "a \<notin> G" using a tree_okD(2) [OF t] by auto
  have k: "kids (insert a G) m' = kids G m" using a by (auto simp: kids_def fun_eq_iff m'_def)
  have p: "par (insert a G) m' = par G m" by (simp add: par_def k)
  have sib: "siblings_ok (insert a G) m' q l'" if q: "m' q = Some l'" for q l'
  proof (cases "q = a")
    case True
    then show ?thesis
      using q l kids_None [OF t a] k by (auto simp: siblings_ok_def m'_def intro!: exI [of _ "[]"])
  next
    case False
    then have l0: "m q = Some l'" using q by (simp add: m'_def)
    show ?thesis
    proof (rule siblings_ok_cong [OF tree_okD(7) [OF t l0] refl])
      fix c assume "c \<in> kids G m q"
      then have "c \<noteq> a" using a by (auto simp: kids_def)
      then show "map_option lk_next (m' c) = map_option lk_next (m c)" by (simp add: m'_def)
    qed (simp add: k)
  qed
  have par: "parent_ok m' b l'" if "m' b = Some l'" "b \<notin> insert a G" for b l'
    using that tree_okD(6) [OF t, of b l'] by (auto simp: m'_def parent_ok_def split: option.splits)
  have cnt: "lk_refs l' = (X(a := lk_refs l)) q + card (kids (insert a G) m' q)" if "m' q = Some l'" for q l'
    using that tree_okD(8) [OF t, of q l'] kids_None [OF t a] unfolding k by (auto simp: m'_def split: if_splits)
  have r: "root_ptr \<noteq> a" using a tree_okD(3) [OF t] by auto
  have "tree_ok (insert a G) m' (X(a := lk_refs l))"
  proof (rule tree_okI)
    show "(X(a := lk_refs l)) q = 0" if "m' q = None" for q
      using that tree_okD(9) [OF t, of q] by (cases "q = a") (simp_all add: m'_def)
    show "finite (dom m')" "insert a G \<subseteq> dom m'" "root_ptr \<in> dom m'" "root_ptr \<notin> insert a G" "acyclic (par (insert a G) m')"
      using tree_okD(1-5) [OF t] r unfolding p by (auto simp: m'_def)
  qed (fact par sib cnt)+
  then show ?thesis by (simp only: m'_def)
qed

lemma tree_attach:
  assumes t: "tree_ok G m X" and c: "c \<in> G" "m c = Some lc" and p: "m p = Some lp" and ac: "c \<notin> anc G m p"
  shows "tree_ok (G - {c}) (m(c \<mapsto> lc\<lparr>lk_parent := Some p, lk_next := lk_child lp\<rparr>,
    p \<mapsto> lp\<lparr>lk_child := Some c, lk_refs := Suc (lk_refs lp)\<rparr>)) X"
proof -
  define m' where "m' = m(c \<mapsto> lc\<lparr>lk_parent := Some p, lk_next := lk_child lp\<rparr>,
    p \<mapsto> lp\<lparr>lk_child := Some c, lk_refs := Suc (lk_refs lp)\<rparr>)"
  have cp: "c \<noteq> p" using ac by (auto simp: anc_def)
  have m'c: "m' c = Some (lc\<lparr>lk_parent := Some p, lk_next := lk_child lp\<rparr>)"
    and m'p: "m' p = Some (lp\<lparr>lk_child := Some c, lk_refs := Suc (lk_refs lp)\<rparr>)"
    and m'o: "q \<noteq> c \<Longrightarrow> q \<noteq> p \<Longrightarrow> m' q = m q" for q using cp by (simp_all add: m'_def)
  have cr: "c \<noteq> root_ptr" using c(1) tree_okD(4) [OF t] by auto
  have d: "dom m' = dom m" using c p by (auto simp: m'_def)
  have k1: "kids (G - {c}) m' p = insert c (kids G m p)"
    using c p cp by (auto simp: kids_def m'_def)
  have k2: "kids (G - {c}) m' q = kids G m q" if "q \<noteq> p" for q
    using c p cp that by (auto simp: kids_def m'_def)
  have cn: "c \<notin> kids G m q" for q using c by (auto simp: kids_def)
  have par: "par (G - {c}) m' = insert (p, c) (par G m)"
  proof -
    have "b \<in> kids (G - {c}) m' a \<longleftrightarrow> a = p \<and> b = c \<or> b \<in> kids G m a" for a b
      using k1 k2 [of a] by (cases "a = p") auto
    then show ?thesis by (auto simp: par_def)
  qed
  have acy: "acyclic (par (G - {c}) m')"
    unfolding par using tree_okD(5) [OF t] ac by (simp add: acyclic_insert anc_def)
  have pok: "parent_ok m' b l" if b: "m' b = Some l" "b \<notin> G - {c}" for b l
  proof (cases "b = c")
    case True
    then show ?thesis using b m'c cr d p by (auto simp: parent_ok_def)
  next
    case False
    obtain l0 where "m b = Some l0" "lk_parent l0 = lk_parent l" using b m'p m'o False p by (cases "b = p") auto
    then show ?thesis using tree_okD(6) [OF t, of b l0] b False d by (auto simp: parent_ok_def split: option.splits)
  qed
  have nx: "map_option lk_next (m' a) = map_option lk_next (m a)" if "a \<noteq> c" for a
    using that p by (cases "a = p") (simp_all add: m'p m'o)
  have sib: "siblings_ok (G - {c}) m' q l" if q: "m' q = Some l" for q l
  proof (cases "q = p")
    case True
    obtain xs where xs: "chain m (lk_child lp) xs" "distinct xs" "set xs = kids G m p"
      using tree_okD(7) [OF t p] by (auto simp: siblings_ok_def)
    have "chain m' (lk_child lp) xs = chain m (lk_child lp) xs"
    proof (rule chain_cong)
      fix a assume "a \<in> set xs"
      then have "a \<noteq> c" using xs(3) cn by auto
      then show "map_option lk_next (m' a) = map_option lk_next (m a)" by (rule nx)
    qed
    then have "chain m' (Some c) (c # xs)" using xs(1) m'c by simp
    then show ?thesis
      using True q m'p xs(2,3) cn k1 by (auto simp: siblings_ok_def intro!: exI [of _ "c # xs"])
  next
    case False
    obtain l0 where l0: "m q = Some l0" "lk_child l = lk_child l0"
      using q False m'c m'o c by (cases "q = c") auto
    show ?thesis
      by (rule siblings_ok_cong [OF tree_okD(7) [OF t l0(1)] l0(2) k2 [OF False]]) (use cn nx in metis)
  qed
  have cnt: "lk_refs l = X q + card (kids (G - {c}) m' q)" if q: "m' q = Some l" for q l
  proof (cases "q = p")
    case True
    then show ?thesis using q m'p tree_okD(8) [OF t p] k1 cn finite_kids [OF t] by auto
  next
    case False
    then show ?thesis
      using q k2 [OF False] tree_okD(8) [OF t c(2)] tree_okD(8) [OF t, of q l] m'c m'o by (cases "q = c") auto
  qed
  have "tree_ok (G - {c}) m' X"
  proof (rule tree_okI)
    show "X q = 0" if "m' q = None" for q using that d tree_okD(9) [OF t, of q] by (metis domIff)
    show "finite (dom m')" "G - {c} \<subseteq> dom m'" "root_ptr \<in> dom m'" "root_ptr \<notin> G - {c}"
      using tree_okD(1-4) [OF t] unfolding d by auto
  qed (fact acy pok sib cnt)+
  then show ?thesis by (simp only: m'_def)
qed

section \<open>The operations on links\<close>

text \<open>The part of a node that is not links.\<close>

definition attrs :: "node \<Rightarrow> node" where
  "attrs n = n\<lparr>nd_refcount := 0, nd_next := None, nd_child := None, nd_parent := None\<rparr>"

definition attr_map :: "fuse \<Rightarrow> addr \<rightharpoonup> node" where
  "attr_map f = map_option attrs \<circ> nodes_of f"

definition only_nodes :: "fuse \<Rightarrow> fuse \<Rightarrow> bool" where
  "only_nodes f f' \<longleftrightarrow> f' = f\<lparr>node_heap := node_heap f'\<rparr>"

lemma only_nodes_refl [simp]: "only_nodes f f"
  by (simp add: only_nodes_def)

lemma only_nodes_trans: "only_nodes f g \<Longrightarrow> only_nodes g h \<Longrightarrow> only_nodes f h"
  unfolding only_nodes_def by (cases f; cases g; cases h) simp

lemma only_nodes_set [simp]: "only_nodes f (set_node a n f)" "only_nodes f (free_node a f)"
  by (simp_all add: only_nodes_def set_node_def free_node_def)

lemma nodes_of_set [simp]:
  "nodes_of (set_node a n f) = (nodes_of f)(a \<mapsto> n)" "nodes_of (free_node a f) = (nodes_of f)(a := None)"
  by (simp_all add: nodes_of_def set_node_def free_node_def update_conv' delete_conv' fun_eq_iff)

lemma links_set [simp]:
  "links (set_node a n f) = (links f)(a \<mapsto> link_of n)" "links (free_node a f) = (links f)(a := None)"
  by (auto simp: links_def fun_eq_iff)

lemma attr_map_set:
  "attr_map (set_node a n f) = (attr_map f)(a \<mapsto> attrs n)" "attr_map (free_node a f) = (attr_map f)(a := None)"
  by (auto simp: attr_map_def fun_eq_iff)

lemma attr_map_same: "nodes_of f a = Some n \<Longrightarrow> attrs n' = attrs n \<Longrightarrow> attr_map (set_node a n' f) = attr_map f"
  by (auto simp: attr_map_set attr_map_def fun_eq_iff)

lemma get_node_nodes: "get_node f a = (case nodes_of f a of None \<Rightarrow> Fault Use_After_Free | Some n \<Rightarrow> Ok n)"
  by (simp add: get_node_def nodes_of_def)

lemma get_node_ok: "nodes_of f a = Some n \<Longrightarrow> get_node f a = Ok n"
  by (simp add: get_node_nodes)

lemma links_nodes: "links f a = Some l \<longleftrightarrow> (\<exists>n. nodes_of f a = Some n \<and> l = link_of n)"
  by (auto simp: links_def)

lemma links_some: "nodes_of f a = Some n \<Longrightarrow> links f a = Some (link_of n)"
  by (simp add: links_def)

lemma links_none: "links f a = None \<longleftrightarrow> nodes_of f a = None"
  by (simp add: links_def)

lemma dom_links: "dom (links f) = dom (nodes_of f)"
  by (auto simp: links_def dom_def)

lemma card_heap: "card (dom (nodes_of f)) \<le> length (node_heap f)"
proof -
  have "dom (nodes_of f) = fst ` set (node_heap f)" by (simp add: nodes_of_def dom_map_of_conv_image_fst)
  then show ?thesis using card_image_le [of "set (node_heap f)" fst] card_length [of "node_heap f"] by simp
qed

lemma distinct_chain_length: "distinct xs \<Longrightarrow> set xs \<subseteq> dom (nodes_of f) \<Longrightarrow> length xs \<le> length (node_heap f)"
  using card_heap [of f] card_mono [of "dom (nodes_of f)" "set xs"]
  by (simp add: distinct_card nodes_of_def finite_dom_map_of)

lemma link_upd:
  "link_of (n\<lparr>nd_next := x\<rparr>) = (link_of n)\<lparr>lk_next := x\<rparr>" "link_of (n\<lparr>nd_child := x\<rparr>) = (link_of n)\<lparr>lk_child := x\<rparr>"
  "link_of (n\<lparr>nd_parent := x\<rparr>) = (link_of n)\<lparr>lk_parent := x\<rparr>"
  "link_of (n\<lparr>nd_refcount := r\<rparr>) = (link_of n)\<lparr>lk_refs := unat r\<rparr>"
  by (simp_all add: link_of_def)

lemma attrs_upd [simp]:
  "attrs (n\<lparr>nd_next := x\<rparr>) = attrs n" "attrs (n\<lparr>nd_child := x\<rparr>) = attrs n"
  "attrs (n\<lparr>nd_parent := x\<rparr>) = attrs n" "attrs (n\<lparr>nd_refcount := r\<rparr>) = attrs n"
  by (simp_all add: attrs_def)

lemma links_apply: "links f a = map_option link_of (nodes_of f a)"
  by (simp add: links_def)

lemma chain_links_Cons:
  "chain (links f) p (x # xs) \<longleftrightarrow> p = Some x \<and> (\<exists>n. nodes_of f x = Some n \<and> chain (links f) (nd_next n) xs)"
  by (cases "nodes_of f x") (simp_all add: links_apply)

lemma unlink_loop_ok:
  assumes "chain (links f) (Some b) xs" and "a \<in> set xs" and "a \<noteq> b" and "length xs \<le> k" and "nodes_of f a = Some na"
  shows "\<exists>c nc. c \<in> set xs \<and> nodes_of f c = Some nc \<and> nd_next nc = Some a \<and>
    unlink_loop k b a f = Ok (set_node c (nc\<lparr>nd_next := nd_next na\<rparr>) f)"
  using assms
proof (induction xs arbitrary: b k)
  case (Cons x xs)
  obtain j where k: "k = Suc j" using Cons.prems(4) by (cases k) auto
  obtain nb where nb: "nodes_of f b = Some nb" "chain (links f) (nd_next nb) xs" and x: "x = b"
    using Cons.prems(1) unfolding chain_links_Cons by blast
  have a: "a \<in> set xs" using Cons.prems(2,3) x by auto
  show ?case
  proof (cases "nd_next nb = Some a")
    case True
    then show ?thesis
      using nb x k Cons.prems(5) by (intro exI [of _ b] exI [of _ nb]) (simp add: get_node_ok)
  next
    case False
    then obtain d where d: "nd_next nb = Some d" "a \<noteq> d" using nb(2) a by (cases xs) auto
    have "\<exists>c nc. c \<in> set xs \<and> nodes_of f c = Some nc \<and> nd_next nc = Some a \<and>
        unlink_loop j d a f = Ok (set_node c (nc\<lparr>nd_next := nd_next na\<rparr>) f)"
      by (rule Cons.IH) (use nb d a k Cons.prems in auto)
    then show ?thesis using nb False d k by (auto simp: get_node_ok)
  qed
qed simp

definition keeps_links :: "fuse \<Rightarrow> fuse \<Rightarrow> bool" where
  "keeps_links f f' \<longleftrightarrow> (\<forall>c. map_option lk_parent (links f' c) = map_option lk_parent (links f c) \<and>
     map_option lk_refs (links f' c) = map_option lk_refs (links f c))"

lemma unlink_sibling_ok:
  assumes t: "tree_ok G (links f) X" and a: "a \<in> kids G (links f) p" and pG: "p \<notin> G"
  shows "\<exists>f'. unlink_sibling p a f = Ok f' \<and> tree_ok (insert a G) (links f') (X(p := Suc (X p))) \<and> only_nodes f f' \<and>
    attr_map f' = attr_map f \<and> keeps_links f f' \<and> (\<forall>g \<in> insert a G. nodes_of f' g = nodes_of f g)"
proof -
  obtain na where na: "nodes_of f a = Some na" using a by (auto simp: kids_def links_apply)
  obtain np where np: "nodes_of f p = Some np" using kid_parent(2) [OF t a] by (auto simp: dom_links)
  have ap: "a \<noteq> p" using a tree_okD(5) [OF t] by (auto simp: par_def acyclic_def)
  obtain xs where xs: "chain (links f) (nd_child np) xs" "distinct xs" "set xs = kids G (links f) p"
    using tree_okD(7) [OF t links_some [OF np]] by (auto simp: siblings_ok_def)
  show ?thesis
  proof (cases "nd_child np = Some a")
    case True
    let ?f = "set_node p (np\<lparr>nd_child := nd_next na\<rparr>) f"
    have "unlink_sibling p a f = Ok ?f" using True np na by (simp add: unlink_sibling_def get_node_ok)
    moreover have "tree_ok (insert a G) (links ?f) (X(p := Suc (X p)))"
      using tree_unlink_first [OF t a links_some [OF np] links_some [OF na]] True by (simp add: link_upd)
    ultimately show ?thesis
      using np ap pG by (intro exI [of _ ?f]) (auto simp: attr_map_same keeps_links_def links_apply)
  next
    case False
    obtain b where b: "nd_child np = Some b" using xs a by (cases xs) auto
    have "set xs \<subseteq> dom (nodes_of f)" using chain_dom [OF xs(1)] by (simp add: dom_links)
    then have k: "length xs \<le> length (node_heap f)" using distinct_chain_length xs(2) by blast
    obtain c nc where c: "c \<in> set xs" "nodes_of f c = Some nc" "nd_next nc = Some a"
      "unlink_loop (length (node_heap f)) b a f = Ok (set_node c (nc\<lparr>nd_next := nd_next na\<rparr>) f)"
      using unlink_loop_ok [of f b xs a "length (node_heap f)" na] xs a b False k na by auto
    let ?f = "set_node c (nc\<lparr>nd_next := nd_next na\<rparr>) f"
    have "unlink_sibling p a f = Ok ?f" using False np b c(4) by (simp add: unlink_sibling_def get_node_ok)
    moreover have "tree_ok (insert a G) (links ?f) (X(p := Suc (X p)))"
      using tree_unlink_later [OF t a links_some [OF na] _ links_some [OF c(2)]] c(1,3) xs(3) by (simp add: link_upd)
    moreover have "c \<noteq> a"
      using chain_no_self [OF xs(1,2) c(1) links_some [OF c(2)]] c(3) by auto
    moreover have "c \<notin> G" using c(1) xs(3) by (auto simp: kids_def)
    ultimately show ?thesis
      using c(2) by (intro exI [of _ ?f]) (auto simp: attr_map_same keeps_links_def links_apply)
  qed
qed

end
