(* ===== verification/Sdcard_Refs.thy ===== *)
theory Sdcard_Refs
  imports Sdcard_Tree
begin

text \<open>
  What acquiring, releasing, attaching, detaching, creating and finding nodes do to the tree. Releasing the last reference to
  a node destroys it, and with it every ancestor that only its child kept alive; the fuel of the model is enough for the
  longest such chain.
\<close>

section \<open>Ancestors\<close>

lemma anc_self [simp]: "a \<in> anc G m a"
  by (simp add: anc_def)

lemma anc_sub: "tree_ok G m X \<Longrightarrow> anc G m a \<subseteq> insert a (dom m)"
proof
  fix b
  assume t: "tree_ok G m X" and "b \<in> anc G m a"
  then have "(b, a) \<in> (par G m)\<^sup>*" by (simp add: anc_def)
  then show "b \<in> insert a (dom m)"
    by (cases rule: converse_rtranclE) (use kid_parent(2) [OF t] in \<open>auto simp: par_def\<close>)
qed

lemma finite_anc: "tree_ok G m X \<Longrightarrow> finite (anc G m a)"
  using anc_sub tree_okD(1) by (metis finite.insertI finite_subset)

lemma anc_mono: "par G' m' \<subseteq> par G m \<Longrightarrow> anc G' m' a \<subseteq> anc G m a"
  unfolding anc_def using rtrancl_mono by blast

lemma anc_parent:
  assumes t: "tree_ok G m X" and p: "a \<in> kids G m p"
  shows "anc G m p \<subseteq> anc G m a" and "a \<notin> anc G m p" and "Suc (card (anc G m p)) \<le> card (anc G m a)"
proof -
  have e: "(p, a) \<in> par G m" using p by (simp add: par_def)
  then show s: "anc G m p \<subseteq> anc G m a" by (auto simp: anc_def intro: rtrancl_into_rtrancl)
  show n: "a \<notin> anc G m p"
    using tree_okD(5) [OF t] e unfolding anc_def acyclic_def by (blast intro: rtrancl_into_trancl2)
  have "anc G m p \<subset> anc G m a" using s n anc_self by blast
  then show "Suc (card (anc G m p)) \<le> card (anc G m a)"
    using psubset_card_mono [OF finite_anc [OF t]] by (simp add: Suc_le_eq)
qed

lemma card_anc_heap:
  assumes t: "tree_ok G (links f) X" and a: "links f a \<noteq> None"
  shows "card (anc G (links f) a) \<le> length (node_heap f)"
proof -
  have "anc G (links f) a \<subseteq> dom (nodes_of f)" using anc_sub [OF t, of a] a unfolding dom_links [symmetric] by blast
  then have "card (anc G (links f) a) \<le> card (dom (nodes_of f))"
    by (simp add: card_mono nodes_of_def finite_dom_map_of)
  then show ?thesis using card_heap [of f] by simp
qed

lemma keeps_links_par:
  assumes "keeps_links f f'"
  shows "kids G (links f') = kids G (links f)" and "par G (links f') = par G (links f)"
    and "live_ok G (links f') = live_ok G (links f)"
proof -
  have p: "map_option lk_parent (links f' c) = map_option lk_parent (links f c)"
    and r: "map_option lk_refs (links f' c) = map_option lk_refs (links f c)" for c
    using assms by (auto simp: keeps_links_def)
  have "(\<exists>l. links f' b = Some l \<and> lk_parent l = Some q) = (\<exists>l. links f b = Some l \<and> lk_parent l = Some q)" for b q
    using p [of b] by (cases "links f b"; cases "links f' b") auto
  then show "kids G (links f') = kids G (links f)" by (simp add: kids_def fun_eq_iff)
  then show "par G (links f') = par G (links f)" by (simp add: par_def)
  have "(\<exists>l. links f' b = Some l \<and> lk_refs l = 0) = (\<exists>l. links f b = Some l \<and> lk_refs l = 0)" for b
    using r [of b] by (cases "links f b"; cases "links f' b") auto
  moreover have "live_ok G m \<longleftrightarrow> (\<forall>b. b \<notin> G \<longrightarrow> \<not> (\<exists>l. m b = Some l \<and> lk_refs l = 0))" for m
    by (auto simp: live_ok_def)
  ultimately show "live_ok G (links f') = live_ok G (links f)" by (simp only:)
qed

section \<open>Releasing\<close>

text \<open>The nodes left, outside of \<open>C\<close>, have the parents they had.\<close>

definition parents_le :: "addr set \<Rightarrow> fuse \<Rightarrow> fuse \<Rightarrow> bool" where
  "parents_le C f f' \<longleftrightarrow> (\<forall>a n'. a \<notin> C \<longrightarrow> nodes_of f' a = Some n' \<longrightarrow> (\<exists>n. nodes_of f a = Some n \<and> nd_parent n' = nd_parent n))"

lemma parents_le_refl [simp]: "parents_le C f f"
  by (simp add: parents_le_def)

lemma parents_le_trans: "parents_le C f g \<Longrightarrow> parents_le D g h \<Longrightarrow> parents_le (C \<union> D) f h"
  unfolding parents_le_def by (metis UnI1 UnI2)

lemma parents_le_par: "parents_le C f f' \<Longrightarrow> par C (links f') \<subseteq> par {} (links f)"
  unfolding parents_le_def par_def kids_def links_apply by fastforce

lemma keeps_links_parents: "keeps_links f f' \<Longrightarrow> parents_le {} f f'"
  unfolding parents_le_def
proof (intro allI impI)
  fix a n'
  assume k: "keeps_links f f'" and n: "nodes_of f' a = Some n'"
  have "map_option lk_parent (links f' a) = map_option lk_parent (links f a)" using k by (simp add: keeps_links_def)
  then show "\<exists>n. nodes_of f a = Some n \<and> nd_parent n' = nd_parent n" using n by (cases "nodes_of f a") (auto simp: links_apply)
qed

lemma parents_le_set: "nodes_of f a = Some n \<Longrightarrow> nd_parent n' = nd_parent n \<Longrightarrow> parents_le {} f (set_node a n' f)"
  by (auto simp: parents_le_def)

definition release_post :: "addr set \<Rightarrow> (addr \<Rightarrow> nat) \<Rightarrow> fuse \<Rightarrow> fuse \<Rightarrow> bool" where
  "release_post G X f f' \<longleftrightarrow> tree_ok G (links f') X \<and> live_ok G (links f') \<and> (\<forall>g \<in> G. nodes_of f' g = nodes_of f g) \<and>
     only_nodes f f' \<and> attr_map f' \<subseteq>\<^sub>m attr_map f \<and> parents_le {} f f'"

definition releases :: "nat \<Rightarrow> bool" where
  "releases k \<longleftrightarrow> (\<forall>G f X a. tree_ok G (links f) X \<longrightarrow> live_ok G (links f) \<longrightarrow> 0 < X a \<longrightarrow> anc G (links f) a \<inter> G = {} \<longrightarrow>
     2 \<le> (X(a := X a - 1)) root_ptr \<longrightarrow> 2 * card (anc G (links f) a) \<le> k \<longrightarrow>
     (\<exists>f'. release_node_locked k a f = Ok f' \<and> release_post G (X(a := X a - 1)) f f'))"

lemma releasesD:
  assumes "releases k" and "tree_ok G (links f) X" and "live_ok G (links f)" and "0 < X a" and "anc G (links f) a \<inter> G = {}"
    and "2 \<le> (X(a := X a - 1)) root_ptr" and "2 * card (anc G (links f) a) \<le> k"
  shows "\<exists>f'. release_node_locked k a f = Ok f' \<and> release_post G (X(a := X a - 1)) f f'"
  using assms unfolding releases_def by blast

lemma live_ok_ghost: "g \<in> G \<Longrightarrow> live_ok G (m(g := v)) = live_ok G m"
  by (auto simp: live_ok_def)

lemma remove_if:
  assumes rel: "releases k" and t: "tree_ok G (links f) X" and live: "live_ok (insert c G) (links f)"
    and c: "c \<in> kids G (links f) p" and anc: "anc G (links f) p \<inter> G = {}" and root: "2 \<le> X root_ptr"
    and k: "2 * card (anc G (links f) p) \<le> k" and nc: "nodes_of f c = Some nc"
  shows "\<exists>f'. remove_node_from_parent_locked (Suc k) c f = Ok f' \<and> tree_ok (insert c G) (links f') X \<and>
    live_ok (insert c G) (links f') \<and> nodes_of f' c = Some (nc\<lparr>nd_parent := None, nd_next := None\<rparr>) \<and>
    (\<forall>g \<in> G. nodes_of f' g = nodes_of f g) \<and> only_nodes f f' \<and> attr_map f' \<subseteq>\<^sub>m attr_map f \<and> parents_le {c} f f'"
proof -
  have pG: "p \<notin> G" using anc anc_self by blast
  have cG: "c \<notin> G" using kid_parent(3) [OF t c] .
  obtain f1 where f1: "unlink_sibling p c f = Ok f1" "tree_ok (insert c G) (links f1) (X(p := Suc (X p)))"
    "only_nodes f f1" "attr_map f1 = attr_map f" "keeps_links f f1" "\<And>g. g \<in> insert c G \<Longrightarrow> nodes_of f1 g = nodes_of f g"
    using unlink_sibling_ok [OF t c pG] by blast
  have sub: "anc (insert c G) (links f1) p \<subseteq> anc G (links f) p"
    using anc_mono [OF par_insert_ghost, of c G "links f1"] keeps_links_par(2) [OF f1(5), of G] by (simp add: anc_def)
  then have a1: "anc (insert c G) (links f1) p \<inter> insert c G = {}" using anc anc_parent(2) [OF t c] by auto
  have k1: "2 * card (anc (insert c G) (links f1) p) \<le> k"
    using card_mono [OF finite_anc [OF t] sub] k by linarith
  have x: "(X(p := Suc (X p)))(p := (X(p := Suc (X p))) p - 1) = X" by simp
  have l1: "live_ok (insert c G) (links f1)" using live keeps_links_par(3) [OF f1(5)] by simp
  obtain f2 where f2: "release_node_locked k p f1 = Ok f2" "release_post (insert c G) X f1 f2"
    using releasesD [OF rel f1(2) l1 _ a1 _ k1, unfolded x] root by auto
  note r2 = f2(2) [unfolded release_post_def]
  have n2: "nodes_of f2 c = Some nc" using r2 f1(6) nc by auto
  let ?f = "set_node c (nc\<lparr>nd_parent := None, nd_next := None\<rparr>) f2"
  have "nd_parent nc = Some p" using c nc by (auto simp: kids_def links_apply)
  then have "remove_node_from_parent_locked (Suc k) c f = Ok ?f"
    using nc f1(1) f2(1) n2 by (simp add: get_node_ok)
  moreover have "tree_ok (insert c G) (links ?f) X"
    using tree_ghost_links [of "insert c G" "links f2" X c "link_of nc" None None] r2 links_some [OF n2] by (simp add: link_upd)
  moreover have "live_ok (insert c G) (links ?f)" using r2 by (simp add: live_ok_ghost)
  moreover have "attr_map ?f = attr_map f2" by (rule attr_map_same [OF n2]) simp
  moreover have "nodes_of ?f g = nodes_of f g" if "g \<in> G" for g
    using that r2 f1(6) [of g] cG by auto
  moreover have "only_nodes f ?f" using f1(3) r2 only_nodes_set(1) only_nodes_trans by blast
  moreover have "parents_le {c} f ?f"
  proof -
    have "parents_le {} f f2" using parents_le_trans [OF keeps_links_parents [OF f1(5)], of "{}" f2] r2 by simp
    then show ?thesis by (auto simp: parents_le_def)
  qed
  ultimately show ?thesis using r2 f1(4) by (intro exI [of _ ?f]) simp
qed

lemma unat_pred: "(r :: u32) > 0 \<Longrightarrow> unat (r - 1) = unat r - 1"
  by (simp add: unat_sub_u32 word_le_nat_alt word_less_nat_alt Suc_leI)

lemma releases_step:
  assumes rel: "releases k"
  shows "releases (Suc (Suc k))"
  unfolding releases_def
proof (intro allI impI)
  fix G f X a
  assume t: "tree_ok G (links f) X" and live: "live_ok G (links f)" and xa: "0 < X a" and anc: "anc G (links f) a \<inter> G = {}"
    and root: "2 \<le> (X(a := X a - 1)) root_ptr" and k: "2 * card (anc G (links f) a) \<le> Suc (Suc k)"
  have aG: "a \<notin> G" using anc anc_self by blast
  obtain n where n: "nodes_of f a = Some n" using xa tree_okD(9) [OF t, of a] links_none [of f a] by (cases "nodes_of f a") auto
  have la: "links f a = Some (link_of n)" using n by (rule links_some)
  have pos: "nd_refcount n > 0" using tree_okD(8) [OF t la] xa by (simp add: word_less_nat_alt)
  define f1 where "f1 = set_node a (n\<lparr>nd_refcount := nd_refcount n - 1\<rparr>) f"
  have r1: "unat (nd_refcount n - 1) = unat (nd_refcount n) - 1" by (rule unat_pred [OF pos])
  have pos1: "0 < unat (nd_refcount n)" using pos by (simp add: word_less_nat_alt)
  have l1: "links f1 = (links f)(a \<mapsto> (link_of n)\<lparr>lk_refs := unat (nd_refcount n) - 1\<rparr>)"
    by (simp add: f1_def link_upd r1)
  have t1: "tree_ok G (links f1) (X(a := X a - 1))"
    unfolding l1 by (rule tree_refs [OF t la]) (use pos1 xa in simp)
  have at1: "attr_map f1 = attr_map f" unfolding f1_def by (rule attr_map_same [OF n]) simp
  have g1: "nodes_of f1 g = nodes_of f g" if "g \<in> G" for g using that aG by (auto simp: f1_def)
  have o1: "only_nodes f f1" by (simp add: f1_def)
  have p1: "parents_le {} f f1" unfolding f1_def by (rule parents_le_set [OF n]) simp
  show "\<exists>f'. release_node_locked (Suc (Suc k)) a f = Ok f' \<and> release_post G (X(a := X a - 1)) f f'"
  proof (cases "nd_refcount n - 1 = 0")
    case False
    then have "release_node_locked (Suc (Suc k)) a f = Ok f1" using n pos by (simp add: get_node_ok f1_def Let_def)
    moreover have "unat (nd_refcount n) - 1 \<noteq> 0" using False r1 by (metis unat_eq_zero)
    then have "live_ok G (links f1)" using live unfolding l1 live_ok_def by auto
    then have "release_post G (X(a := X a - 1)) f f1" using t1 at1 g1 o1 p1 by (simp add: release_post_def)
    ultimately show ?thesis by blast
  next
    case True
    have one: "unat (nd_refcount n) = 1" using r1 pos1 unfolding True by simp
    have x1: "X a = 1" "card (kids G (links f) a) = 0" using tree_okD(8) [OF t la] xa one by auto
    have ar: "a \<noteq> root_ptr" using root x1 by auto
    obtain p where p: "nd_parent n = Some p"
      using tree_okD(6) [OF t la aG] ar by (auto simp: parent_ok_def split: option.splits)
    have par1: "kids G (links f1) = kids G (links f)" unfolding l1 using la by (intro kids_upd [of "links f" a "link_of n"]) simp_all
    have c: "a \<in> kids G (links f) p" using la aG p by (auto simp: kids_def)
    have anc1: "anc G (links f1) p = anc G (links f) p" by (simp add: anc_def par_def par1)
    have live1: "live_ok (insert a G) (links f1)" using live unfolding l1 live_ok_def by auto
    have n1: "nodes_of f1 a = Some (n\<lparr>nd_refcount := 0\<rparr>)" by (simp add: f1_def True)
    have rt: "2 \<le> (X(a := X a - 1)) root_ptr" using root by simp
    have kk: "2 * card (anc G (links f1) p) \<le> k" using anc_parent(3) [OF t c] k unfolding anc1 by linarith
    have an1: "anc G (links f1) p \<inter> G = {}" using anc anc_parent(1) [OF t c] unfolding anc1 by blast
    have c1: "a \<in> kids G (links f1) p" using c unfolding par1 .
    from remove_if [OF rel t1 live1 c1 an1 rt kk n1] obtain f2 where f2: "remove_node_from_parent_locked (Suc k) a f1 = Ok f2"
      "tree_ok (insert a G) (links f2) (X(a := X a - 1))" "live_ok (insert a G) (links f2)"
      "nodes_of f2 a = Some (n\<lparr>nd_refcount := 0, nd_parent := None, nd_next := None\<rparr>)"
      "\<And>g. g \<in> G \<Longrightarrow> nodes_of f2 g = nodes_of f1 g" "only_nodes f1 f2" "attr_map f2 \<subseteq>\<^sub>m attr_map f1" "parents_le {a} f1 f2"
      by blast
    have ok: "release_node_locked (Suc (Suc k)) a f = Ok (free_node a f2)"
      using n pos True f2(1) by (simp add: get_node_ok f1_def Let_def del: remove_node_from_parent_locked.simps)
    have "kids (insert a G) (links f2) a = {}"
      using tree_okD(8) [OF f2(2) links_some [OF f2(4)]] finite_kids [OF f2(2), of a] by simp
    then have "tree_ok (insert a G - {a}) (links (free_node a f2)) (X(a := X a - 1))"
      unfolding links_set by (intro tree_free [OF f2(2)]) (use x1 in auto)
    then have "tree_ok G (links (free_node a f2)) (X(a := X a - 1))" using aG by simp
    moreover have "live_ok G (links (free_node a f2))" using f2(3) by (auto simp: live_ok_def)
    moreover have "nodes_of (free_node a f2) g = nodes_of f g" if "g \<in> G" for g
      using that f2(5) g1 aG by auto
    moreover have "only_nodes f (free_node a f2)" using o1 f2(6) only_nodes_set(2) only_nodes_trans by blast
    moreover have "attr_map (free_node a f2) \<subseteq>\<^sub>m attr_map f"
      using f2(7) at1 by (auto simp: attr_map_set map_le_def)
    moreover have "parents_le {} f (free_node a f2)"
      using parents_le_trans [OF p1 f2(8)] by (auto simp: parents_le_def)
    ultimately have "release_post G (X(a := X a - 1)) f (free_node a f2)" by (simp add: release_post_def)
    then show ?thesis using ok by blast
  qed
qed

lemma anc_pos: "tree_ok G m X \<Longrightarrow> 0 < card (anc G m a)"
  using finite_anc [of G m X a] anc_self [of a G m] by (metis card_gt_0_iff empty_iff)

lemma releases_small: "k < 2 \<Longrightarrow> releases k"
  unfolding releases_def
proof (intro allI impI)
  fix G f X a
  assume "k < 2" and t: "tree_ok G (links f) X" and "2 * card (anc G (links f) a) \<le> k"
  then have False using anc_pos [OF t, of a] by linarith
  then show "\<exists>f'. release_node_locked k a f = Ok f' \<and> release_post G (X(a := X a - 1)) f f'" ..
qed

lemma releases_all: "releases k"
  by (induction k rule: induct_nat_012) (simp_all add: releases_small releases_step)

section \<open>The invariant\<close>

text \<open>No node is detached, every count is exact and not zero; \<open>struct fuse\<close> holds two references to the root.\<close>

definition fs_inv :: "fuse \<Rightarrow> (addr \<Rightarrow> nat) \<Rightarrow> bool" where
  "fs_inv f X \<longleftrightarrow> tree_ok {} (links f) X \<and> live_ok {} (links f) \<and> 2 \<le> X root_ptr"

text \<open>A count that can be increased.\<close>

definition room :: "fuse \<Rightarrow> addr \<Rightarrow> bool" where
  "room f a \<longleftrightarrow> (\<forall>n. nodes_of f a = Some n \<longrightarrow> unat (nd_refcount n) + 1 < 2 ^ 32)"

lemma held_node: "tree_ok G (links f) X \<Longrightarrow> 0 < X a \<Longrightarrow> \<exists>n. nodes_of f a = Some n"
  using tree_okD(9) [of G "links f" X a] links_none [of f a] by (cases "nodes_of f a") auto

lemma release_ok:
  assumes "fs_inv f X" and "0 < X a" and "2 \<le> (X(a := X a - 1)) root_ptr"
  shows "\<exists>f'. release a f = Ok f' \<and> fs_inv f' (X(a := X a - 1)) \<and> only_nodes f f' \<and> attr_map f' \<subseteq>\<^sub>m attr_map f \<and>
    parents_le {} f f'"
proof -
  have t: "tree_ok {} (links f) X" "live_ok {} (links f)" using assms(1) by (auto simp: fs_inv_def)
  obtain n where n: "nodes_of f a = Some n" using held_node [OF t(1) assms(2)] by blast
  have "2 * card (anc {} (links f) a) \<le> node_fuel f"
    using card_anc_heap [OF t(1), of a] links_some [OF n] by (simp add: node_fuel_def)
  from releasesD [OF releases_all t assms(2) _ assms(3) this]
  obtain f' where "release_node_locked (node_fuel f) a f = Ok f'" "release_post {} (X(a := X a - 1)) f f'" by auto
  then show ?thesis using assms(3) unfolding release_def fs_inv_def release_post_def by blast
qed

lemma remove_node_ok:
  assumes inv: "fs_inv f X" and n: "nodes_of f c = Some nc" and c: "c \<noteq> root_ptr"
  shows "\<exists>f'. remove_node_from_parent_locked (node_fuel f) c f = Ok f' \<and> tree_ok {c} (links f') X \<and> live_ok {c} (links f') \<and>
    nodes_of f' c = Some (nc\<lparr>nd_parent := None, nd_next := None\<rparr>) \<and> only_nodes f f' \<and> attr_map f' \<subseteq>\<^sub>m attr_map f \<and>
    parents_le {c} f f'"
proof -
  have t: "tree_ok {} (links f) X" "live_ok {} (links f)" "2 \<le> X root_ptr" using inv by (auto simp: fs_inv_def)
  note l = links_some [OF n]
  obtain p where p: "nd_parent nc = Some p"
    using tree_okD(6) [OF t(1) l] c by (auto simp: parent_ok_def split: option.splits)
  have k: "c \<in> kids {} (links f) p" using l p by (auto simp: kids_def)
  have fuel: "2 * card (anc {} (links f) p) + 2 \<le> node_fuel f"
    using anc_parent(3) [OF t(1) k] card_anc_heap [OF t(1), of c] l by (simp add: node_fuel_def)
  then obtain k where k': "node_fuel f = Suc k" "2 * card (anc {} (links f) p) \<le> k" by (cases "node_fuel f") auto
  have "live_ok (insert c {}) (links f)" using t(2) by (auto simp: live_ok_def)
  from remove_if [OF releases_all t(1) this k _ t(3) k'(2) n] show ?thesis unfolding k'(1) by blast
qed

lemma unat_succ: "unat (r :: u32) + 1 < 2 ^ 32 \<Longrightarrow> unat (r + 1) = Suc (unat r)"
  by (simp add: unat_add_u32)

lemma acquire_tree:
  assumes t: "tree_ok G (links f) X" and live: "live_ok G (links f)" and n: "nodes_of f a = Some n" and r: "room f a"
  shows "\<exists>f'. acquire_node_locked a f = Ok f' \<and> tree_ok G (links f') (X(a := Suc (X a))) \<and> live_ok G (links f') \<and>
    f' = set_node a (n\<lparr>nd_refcount := nd_refcount n + 1\<rparr>) f"
proof -
  let ?f = "set_node a (n\<lparr>nd_refcount := nd_refcount n + 1\<rparr>) f"
  have u: "unat (nd_refcount n + 1) = Suc (unat (nd_refcount n))" using r n by (simp add: room_def unat_succ)
  have "tree_ok G (links ?f) (X(a := Suc (X a)))"
    using tree_refs [OF t links_some [OF n], of "Suc (unat (nd_refcount n))" "Suc (X a)"] by (simp add: link_upd u)
  moreover have "live_ok G (links ?f)" using live by (simp add: live_ok_def link_upd u)
  ultimately show ?thesis using n by (simp add: acquire_node_locked_def get_node_ok)
qed

lemma acquire_ok:
  assumes inv: "fs_inv f X" and n: "nodes_of f a = Some n" and r: "room f a"
  shows "\<exists>f'. acquire_node_locked a f = Ok f' \<and> fs_inv f' (X(a := Suc (X a))) \<and> only_nodes f f' \<and> attr_map f' = attr_map f"
proof -
  have t: "tree_ok {} (links f) X" "live_ok {} (links f)" "2 \<le> X root_ptr" using inv by (auto simp: fs_inv_def)
  from acquire_tree [OF t(1,2) n r] t(3) show ?thesis
    by (auto simp: fs_inv_def attr_map_same [OF n])
qed

lemma attach_ok:
  assumes t: "tree_ok {c} (links f) X" and live: "live_ok {c} (links f)" and c: "nodes_of f c = Some nc" "nd_refcount nc \<noteq> 0"
    and p: "nodes_of f p = Some np" and ac: "c \<notin> anc {c} (links f) p" and r: "room f p" and root: "2 \<le> X root_ptr"
  shows "\<exists>f'. add_node_to_parent_locked c p f = Ok f' \<and> fs_inv f' X \<and> only_nodes f f' \<and> attr_map f' = attr_map f"
proof -
  have cp: "c \<noteq> p" using ac anc_self by auto
  let ?nc = "nc\<lparr>nd_parent := Some p, nd_next := nd_child np\<rparr>"
  let ?np = "np\<lparr>nd_child := Some c, nd_refcount := nd_refcount np + 1\<rparr>"
  let ?f = "set_node p ?np (set_node p (np\<lparr>nd_child := Some c\<rparr>) (set_node c ?nc f))"
  have u: "unat (nd_refcount np + 1) = Suc (unat (nd_refcount np))" using r p by (simp add: room_def unat_succ)
  have ok: "add_node_to_parent_locked c p f = Ok ?f"
    using c(1) p cp by (simp add: add_node_to_parent_locked_def acquire_node_locked_def get_node_nodes Let_def)
  have lf: "links ?f = (links f)(c \<mapsto> (link_of nc)\<lparr>lk_parent := Some p, lk_next := lk_child (link_of np)\<rparr>,
      p \<mapsto> (link_of np)\<lparr>lk_child := Some c, lk_refs := Suc (lk_refs (link_of np))\<rparr>)"
    by (simp add: link_upd u)
  have "tree_ok ({c} - {c}) (links ?f) X"
    unfolding lf using tree_attach [OF t _ links_some [OF c(1)] links_some [OF p] ac] by simp
  then have "tree_ok {} (links ?f) X" by simp
  moreover have "live_ok {} (links ?f)"
    using live c(2) [unfolded word_pos_unat] unfolding lf live_ok_def by auto
  moreover have "attr_map ?f = attr_map f"
    using c(1) p cp by (auto simp: attr_map_set attr_map_def fun_eq_iff)
  moreover have "only_nodes f ?f" using only_nodes_set(1) only_nodes_trans by blast
  ultimately show ?thesis using ok root by (auto simp: fs_inv_def)
qed

section \<open>Finding and creating children\<close>

lemma child_loop_ok:
  assumes "chain (links f) p xs" and "length xs \<le> k"
  shows "\<exists>c. child_loop k f p name = Ok c \<and>
    (\<forall>a. c = Some a \<longrightarrow> a \<in> set xs \<and> (\<exists>n. nodes_of f a = Some n \<and> nd_name n = name)) \<and>
    (c = None \<longrightarrow> (\<forall>a \<in> set xs. \<forall>n. nodes_of f a = Some n \<longrightarrow> nd_name n \<noteq> name))"
  using assms
proof (induction xs arbitrary: p k)
  case Nil
  then show ?case by (cases k) auto
next
  case (Cons x xs)
  obtain n where n: "p = Some x" "nodes_of f x = Some n" "chain (links f) (nd_next n) xs"
    using Cons.prems(1) unfolding chain_links_Cons by blast
  obtain j where k: "k = Suc j" "length xs \<le> j" using Cons.prems(2) by (cases k) auto
  show ?case
  proof (cases "name = nd_name n")
    case True
    then show ?thesis using n k by (intro exI [of _ "Some x"]) (simp add: get_node_ok)
  next
    case False
    obtain c where c: "child_loop j f (nd_next n) name = Ok c"
      "\<forall>a. c = Some a \<longrightarrow> a \<in> set xs \<and> (\<exists>n. nodes_of f a = Some n \<and> nd_name n = name)"
      "c = None \<longrightarrow> (\<forall>a \<in> set xs. \<forall>n. nodes_of f a = Some n \<longrightarrow> nd_name n \<noteq> name)"
      using Cons.IH [OF n(3) k(2)] by blast
    then show ?thesis using n k False by (intro exI [of _ c]) (auto simp: get_node_ok)
  qed
qed

lemma lookup_child_ok:
  assumes t: "tree_ok {} (links f) X" and p: "nodes_of f p = Some np"
  shows "\<exists>c. lookup_child_by_name_locked f p name = Ok c \<and>
    (\<forall>a. c = Some a \<longrightarrow> a \<in> kids {} (links f) p \<and> (\<exists>n. nodes_of f a = Some n \<and> nd_name n = name)) \<and>
    (c = None \<longrightarrow> (\<forall>a \<in> kids {} (links f) p. \<forall>n. nodes_of f a = Some n \<longrightarrow> nd_name n \<noteq> name))"
proof -
  obtain xs where xs: "chain (links f) (nd_child np) xs" "distinct xs" "set xs = kids {} (links f) p"
    using tree_okD(7) [OF t links_some [OF p]] by (auto simp: siblings_ok_def)
  have "set xs \<subseteq> dom (nodes_of f)" using chain_dom [OF xs(1)] by (simp add: dom_links)
  then have "length xs \<le> length (node_heap f)" using distinct_chain_length xs(2) by blast
  from child_loop_ok [OF xs(1) this, of name] show ?thesis
    using p xs(3) by (simp add: lookup_child_by_name_locked_def get_node_ok)
qed

text \<open>Permissions aside, a node is not changed by deriving them.\<close>

definition core :: "node \<Rightarrow> node" where
  "core n = n\<lparr>nd_perm := PERM_INHERIT, nd_userid := 0, nd_uid := 0, nd_gid := 0, nd_mode := 0, nd_graft_path := None,
     nd_graft_pathlen := 0\<rparr>"

lemma core_upd [simp]:
  "core (n\<lparr>nd_perm := a\<rparr>) = core n" "core (n\<lparr>nd_userid := b\<rparr>) = core n" "core (n\<lparr>nd_uid := b\<rparr>) = core n"
  "core (n\<lparr>nd_gid := b\<rparr>) = core n" "core (n\<lparr>nd_mode := b\<rparr>) = core n" "core (n\<lparr>nd_graft_path := g\<rparr>) = core n"
  "core (n\<lparr>nd_graft_pathlen := b\<rparr>) = core n"
  by (simp_all add: core_def)

lemma core_app: "app_directory f p n = Ok n' \<Longrightarrow> core n' = core n"
  by (auto simp: app_directory_def)

lemma derive_core:
  assumes "derive_permissions_locked f p n = Ok n'"
  shows "core n' = core n"
proof (cases "derive f = DERIVE_NONE")
  case True
  then show ?thesis using assms by (auto simp: derive_permissions_locked_def Let_def)
next
  case False
  define n0 where "n0 = n\<lparr>nd_perm := PERM_INHERIT, nd_userid := nd_userid p, nd_uid := nd_uid p, nd_gid := nd_gid p,
    nd_mode := nd_mode p\<rparr>"
  have c: "core n0 = core n" by (simp add: n0_def)
  show ?thesis
    using assms False core_app [of f p n0 n'] c
    unfolding derive_permissions_locked_def Let_def n0_def [symmetric]
    by (cases "nd_perm p") auto
qed

lemma derive_links:
  assumes "derive_permissions_locked f p n = Ok n'"
  shows "link_of n' = link_of n" and "nd_name n' = nd_name n" and "nd_nid n' = nd_nid n" and "nd_namelen n' = nd_namelen n"
    and "nd_actual_name n' = nd_actual_name n" and "nd_gen n' = nd_gen n"
proof -
  have sel: "link_of (core m) = link_of m" "nd_name (core m) = nd_name m" "nd_nid (core m) = nd_nid m"
    "nd_namelen (core m) = nd_namelen m" "nd_actual_name (core m) = nd_actual_name m" "nd_gen (core m) = nd_gen m" for m
    by (simp_all add: core_def link_of_def)
  note c = derive_core [OF assms]
  show "link_of n' = link_of n" "nd_name n' = nd_name n" "nd_nid n' = nd_nid n" "nd_namelen n' = nd_namelen n"
    "nd_actual_name n' = nd_actual_name n" "nd_gen n' = nd_gen n"
    using sel [of n] sel [of n'] unfolding c by simp_all
qed

text \<open>The tables are there unless no permissions are derived, and their lookups do not fault.\<close>

definition tables_ok :: "fuse \<Rightarrow> bool" where
  "tables_ok f \<longleftrightarrow> derive f \<noteq> DERIVE_NONE \<longrightarrow>
     (\<forall>name. \<exists>v. lookup_appid f name = Ok v) \<and> (\<forall>hdr. \<exists>b. get_caller_has_rw_locked f hdr = Ok b)"

lemma derive_ok:
  assumes "tables_ok f"
  shows "\<exists>n'. derive_permissions_locked f p n = Ok n'"
proof (cases "derive f = DERIVE_NONE")
  case False
  then have "\<exists>v. lookup_appid f name = Ok v" for name using assms by (simp add: tables_ok_def)
  then have "\<exists>n'. app_directory f p m = Ok n'" for m by (simp add: app_directory_def)
  then show ?thesis by (cases "nd_perm p") (simp_all add: derive_permissions_locked_def Let_def)
qed (simp add: derive_permissions_locked_def Let_def)

lemma has_rw_ok: "tables_ok f \<Longrightarrow> \<exists>b. get_caller_has_rw_locked f hdr = Ok b"
  by (cases "derive f = DERIVE_NONE") (auto simp: tables_ok_def get_caller_has_rw_locked_def)

definition gen_next :: "fuse \<Rightarrow> fuse" where
  "gen_next f = f\<lparr>next_generation := next_generation f + 1\<rparr>"

lemma gen_next_sel [simp]:
  "nodes_of (gen_next f) = nodes_of f" "links (gen_next f) = links f" "attr_map (gen_next f) = attr_map f"
  "derive (gen_next f) = derive f" "split_perms (gen_next f) = split_perms f" "obbpath (gen_next f) = obbpath f"
  "lookup_appid (gen_next f) = lookup_appid f"
  by (simp_all add: gen_next_def nodes_of_def links_def attr_map_def lookup_appid_def fun_eq_iff)

lemma gen_next_derive [simp]:
  "app_directory (gen_next f) = app_directory f"
  "derive_permissions_locked (gen_next f) = derive_permissions_locked f"
proof -
  show a: "app_directory (gen_next f) = app_directory f" by (intro ext) (simp only: app_directory_def gen_next_sel)
  show "derive_permissions_locked (gen_next f) = derive_permissions_locked f"
    by (intro ext) (simp only: derive_permissions_locked_def gen_next_sel a)
qed

text \<open>The node that \<open>create_node_locked\<close> makes, before it has links.\<close>

definition fresh_node :: "addr \<Rightarrow> string \<Rightarrow> string \<Rightarrow> fuse \<Rightarrow> node" where
  "fresh_node a name actual_name f =
     blank_node\<lparr>nd_name := name, nd_actual_name := (if name \<noteq> actual_name then Some (take (length name) actual_name) else None),
       nd_namelen := of_nat (length name), nd_nid := ptr_to_id a, nd_gen := next_generation f\<rparr>"

lemma create_ok_node:
  assumes inv: "fs_inv f X" and tab: "tables_ok f" and p: "nodes_of f p = Some np" and r: "room f p"
    and fresh: "\<And>a. os_node os = Some a \<Longrightarrow> nodes_of f a = None"
  shows "create_node_locked os p name actual_name f = Ok (None, f) \<or>
    (\<exists>a f' n. create_node_locked os p name actual_name f = Ok (Some a, f') \<and> os_node os = Some a \<and>
       fs_inv f' (X(a := 1)) \<and> only_nodes (gen_next f) f' \<and>
       derive_permissions_locked f np (fresh_node a name actual_name f) = Ok n \<and>
       attr_map f' = (attr_map f)(a \<mapsto> attrs n))"
proof (cases "os_node os = None \<or> \<not> os_name os \<or> name \<noteq> actual_name \<and> \<not> os_actual os")
  case True
  then show ?thesis by (auto simp: create_node_locked_def split: option.splits)
next
  case False
  then obtain a where a: "os_node os = Some a" by auto
  have t: "tree_ok {} (links f) X" "live_ok {} (links f)" "2 \<le> X root_ptr" using inv by (auto simp: fs_inv_def)
  have na: "nodes_of f a = None" by (rule fresh [OF a])
  have ap: "a \<noteq> p" using na p by auto
  let ?n0 = "fresh_node a name actual_name f"
  obtain n where n: "derive_permissions_locked f np ?n0 = Ok n" using derive_ok [OF tab] by blast
  define n1 where "n1 = n\<lparr>nd_refcount := nd_refcount n + 1\<rparr>"
  have l0: "nd_refcount n = 0" "nd_child n = None" "nd_next n = None" "nd_parent n = None"
    using derive_links(1) [OF n] by (simp_all add: link_of_def fresh_node_def blank_node_def unat_eq_zero)
  define f2 where "f2 = set_node a n1 (set_node a n (gen_next f))"
  have acq: "acquire_node_locked a (set_node a n (gen_next f)) = Ok f2"
    by (simp add: acquire_node_locked_def get_node_nodes f2_def n1_def)
  have lf2: "links f2 = (links f)(a \<mapsto> link_of n1)" by (simp add: f2_def)
  have refs: "lk_refs (link_of n1) = 1" "lk_child (link_of n1) = None" by (simp_all add: n1_def l0)
  have t2: "tree_ok {a} (links f2) (X(a := 1))"
    using tree_new [OF t(1), of a "link_of n1"] refs na unfolding lf2 by (simp add: links_none)
  have live2: "live_ok {a} (links f2)" using t(2) unfolding lf2 by (auto simp: live_ok_def)
  have p2: "nodes_of f2 p = Some np" "nodes_of f2 a = Some n1" using p ap by (simp_all add: f2_def)
  have "anc {a} (links f2) p \<subseteq> anc {} (links f) p"
    by (rule anc_mono) (auto simp: par_def kids_def lf2)
  moreover have "a \<notin> anc {} (links f) p"
    using anc_sub [OF t(1), of p] na ap unfolding dom_links by blast
  ultimately have "a \<notin> anc {a} (links f2) p" by blast
  moreover have "room f2 p" using r p2(1) p by (simp add: room_def)
  moreover have "2 \<le> (X(a := 1)) root_ptr" using t(3) tree_okD(3) [OF t(1)] na links_none [of f a] by auto
  moreover have "nd_refcount n1 \<noteq> 0" by (simp add: n1_def l0)
  ultimately obtain f3 where f3: "add_node_to_parent_locked a p f2 = Ok f3" "fs_inv f3 (X(a := 1))" "only_nodes f2 f3"
    "attr_map f3 = attr_map f2"
    using attach_ok [OF t2 live2 p2(2) _ p2(1)] by blast
  have at2: "attr_map f2 = (attr_map f)(a \<mapsto> attrs n)" by (simp add: f2_def attr_map_set n1_def)
  have "create_node_locked os p name actual_name f = Ok (Some a, f3)"
    using False a n acq f3(1) p
    by (simp add: create_node_locked_def Let_def get_node_ok flip: gen_next_def fresh_node_def) 
  moreover have "only_nodes (gen_next f) f3"
    using f3(3) only_nodes_set(1) only_nodes_trans unfolding f2_def by blast
  moreover have "attr_map f3 = (attr_map f)(a \<mapsto> attrs n)" using f3(4) at2 by simp
  ultimately show ?thesis using a f3(2) n by blast
qed

end
