(* ===== verification/Sdcard_Path.thy ===== *)
theory Sdcard_Path
  imports Sdcard_Refs
begin

text \<open>
  The path of a node: \<open>get_node_path_locked\<close> builds the names from the root, or from the last grafted directory, with
  slashes between them, and what it does when the path is long.
\<close>

definition label :: "node \<Rightarrow> string" where
  "label n = (case node_label n of (name, namelen) \<Rightarrow> take (unat namelen) name)"

text \<open>The path itself, and the room the recursion reserves for it: two characters for every name beside the name.\<close>

fun full_path :: "nat \<Rightarrow> fuse \<Rightarrow> addr \<Rightarrow> string" where
  "full_path 0 f a = []"
| "full_path (Suc k) f a =
     (case nodes_of f a of
        None \<Rightarrow> []
      | Some n \<Rightarrow>
          (case (nd_parent n, nd_graft_path n) of
             (Some p, None) \<Rightarrow> full_path k f p @ ''/'' @ label n
           | _ \<Rightarrow> label n))"

fun reserve :: "nat \<Rightarrow> fuse \<Rightarrow> addr \<Rightarrow> nat" where
  "reserve 0 f a = 0"
| "reserve (Suc k) f a =
     (case nodes_of f a of
        None \<Rightarrow> 0
      | Some n \<Rightarrow>
          (case (nd_parent n, nd_graft_path n) of
             (Some p, None) \<Rightarrow> reserve k f p + unat (snd (node_label n)) + 2
           | _ \<Rightarrow> unat (snd (node_label n)) + 1))"

text \<open>The lengths kept in a node are those of its strings.\<close>

definition label_ok :: "node \<Rightarrow> bool" where
  "label_ok n \<longleftrightarrow> length (fst (node_label n)) = unat (snd (node_label n)) \<and> unat (snd (node_label n)) + 1 < 2 ^ 32"

lemma length_label: "label_ok n \<Longrightarrow> length (label n) = unat (snd (node_label n))"
  by (simp add: label_def label_ok_def split_beta)

text \<open>One level of the recursion: below a parent, and at the root or a grafted directory.\<close>

definition on_top :: "node \<Rightarrow> bool" where
  "on_top n \<longleftrightarrow> nd_parent n = None \<or> nd_graft_path n \<noteq> None"

lemma path_level:
  assumes n: "nodes_of f a = Some n"
  shows "on_top n \<Longrightarrow> get_node_path_locked (Suc k) f a cap b =
      (if b < snd (node_label n) + 1 then Ok None
       else if unat (snd (node_label n)) + 1 \<le> cap then Ok (Some (label n)) else Fault Out_Of_Bounds)"
    and "\<not> on_top n \<Longrightarrow> nd_parent n = Some p \<Longrightarrow> get_node_path_locked (Suc k) f a cap b =
      (if b < snd (node_label n) + 1 then Ok None
       else case get_node_path_locked k f p cap (b - snd (node_label n) - 2) of
              Fault e \<Rightarrow> Fault e
            | Ok None \<Rightarrow> Ok None
            | Ok (Some buf) \<Rightarrow>
                if length buf + unat (snd (node_label n)) + 2 \<le> cap then Ok (Some (buf @ ''/'' @ label n))
                else Fault Out_Of_Bounds)"
proof -
  obtain name l where l: "node_label n = (name, l)" by (cases "node_label n")
  show "get_node_path_locked (Suc k) f a cap b =
      (if b < snd (node_label n) + 1 then Ok None
       else if unat (snd (node_label n)) + 1 \<le> cap then Ok (Some (label n)) else Fault Out_Of_Bounds)" if "on_top n"
    using that n l by (cases "nd_parent n"; cases "nd_graft_path n") (auto simp: on_top_def get_node_ok label_def)
  show "get_node_path_locked (Suc k) f a cap b =
      (if b < snd (node_label n) + 1 then Ok None
       else case get_node_path_locked k f p cap (b - snd (node_label n) - 2) of
              Fault e \<Rightarrow> Fault e
            | Ok None \<Rightarrow> Ok None
            | Ok (Some buf) \<Rightarrow>
                if length buf + unat (snd (node_label n)) + 2 \<le> cap then Ok (Some (buf @ ''/'' @ label n))
                else Fault Out_Of_Bounds)" if "\<not> on_top n" "nd_parent n = Some p"
    using that n l
    by (cases "get_node_path_locked k f p cap (b - l - 2)") (auto simp: on_top_def get_node_ok label_def split: option.splits)
qed

declare get_node_path_locked.simps(2) [simp del]

lemma path_dead: "nodes_of f a = None \<Longrightarrow> get_node_path_locked (Suc k) f a cap b = Fault Use_After_Free"
  by (simp add: get_node_path_locked.simps(2) get_node_nodes)

lemma full_level:
  assumes n: "nodes_of f a = Some n"
  shows "on_top n \<Longrightarrow> full_path (Suc k) f a = label n"
    and "\<not> on_top n \<Longrightarrow> nd_parent n = Some p \<Longrightarrow> full_path (Suc k) f a = full_path k f p @ ''/'' @ label n"
    and "on_top n \<Longrightarrow> reserve (Suc k) f a = unat (snd (node_label n)) + 1"
    and "\<not> on_top n \<Longrightarrow> nd_parent n = Some p \<Longrightarrow> reserve (Suc k) f a = reserve k f p + unat (snd (node_label n)) + 2"
  using n by (auto simp: on_top_def split: option.splits)

declare full_path.simps(2) [simp del] reserve.simps(2) [simp del]

lemma not_on_top: "\<not> on_top n \<Longrightarrow> \<exists>p. nd_parent n = Some p"
  by (auto simp: on_top_def)

text \<open>What the walk along the parents can end in.\<close>

lemma path_parent:
  assumes t: "tree_ok {} (links f) X" and n: "nodes_of f a = Some n" "nd_parent n = Some p"
    and k: "card (anc {} (links f) a) \<le> Suc k"
  shows "nodes_of f p \<noteq> None" and "card (anc {} (links f) p) \<le> k"
proof -
  have kid: "a \<in> kids {} (links f) p" using links_some [OF n(1)] n(2) by (auto simp: kids_def)
  show "nodes_of f p \<noteq> None" using kid_parent(2) [OF t kid] unfolding dom_links by blast
  show "card (anc {} (links f) p) \<le> k" using anc_parent(3) [OF t kid] k by linarith
qed

lemma path_outcome:
  assumes t: "tree_ok {} (links f) X" and a: "nodes_of f a \<noteq> None" and k: "card (anc {} (links f) a) \<le> k"
  shows "(\<exists>r. get_node_path_locked k f a cap b = Ok r) \<or> get_node_path_locked k f a cap b = Fault Out_Of_Bounds"
  using a k
proof (induction k arbitrary: a b)
  case 0
  then show ?case using anc_pos [OF t, of a] by simp
next
  case (Suc k)
  obtain n where n: "nodes_of f a = Some n" using Suc.prems(1) by blast
  show ?case
  proof (cases "on_top n")
    case True
    then show ?thesis by (simp add: path_level(1) [OF n])
  next
    case False
    then obtain p where p: "nd_parent n = Some p" using not_on_top by blast
    note pp = path_parent [OF t n p Suc.prems(2)]
    show ?thesis
      using Suc.IH [OF pp, of "b - snd (node_label n) - 2"]
      by (auto simp: path_level(2) [OF n False p] split: option.splits)
  qed
qed

lemma node_path_outcome:
  assumes t: "tree_ok {} (links f) X" and a: "nodes_of f a = Some n"
  shows "(\<exists>r. node_path f a = Ok r) \<or> node_path f a = Fault Out_Of_Bounds"
  unfolding node_path_def
  by (rule path_outcome [OF t]) (use a card_anc_heap [OF t, of a] links_some [OF a] in auto)

lemma path_exact:
  assumes "get_node_path_locked k f a cap b = Ok (Some s)"
  shows "s = full_path k f a"
  using assms
proof (induction k arbitrary: a b s)
  case (Suc k)
  obtain n where n: "nodes_of f a = Some n" using Suc.prems by (cases "nodes_of f a") (auto simp: path_dead)
  show ?case
  proof (cases "on_top n")
    case True
    then show ?thesis using Suc.prems by (simp add: path_level(1) [OF n] full_level(1) [OF n] split: if_splits)
  next
    case False
    then obtain p where p: "nd_parent n = Some p" using not_on_top by blast
    then show ?thesis
      using Suc.prems Suc.IH
      by (auto simp: path_level(2) [OF n False p] full_level(2) [OF n False p] split: if_splits outcome.splits option.splits)
  qed
qed simp

lemma path_fits:
  assumes "length (full_path k f a) < cap" and lab: "\<And>c n. nodes_of f c = Some n \<Longrightarrow> label_ok n"
  shows "get_node_path_locked k f a cap b \<noteq> Fault Out_Of_Bounds"
  using assms(1)
proof (induction k arbitrary: a b)
  case (Suc k)
  show ?case
  proof (cases "nodes_of f a")
    case None
    then show ?thesis by (simp add: path_dead)
  next
    case n: (Some n)
    note l = length_label [OF lab [OF n]]
    show ?thesis
    proof (cases "on_top n")
      case True
      then show ?thesis using Suc.prems l by (simp add: path_level(1) [OF n] full_level(1) [OF n])
    next
      case False
      then obtain p where p: "nd_parent n = Some p" using not_on_top by blast
      have len: "length (full_path k f p) + 1 + unat (snd (node_label n)) < cap"
        using Suc.prems l by (simp add: full_level(2) [OF n False p])
      let ?r = "get_node_path_locked k f p cap (b - snd (node_label n) - 2)"
      have "?r \<noteq> Fault Out_Of_Bounds" using len by (intro Suc.IH) simp
      moreover have "length s + unat (snd (node_label n)) + 2 \<le> cap" if "?r = Ok (Some s)" for s
        using path_exact [OF that] len by simp
      ultimately show ?thesis
        unfolding path_level(2) [OF n False p] by (cases ?r) (auto split: option.splits)
    qed
  qed
qed simp

lemma path_reserved:
  assumes t: "tree_ok {} (links f) X" and a: "nodes_of f a \<noteq> None" and k: "card (anc {} (links f) a) \<le> k"
    and lab: "\<And>c n. nodes_of f c = Some n \<Longrightarrow> label_ok n" and b: "reserve k f a \<le> unat b"
  shows "get_node_path_locked k f a cap b \<noteq> Ok None"
  using a k b
proof (induction k arbitrary: a b)
  case (Suc k)
  obtain n where n: "nodes_of f a = Some n" using Suc.prems(1) by blast
  let ?l = "snd (node_label n)"
  have l1: "unat (?l + 1) = unat ?l + 1" using lab [OF n] by (simp add: label_ok_def unat_succ)
  show ?case
  proof (cases "on_top n")
    case True
    then have "\<not> b < ?l + 1" using Suc.prems(3) l1 by (simp add: full_level(3) [OF n] word_less_nat_alt)
    then show ?thesis using True by (simp add: path_level(1) [OF n])
  next
    case False
    then obtain p where p: "nd_parent n = Some p" using not_on_top by blast
    have r: "reserve k f p + unat ?l + 2 \<le> unat b" using Suc.prems(3) by (simp add: full_level(4) [OF n False p])
    have nb: "\<not> b < ?l + 1" using r l1 by (simp add: word_less_nat_alt)
    have lb: "?l \<le> b" using r by (simp add: word_le_nat_alt)
    have s1: "unat (b - ?l) = unat b - unat ?l" by (rule unat_sub_u32 [OF lb])
    have "2 \<le> b - ?l" using r s1 by (simp add: word_le_nat_alt)
    then have "unat (b - ?l - 2) = unat b - unat ?l - 2" using s1 by (simp add: unat_sub_u32)
    then have rp: "reserve k f p \<le> unat (b - ?l - 2)" using r by simp
    have "get_node_path_locked k f p cap (b - ?l - 2) \<noteq> Ok None"
      by (rule Suc.IH [OF path_parent [OF t n p Suc.prems(2)] rp])
    then show ?thesis
      unfolding path_level(2) [OF n False p] using nb by (auto split: option.splits outcome.splits)
  qed
qed simp

text \<open>
  The subtraction that computes the room for the parent wraps around when the name fits exactly: the levels above are told
  that there is room for everything, and a path that is too long is written past the buffer.
\<close>

lemma path_wraps:
  assumes t: "tree_ok {} (links f) X" and n: "nodes_of f a = Some n" and top: "\<not> on_top n"
    and k: "card (anc {} (links f) a) \<le> Suc k" and lab: "\<And>c n. nodes_of f c = Some n \<Longrightarrow> label_ok n"
    and r: "reserve (Suc k) f a < 2 ^ 32" and long: "cap \<le> length (full_path (Suc k) f a)"
  shows "get_node_path_locked (Suc k) f a cap (snd (node_label n) + 1) = Fault Out_Of_Bounds"
proof -
  obtain p where p: "nd_parent n = Some p" using not_on_top [OF top] by blast
  let ?l = "snd (node_label n)"
  have m: "?l + 1 - ?l - 2 = - 1" by simp
  have "unat (- 1 :: u32) = 2 ^ 32 - 1" by (simp add: unsigned_minus_1_eq_mask mask_eq_exp_minus_1)
  then have rp: "reserve k f p \<le> unat (- 1 :: u32)" using r by (simp add: full_level(4) [OF n top p])
  note pp = path_parent [OF t n p k]
  have "get_node_path_locked k f p cap (- 1) \<noteq> Ok None" by (rule path_reserved [OF t pp lab rp])
  moreover have "\<not> length s + unat ?l + 2 \<le> cap" if "get_node_path_locked k f p cap (- 1) = Ok (Some s)" for s
    using path_exact [OF that] long length_label [OF lab [OF n]] by (simp add: full_level(2) [OF n top p])
  ultimately show ?thesis
    using path_outcome [OF t pp, of cap "- 1"] unfolding path_level(2) [OF n top p] m by (auto split: option.splits)
qed

end
