(* ===== verification/Sdcard_Packages.thy ===== *)
theory Sdcard_Packages
  imports Sdcard_Refs Hashmap_Props
begin

text \<open>
  The two tables filled from the package list.

  \<open>package_to_appid\<close> compares keys without case but hashes them with it, so the equality the table works with is
  \<open>key_eq\<close>: equal without case and with equal hashes. With that equality it is a table in order, and every lookup and
  update is the one of a map.
\<close>

definition key_eq :: "key \<Rightarrow> key \<Rightarrow> bool" where
  "key_eq a b \<longleftrightarrow> mix_hash (str_hash a) = mix_hash (str_hash b) \<and> str_icase_equals a b"

interpretation pkgk: hash_keys str_hash key_eq
proof
  show "key_eq a a" for a by (simp add: key_eq_def str_icase_equals_def)
  show "key_eq a b \<Longrightarrow> key_eq b a" for a b
    using strcaseeq_sym by (auto simp: key_eq_def str_icase_equals_def)
  show "key_eq a b \<Longrightarrow> key_eq b c \<Longrightarrow> key_eq a c" for a b c
    using strcaseeq_trans by (auto simp: key_eq_def str_icase_equals_def)
  show "key_eq a b \<Longrightarrow> mix_hash (str_hash a) = mix_hash (str_hash b)" for a b by (simp add: key_eq_def)
qed

interpretation appk: hash_keys int_hash int_equals
  by unfold_locales (simp_all add: int_hash_def int_equals_def)

section \<open>The package table as a table in order\<close>

definition strict :: "(key, u32) Hashmap \<Rightarrow> (key, u32) Hashmap" where
  "strict m = m\<lparr>hm_equals := key_eq\<rparr>"

definition pkg_ok :: "(key, u32) Hashmap \<Rightarrow> bool" where
  "pkg_ok m \<longleftrightarrow> hm_ok str_hash key_eq (strict m) \<and> hm_equals m = str_icase_equals"

lemma strict_sel [simp]:
  "buckets (strict m) = buckets m" "bucketCount (strict m) = bucketCount m" "hm_size (strict m) = hm_size m"
  "hm_hash (strict m) = hm_hash m" "hashKey (strict m) = hashKey m" "entries (strict m) = entries m"
  "bucket_at (strict m) = bucket_at m"
  by (simp_all add: strict_def hashKey_def entries_def bucket_at_def fun_eq_iff)

lemma strict_equals: "hm_equals (strict m) = key_eq"
  by (simp add: strict_def)

lemma strict_upd: "strict (m\<lparr>buckets := b\<rparr>) = (strict m)\<lparr>buckets := b\<rparr>" "strict (m\<lparr>hm_size := n\<rparr>) = (strict m)\<lparr>hm_size := n\<rparr>"
  "strict (m\<lparr>bucketCount := c\<rparr>) = (strict m)\<lparr>bucketCount := c\<rparr>"
  by (simp_all add: strict_def)

lemma strict_expand: "expandIfNecessary ok (strict m) = strict (expandIfNecessary ok m)"
  by (simp add: expandIfNecessary_def Let_def strict_upd)

lemma equals_expand: "hm_equals (expandIfNecessary ok m) = hm_equals m"
  by (simp add: expandIfNecessary_def Let_def)

lemma strict_find:
  assumes "\<forall>e \<in> set ch. ent_hash e = mix_hash (str_hash (ent_key e))"
  shows "chain_find str_icase_equals key (mix_hash (str_hash key)) ch =
    chain_find key_eq key (mix_hash (str_hash key)) ch"
proof -
  have "equalKeys (ent_key e) (ent_hash e) key (mix_hash (str_hash key)) str_icase_equals =
      equalKeys (ent_key e) (ent_hash e) key (mix_hash (str_hash key)) key_eq" if "e \<in> set ch" for e
    using that assms by (simp add: equalKeys_def key_eq_def)
  then show ?thesis by (induction ch) auto
qed

lemma pkg_chain:
  assumes ok: "pkg_ok m"
  shows "hm_hash m = str_hash" and "bucket_at m (calculateIndex (bucketCount m) (hashKey m key)) = Ok (chain_of m key)"
    and "chain_find str_icase_equals key (hashKey m key) (chain_of m key) =
      chain_find key_eq key (hashKey m key) (chain_of m key)"
proof -
  have s: "hm_ok str_hash key_eq (strict m)" using ok by (simp add: pkg_ok_def)
  show h: "hm_hash m = str_hash" using s by (simp add: hm_ok_def)
  have c: "chain_of (strict m) key = chain_of m key" by (simp add: chain_of_def)
  show "bucket_at m (calculateIndex (bucketCount m) (hashKey m key)) = Ok (chain_of m key)"
    using pkgk.chain_of_at(2) [OF s, of key] by (simp add: c)
  have "set (chain_of m key) \<subseteq> set (entries m)" using pkgk.chain_of_at(3) [OF s, of key] by (simp add: c)
  then have "\<forall>e \<in> set (chain_of m key). ent_hash e = mix_hash (str_hash (ent_key e))"
    using s by (auto simp: hm_ok_def)
  from strict_find [OF this, of key]
  show "chain_find str_icase_equals key (hashKey m key) (chain_of m key) =
      chain_find key_eq key (hashKey m key) (chain_of m key)" by (simp add: hashKey_def h)
qed

lemma pkg_get: "pkg_ok m \<Longrightarrow> hashmapGet m key = hashmapGet (strict m) key"
  using pkg_chain(2,3) [of m key] by (simp add: hashmapGet_def Let_def pkg_ok_def strict_equals)

lemma pkg_put:
  assumes ok: "pkg_ok m"
  shows "hashmapPut a b e (strict m) key v =
    (case hashmapPut a b e m key v of Ok (old, e', m') \<Rightarrow> Ok (old, e', strict m') | Fault x \<Rightarrow> Fault x)"
    and "hashmapPut a b e m key v = Ok (old, e', m') \<Longrightarrow> hm_equals m' = hm_equals m"
proof -
  note c = pkg_chain(2,3) [OF ok, of key]
  have i: "hm_equals m = str_icase_equals" "hm_equals (strict m) = key_eq" using ok by (simp_all add: pkg_ok_def strict_def)
  show "hashmapPut a b e (strict m) key v =
    (case hashmapPut a b e m key v of Ok (old, e', m') \<Rightarrow> Ok (old, e', strict m') | Fault x \<Rightarrow> Fault x)"
    using c i
    by (auto simp: hashmapPut_def Let_def strict_upd strict_expand [symmetric] split: option.splits)
  show "hm_equals m' = hm_equals m" if "hashmapPut a b e m key v = Ok (old, e', m')"
    using that by (auto simp: hashmapPut_def Let_def equals_expand split: option.splits)
qed

lemma pkg_remove:
  assumes ok: "pkg_ok m"
  shows "hashmapRemove (strict m) key =
    (case hashmapRemove m key of Ok (old, m') \<Rightarrow> Ok (old, strict m') | Fault x \<Rightarrow> Fault x)"
    and "hashmapRemove m key = Ok (old, m') \<Longrightarrow> hm_equals m' = hm_equals m"
proof -
  note c = pkg_chain(2,3) [OF ok, of key]
  have i: "hm_equals m = str_icase_equals" "hm_equals (strict m) = key_eq" using ok by (simp_all add: pkg_ok_def strict_def)
  show "hashmapRemove (strict m) key =
    (case hashmapRemove m key of Ok (old, m') \<Rightarrow> Ok (old, strict m') | Fault x \<Rightarrow> Fault x)"
    using c i by (auto simp: hashmapRemove_def Let_def strict_upd split: option.splits)
  show "hm_equals m' = hm_equals m" if "hashmapRemove m key = Ok (old, m')"
    using that by (auto simp: hashmapRemove_def Let_def split: option.splits)
qed

lemma pkg_put_ok:
  assumes ok: "pkg_ok m" and size: "unat (hm_size m) < 2 ^ 29"
  shows "\<exists>old m'. hashmapPut True True e m key v = Ok (old, e, m') \<and> pkg_ok m' \<and>
    hm_view (strict m') = (\<lambda>k. if key_eq key k then Some v else hm_view (strict m) k) \<and>
    unat (hm_size m') \<le> Suc (unat (hm_size m)) \<and>
    image_mset ent_key (mset (entries m')) \<subseteq># add_mset key (image_mset ent_key (mset (entries m)))"
proof -
  have s: "hm_ok str_hash key_eq (strict m)" "unat (hm_size (strict m)) < 2 ^ 29" using ok size by (simp_all add: pkg_ok_def)
  obtain old m1 where m1: "hashmapPut True True e (strict m) key v = Ok (old, e, m1)" "hm_ok str_hash key_eq m1"
    "hm_view m1 = (\<lambda>k. if key_eq key k then Some v else hm_view (strict m) k)" "unat (hm_size m1) \<le> Suc (unat (hm_size m))"
    using pkgk.put_ok [OF s, of True e key v] by (auto split: if_splits)
  obtain m' where m': "hashmapPut True True e m key v = Ok (old, e, m')" "m1 = strict m'"
    using m1(1) unfolding pkg_put(1) [OF ok] by (auto split: outcome.splits)
  have "image_mset ent_key (mset (entries m1)) \<subseteq># add_mset key (image_mset ent_key (mset (entries m)))"
    using pkgk.put_step [OF s, of True e key v] m1(1) by auto
  then show ?thesis
    using m' m1(2-4) pkg_put(2) [OF ok m'(1)] ok by (intro exI [of _ old] exI [of _ m']) (simp add: pkg_ok_def)
qed

section \<open>Emptying the tables\<close>

text \<open>The keys of the package table are allocated.\<close>

definition pk_inv :: "fuse \<Rightarrow> bool" where
  "pk_inv f \<longleftrightarrow> (\<exists>m a. package_to_appid f = Some m \<and> appid_with_rw f = Some a \<and> pkg_ok m \<and> hm_ok int_hash int_equals a \<and>
     image_mset (\<lambda>e. fst (ent_key e)) (mset (entries m)) \<subseteq># mset (key_heap f))"

text \<open>The state without the tables and their keys.\<close>

definition rest :: "fuse \<Rightarrow> fuse" where
  "rest f = f\<lparr>package_to_appid := None, appid_with_rw := None, key_heap := [], key_next := 0\<rparr>"

lemma rest_upd [simp]:
  "rest (f\<lparr>package_to_appid := m\<rparr>) = rest f" "rest (f\<lparr>appid_with_rw := a\<rparr>) = rest f" "rest (f\<lparr>key_heap := k\<rparr>) = rest f"
  "rest (f\<lparr>key_next := n\<rparr>) = rest f"
  by (simp_all add: rest_def)

lemma rest_sel:
  assumes "rest f = rest g"
  shows "derive f = derive g" and "write_gid f = write_gid g" and "node_heap f = node_heap g" and "nodes_of f = nodes_of g"
    and "links f = links g" and "attr_map f = attr_map g"
proof -
  have "derive (rest f) = derive (rest g)" "write_gid (rest f) = write_gid (rest g)" "node_heap (rest f) = node_heap (rest g)"
    using assms by simp_all
  then show "derive f = derive g" "write_gid f = write_gid g" and n: "node_heap f = node_heap g" by (simp_all add: rest_def)
  then show "nodes_of f = nodes_of g" "links f = links g" "attr_map f = attr_map g"
    by (simp_all add: nodes_of_def links_def attr_map_def)
qed

lemma clear_packages:
  "clearing (\<lambda>s. pk_inv s \<and> rest s = rest f0) (\<lambda>f. the (package_to_appid f)) remove_str_to_int"
  unfolding clearing_def
proof (intro conjI allI impI)
  fix s i e es
  assume inv: "pk_inv s \<and> rest s = rest f0"
    and i: "i < length (buckets (the (package_to_appid s)))" "buckets (the (package_to_appid s)) ! i = e # es"
  obtain m a where m: "package_to_appid s = Some m" "appid_with_rw s = Some a" "pkg_ok m" "hm_ok int_hash int_equals a"
    "image_mset (\<lambda>e. fst (ent_key e)) (mset (entries m)) \<subseteq># mset (key_heap s)" using inv by (auto simp: pk_inv_def)
  have hm: "hm_ok str_hash key_eq (strict m)" using m(3) by (simp add: pkg_ok_def)
  let ?m = "m\<lparr>buckets := (buckets m)[i := es], hm_size := hm_size m - 1\<rparr>"
  have r: "hashmapRemove (strict m) (ent_key e) = Ok (ent_value e, strict ?m)" "hm_ok str_hash key_eq (strict ?m)"
    "mset (entries m) = add_mset e (mset (entries ?m))"
    using pkgk.head_removed [OF hm, of i e es "strict ?m"] i m(1) by (simp_all add: strict_upd entries_def)
  obtain m' where m': "hashmapRemove m (ent_key e) = Ok (ent_value e, m')" "strict m' = strict ?m"
    using r(1) unfolding pkg_remove(1) [OF m(3)] by (auto split: outcome.splits)
  have eq: "m' = ?m"
  proof -
    have "m' = (strict m')\<lparr>hm_equals := hm_equals m'\<rparr>" "?m = (strict ?m)\<lparr>hm_equals := hm_equals ?m\<rparr>" by (simp_all add: strict_def)
    then show ?thesis using m'(2) pkg_remove(2) [OF m(3) m'(1)] by simp
  qed
  let ?k = "fst (ent_key e)"
  have sub: "add_mset ?k (image_mset (\<lambda>e. fst (ent_key e)) (mset (entries ?m))) \<subseteq># mset (key_heap s)"
    using m(5) unfolding r(3) by simp
  then have k: "?k \<in> set (key_heap s)" by (metis insert_subset_eq_iff set_mset_mset)
  let ?s = "s\<lparr>package_to_appid := Some ?m, key_heap := remove1 ?k (key_heap s)\<rparr>"
  have "remove_str_to_int (ent_key e) (ent_value e) s = Ok (True, ?s)"
    using m(1) m'(1) k eq by (simp add: remove_str_to_int_def the_table_def free_key_def)
  moreover have "pk_inv ?s"
    using m r(2) sub unfolding pk_inv_def by (auto simp: pkg_ok_def insert_subset_eq_iff)
  ultimately show "\<exists>s'. remove_str_to_int (ent_key e) (ent_value e) s = Ok (True, s') \<and> (pk_inv s' \<and> rest s' = rest f0) \<and>
      buckets (the (package_to_appid s')) = (buckets (the (package_to_appid s)))[i := es]"
    using inv m(1) by (intro exI [of _ ?s]) simp
next
  fix s
  assume "pk_inv s \<and> rest s = rest f0"
  then show "length (buckets (the (package_to_appid s))) = unat (bucketCount (the (package_to_appid s)))"
    by (auto simp: pk_inv_def pkg_ok_def hm_ok_def)
qed

lemma clear_appids:
  "clearing (\<lambda>s. pk_inv s \<and> rest s = rest f0 \<and> package_to_appid s = package_to_appid f0) (\<lambda>f. the (appid_with_rw f)) remove_int_to_null"
  unfolding clearing_def
proof (intro conjI allI impI)
  fix s i e es
  assume inv: "pk_inv s \<and> rest s = rest f0 \<and> package_to_appid s = package_to_appid f0"
    and i: "i < length (buckets (the (appid_with_rw s)))" "buckets (the (appid_with_rw s)) ! i = e # es"
  obtain m a where m: "package_to_appid s = Some m" "appid_with_rw s = Some a" "pkg_ok m" "hm_ok int_hash int_equals a"
    "image_mset (\<lambda>e. fst (ent_key e)) (mset (entries m)) \<subseteq># mset (key_heap s)" using inv unfolding pk_inv_def by blast
  let ?a = "a\<lparr>buckets := (buckets a)[i := es], hm_size := hm_size a - 1\<rparr>"
  have r: "hashmapRemove a (ent_key e) = Ok (ent_value e, ?a)" "hm_ok int_hash int_equals ?a"
    using appk.head_removed [OF m(4), of i e es ?a] i m(2) by simp_all
  let ?s = "s\<lparr>appid_with_rw := Some ?a\<rparr>"
  have "remove_int_to_null (ent_key e) (ent_value e) s = Ok (True, ?s)"
    using m(2) r(1) by (simp add: remove_int_to_null_def the_table_def)
  moreover have "pk_inv ?s" using m r(2) by (auto simp: pk_inv_def)
  ultimately show "\<exists>s'. remove_int_to_null (ent_key e) (ent_value e) s = Ok (True, s') \<and>
      (pk_inv s' \<and> rest s' = rest f0 \<and> package_to_appid s' = package_to_appid f0) \<and>
      buckets (the (appid_with_rw s')) = (buckets (the (appid_with_rw s)))[i := es]"
    using inv m(2) by (intro exI [of _ ?s]) simp
next
  fix s
  assume "pk_inv s \<and> rest s = rest f0 \<and> package_to_appid s = package_to_appid f0"
  then show "length (buckets (the (appid_with_rw s))) = unat (bucketCount (the (appid_with_rw s)))"
    by (auto simp: pk_inv_def hm_ok_def)
qed

section \<open>Reading the list\<close>

definition appid_of :: "(string \<times> u32 \<times> string) list \<Rightarrow> string \<Rightarrow> u32" where
  "appid_of ps name = (case find (\<lambda>p. key_eq (0, fst p) (0, name)) (rev ps) of None \<Rightarrow> 0 | Some (_, appid, _) \<Rightarrow> appid)"

definition rw_of :: "u32 \<Rightarrow> (string \<times> u32 \<times> string) list \<Rightarrow> u32 \<Rightarrow> bool" where
  "rw_of w ps x \<longleftrightarrow> (\<exists>(name, appid, gids) \<in> set ps. appid = x \<and> has_gid w gids)"

text \<open>The tables hold what the packages \<open>ps\<close> say.\<close>

definition holds :: "(string \<times> u32 \<times> string) list \<Rightarrow> fuse \<Rightarrow> bool" where
  "holds ps f \<longleftrightarrow> pk_inv f \<and>
     unat (hm_size (the (package_to_appid f))) \<le> length ps \<and> unat (hm_size (the (appid_with_rw f))) \<le> length ps \<and>
     (\<forall>k. (case hm_view (strict (the (package_to_appid f))) k of Some (Some v) \<Rightarrow> v | _ \<Rightarrow> 0) = appid_of ps (snd k)) \<and>
     (\<forall>x. hm_view (the (appid_with_rw f)) x \<noteq> None \<longleftrightarrow> rw_of (write_gid f) ps x)"

lemma key_eq_snd: "key_eq (a, s) (b, t) = key_eq (c, s) (d, t)"
  by (simp add: key_eq_def str_hash_def str_icase_equals_def)

lemma appid_of_snoc:
  "appid_of (ps @ [(n, x, g)]) name = (if key_eq (0, n) (0, name) then x else appid_of ps name)"
  by (simp add: appid_of_def)

lemma rw_of_snoc: "rw_of w (ps @ [(n, x, g)]) y \<longleftrightarrow> rw_of w ps y \<or> (x = y \<and> has_gid w g)"
  by (auto simp: rw_of_def)

lemma put_rw:
  assumes "hm_ok int_hash int_equals a" and "unat (hm_size a) < 2 ^ 29"
  shows "\<exists>old a'. hashmapPut True True 0 a x (Some 1) = Ok (old, 0, a') \<and> hm_ok int_hash int_equals a' \<and>
    (\<forall>y. hm_view a' y \<noteq> None \<longleftrightarrow> x = y \<or> hm_view a y \<noteq> None) \<and> unat (hm_size a') \<le> Suc (unat (hm_size a))"
  using appk.put_ok [OF assms, of True 0 x "Some 1"] by (auto simp: int_equals_def split: if_splits)

lemma add_package_ok:
  assumes h: "holds ps f" and small: "length ps < 2 ^ 29"
  shows "\<exists>f'. add_package buf f = Ok f' \<and> rest f' = rest f \<and>
    holds (case scan_package buf of None \<Rightarrow> ps | Some p \<Rightarrow> ps @ [p]) f'"
proof (cases "scan_package buf")
  case None
  then show ?thesis using h by (auto simp: add_package_def)
next
  case (Some p)
  then obtain name appid gids where p: "p = (name, appid, gids)" by (cases p) auto
  obtain m a where m: "package_to_appid f = Some m" "appid_with_rw f = Some a" "pkg_ok m" "hm_ok int_hash int_equals a"
    "image_mset (\<lambda>e. fst (ent_key e)) (mset (entries m)) \<subseteq># mset (key_heap f)" using h by (auto simp: holds_def pk_inv_def)
  let ?v = "if appid = 0 then None else Some appid" and ?k = "(key_next f, name)"
  have sz: "unat (hm_size m) \<le> length ps" "unat (hm_size a) \<le> length ps" using h m by (simp_all add: holds_def)
  obtain old m' where m': "hashmapPut True True 0 m ?k ?v = Ok (old, 0, m')" "pkg_ok m'"
    "hm_view (strict m') = (\<lambda>k. if key_eq ?k k then Some ?v else hm_view (strict m) k)"
    "unat (hm_size m') \<le> Suc (unat (hm_size m))"
    "image_mset ent_key (mset (entries m')) \<subseteq># add_mset ?k (image_mset ent_key (mset (entries m)))"
    using pkg_put_ok [OF m(3), of 0 ?k ?v] sz small by auto
  let ?f2 = "f\<lparr>key_heap := key_next f # key_heap f, key_next := key_next f + 1, package_to_appid := Some m'\<rparr>"
  have keys: "image_mset (\<lambda>e. fst (ent_key e)) (mset (entries m')) \<subseteq># mset (key_heap ?f2)"
  proof -
    have "image_mset fst (image_mset ent_key (mset (entries m'))) \<subseteq>#
        image_mset fst (add_mset ?k (image_mset ent_key (mset (entries m))))" by (rule image_mset_subseteq_mono [OF m'(5)])
    also have "\<dots> = add_mset (key_next f) (image_mset (\<lambda>e. fst (ent_key e)) (mset (entries m)))"
      by (simp add: multiset.map_comp comp_def)
    also have "\<dots> \<subseteq># mset (key_heap ?f2)" using m(5) by simp
    finally show ?thesis by (simp add: multiset.map_comp comp_def)
  qed
  have view: "(case hm_view (strict m') k of Some (Some v) \<Rightarrow> v | _ \<Rightarrow> 0) = appid_of (ps @ [p]) (snd k)" for k
  proof -
    have "(case hm_view (strict m) k of Some (Some v) \<Rightarrow> v | _ \<Rightarrow> 0) = appid_of ps (snd k)" using h m(1) by (cases k) (simp add: holds_def)
    moreover have "key_eq ?k k = key_eq (0, name) (0, snd k)" using key_eq_snd [of _ name _ "snd k"] by (metis prod.collapse)
    ultimately show ?thesis by (simp add: m'(3) p appid_of_snoc)
  qed
  have rw: "hm_view a y \<noteq> None \<longleftrightarrow> rw_of (write_gid f) ps y" for y using h m(2) by (simp add: holds_def)
  show ?thesis
  proof (cases "has_gid (write_gid f) gids")
    case False
    have "add_package buf f = Ok ?f2"
      using Some p m(1) m'(1) False by (simp add: add_package_def the_table_def Let_def)
    moreover have "holds (ps @ [p]) ?f2"
      unfolding holds_def pk_inv_def using m m' keys view rw False sz by (simp add: p rw_of_snoc)
    ultimately show ?thesis using Some by (intro exI [of _ ?f2]) simp
  next
    case True
    obtain old2 a' where a': "hashmapPut True True 0 a appid (Some 1) = Ok (old2, 0, a')" "hm_ok int_hash int_equals a'"
      "\<And>y. hm_view a' y \<noteq> None \<longleftrightarrow> appid = y \<or> hm_view a y \<noteq> None" "unat (hm_size a') \<le> Suc (unat (hm_size a))"
      using put_rw [OF m(4), of appid] sz small by auto
    let ?f3 = "?f2\<lparr>appid_with_rw := Some a'\<rparr>"
    have "add_package buf f = Ok ?f3"
      using Some p m(1,2) m'(1) a'(1) True by (simp add: add_package_def the_table_def Let_def)
    moreover have "hm_view a' y \<noteq> None \<longleftrightarrow> rw_of (write_gid f) (ps @ [p]) y" for y
      using a'(3) [of y] rw [of y] True by (auto simp: p rw_of_snoc)
    then have "holds (ps @ [p]) ?f3"
      unfolding holds_def pk_inv_def using m m' keys view a'(2,4) sz by simp
    ultimately show ?thesis using Some by (intro exI [of _ ?f3]) simp
  qed
qed

lemma add_packages_ok:
  assumes "holds ps f" and "length ps + length bufs \<le> 2 ^ 29"
  shows "\<exists>f'. add_packages bufs f = Ok f' \<and> rest f' = rest f \<and> holds (ps @ List.map_filter scan_package bufs) f'"
  using assms
proof (induction bufs arbitrary: ps f)
  case Nil
  then show ?case by (simp add: map_filter_simps)
next
  case (Cons buf bufs)
  obtain f1 where f1: "add_package buf f = Ok f1" "rest f1 = rest f"
    "holds (case scan_package buf of None \<Rightarrow> ps | Some p \<Rightarrow> ps @ [p]) f1"
    using add_package_ok [OF Cons.prems(1), of buf] Cons.prems(2) by auto
  have len: "length (case scan_package buf of None \<Rightarrow> ps | Some p \<Rightarrow> ps @ [p]) + length bufs \<le> 2 ^ 29"
    using Cons.prems(2) by (cases "scan_package buf") simp_all
  obtain f' where f': "add_packages bufs f1 = Ok f'" "rest f' = rest f1"
    "holds ((case scan_package buf of None \<Rightarrow> ps | Some p \<Rightarrow> ps @ [p]) @ List.map_filter scan_package bufs) f'"
    using Cons.IH [OF f1(3) len] by blast
  then show ?case using f1 by (cases "scan_package buf") (auto simp: map_filter_simps)
qed

lemma emptied:
  assumes "pk_inv f"
  shows "\<exists>f1 f2. hashmapForEach (\<lambda>f. the (package_to_appid f)) remove_str_to_int f = Ok f1 \<and>
    hashmapForEach (\<lambda>f. the (appid_with_rw f)) remove_int_to_null f1 = Ok f2 \<and>
    pk_inv f1 \<and> rest f2 = rest f \<and> holds [] f2"
proof -
  obtain f1 where f1: "hashmapForEach (\<lambda>f. the (package_to_appid f)) remove_str_to_int f = Ok f1" "pk_inv f1"
    "rest f1 = rest f" "entries (the (package_to_appid f1)) = []"
    using for_each_clears [OF clear_packages [of f], of f] assms by auto
  obtain f2 where f2: "hashmapForEach (\<lambda>f. the (appid_with_rw f)) remove_int_to_null f1 = Ok f2" "pk_inv f2"
    "rest f2 = rest f1" "package_to_appid f2 = package_to_appid f1" "entries (the (appid_with_rw f2)) = []"
    using for_each_clears [OF clear_appids [of f1], of f1] f1(2) by auto
  obtain m a where m: "package_to_appid f2 = Some m" "appid_with_rw f2 = Some a" "pkg_ok m" "hm_ok int_hash int_equals a"
    using f2(2) by (auto simp: pk_inv_def)
  have e: "entries m = []" using f1(4) unfolding f2(4) [symmetric] m(1) by simp
  have ea: "entries a = []" using f2(5) m(2) by simp
  have "unat (hm_size m) = 0" "unat (hm_size a) = 0" using m(3,4) e ea by (simp_all add: pkg_ok_def hm_ok_def)
  then have "holds [] f2"
    using f2(2) m e ea by (simp add: holds_def hm_view_def view_def appid_of_def rw_of_def)
  then show ?thesis using f1 f2 by auto
qed

lemma read_packages_ok:
  assumes inv: "pk_inv f" and small: "\<And>text. file = Some text \<Longrightarrow> length (fgets_lines text) \<le> 2 ^ 29"
  shows "\<exists>f'. read_package_list file f = Ok (if file = None then - 1 else 0, f') \<and> rest f' = rest f \<and>
    holds (case file of None \<Rightarrow> [] | Some text \<Rightarrow> List.map_filter scan_package (fgets_lines text)) f'"
proof -
  obtain f1 f2 where f: "hashmapForEach (\<lambda>f. the (package_to_appid f)) remove_str_to_int f = Ok f1"
    "hashmapForEach (\<lambda>f. the (appid_with_rw f)) remove_int_to_null f1 = Ok f2" "pk_inv f1" "rest f2 = rest f" "holds [] f2"
    using emptied [OF inv] by blast
  have t: "the_table (package_to_appid f) = Ok (the (package_to_appid f))" "the_table (appid_with_rw f1) = Ok (the (appid_with_rw f1))"
    using inv f(3) by (auto simp: pk_inv_def the_table_def)
  show ?thesis
  proof (cases "file")
    case None
    then show ?thesis using f t by (auto simp: read_package_list_def)
  next
    case (Some contents)
    obtain f3 where "add_packages (fgets_lines contents) f2 = Ok f3" "rest f3 = rest f2"
      "holds ([] @ List.map_filter scan_package (fgets_lines contents)) f3"
      using add_packages_ok [OF f(5), of "fgets_lines contents"] small [OF Some] by auto
    then show ?thesis using f t Some by (auto simp: read_package_list_def)
  qed
qed

section \<open>Looking up\<close>

lemma lookup_held:
  assumes "pk_inv f"
  shows "lookup_appid f name = Ok (case hm_view (strict (the (package_to_appid f))) (0, name) of Some (Some v) \<Rightarrow> v | _ \<Rightarrow> 0)"
    and "derive f \<noteq> DERIVE_NONE \<Longrightarrow> get_caller_has_rw_locked f hdr =
      Ok (hm_view (the (appid_with_rw f)) (multiuser_get_app_id (hdr_uid hdr)) \<noteq> None)"
proof -
  obtain m a where m: "package_to_appid f = Some m" "appid_with_rw f = Some a" "pkg_ok m" "hm_ok int_hash int_equals a"
    using assms by (auto simp: pk_inv_def)
  have s: "hm_ok str_hash key_eq (strict m)" using m(3) by (simp add: pkg_ok_def)
  show "lookup_appid f name = Ok (case hm_view (strict (the (package_to_appid f))) (0, name) of Some (Some v) \<Rightarrow> v | _ \<Rightarrow> 0)"
    using m(1) pkg_get [OF m(3), of "(0, name)"] pkgk.get_ok(1) [OF s, of "(0, name)"]
    by (simp add: lookup_appid_def the_table_def split: option.splits)
  show "get_caller_has_rw_locked f hdr =
      Ok (hm_view (the (appid_with_rw f)) (multiuser_get_app_id (hdr_uid hdr)) \<noteq> None)" if "derive f \<noteq> DERIVE_NONE"
    using that m(2) appk.get_ok(2) [OF m(4)] by (simp add: get_caller_has_rw_locked_def the_table_def)
qed

lemma pk_tables: "pk_inv f \<Longrightarrow> tables_ok f"
  using lookup_held by (auto simp: tables_ok_def)

end
