(* ===== verification/Sdcard_System.thy ===== *)
theory Sdcard_System
  imports Sdcard_Path Sdcard_Packages
begin

text \<open>
  The daemon with several handler threads, the thread that watches the package list, and the kernel.

  A request that creates a node and a rename let go of the lock in the middle, so each is two actions and others may come
  between them; every other request is one action. \<open>sd_held\<close> counts, for each node id, the references the kernel has
  been given and has not forgotten, \<open>sd_lost\<close> those in replies that could not be written. \<open>allowed\<close> is what the
  kernel and the allocator promise: a request names a node the kernel holds, the kernel does not forget more than it holds
  nor the last reference to a directory that a request in progress uses, a directory is not moved into its own subtree,
  handles are open, names read from a directory fit the reply, and \<open>calloc\<close> returns a fresh address.
\<close>

section \<open>Actions\<close>

record sd =
  sd_fuse :: fuse
  sd_held :: "u64 \<Rightarrow> nat"
  sd_lost :: "u64 \<Rightarrow> nat"
  sd_entries :: "addr list"
  sd_renames :: "(rename_ctx \<times> string \<times> string) list"

datatype action =
    Entry_begin u64
  | Entry_drop nat
  | Entry_end nat os u64 string string stat
  | Forget u64 u64
  | Rename_begin fuse_in_header u64 string string
  | Rename_end nat os
  | Plain os fuse_in_header request
  | Packages "string option"

definition drop_nth :: "nat \<Rightarrow> 'a list \<Rightarrow> 'a list" where
  "drop_nth i xs = take i xs @ drop (Suc i) xs"

text \<open>
  \<open>Entry_begin\<close> is the part of \<open>handle_lookup\<close>, \<open>handle_mknod\<close> and \<open>handle_mkdir\<close> under the lock, \<open>Entry_end\<close>
  the one in \<open>fuse_reply_entry\<close>, \<open>Entry_drop\<close> an error between them.
\<close>

fun run_action :: "action \<Rightarrow> sd \<Rightarrow> sd outcome" where
  "run_action (Entry_begin nid) s =
     obind (lookup_node_and_path_by_id_locked (sd_fuse s) nid) (\<lambda>r.
       Ok (case r of None \<Rightarrow> s | Some (p, path) \<Rightarrow> s\<lparr>sd_entries := sd_entries s @ [p]\<rparr>))"
| "run_action (Entry_drop i) s = Ok (s\<lparr>sd_entries := drop_nth i (sd_entries s)\<rparr>)"
| "run_action (Entry_end i os unique name actual_name st) s =
     obind (reply_entry_locked os (sd_entries s ! i) name actual_name st (sd_fuse s)) (\<lambda>(r, f).
       let s1 = s\<lparr>sd_fuse := f, sd_entries := drop_nth i (sd_entries s)\<rparr>
       in case r of
            None \<Rightarrow> Ok s1
          | Some (node, out) \<Rightarrow>
              (let s2 = s1\<lparr>sd_fuse := fuse_reply os unique out 128 f\<rparr>; nid = out_nodeid out
               in Ok (if os_writev os then s2\<lparr>sd_held := (sd_held s2)(nid := Suc (sd_held s2 nid))\<rparr>
                      else s2\<lparr>sd_lost := (sd_lost s2)(nid := Suc (sd_lost s2 nid))\<rparr>)))"
| "run_action (Forget nid nlookup) s =
     obind (handle_forget \<lparr>hdr_len = 48, hdr_opcode = 2, hdr_unique = 0, hdr_nodeid = nid, hdr_uid = 0, hdr_gid = 0,
              hdr_pid = 0\<rparr> nlookup (sd_fuse s)) (\<lambda>(res, f).
       Ok (s\<lparr>sd_fuse := f, sd_held := (sd_held s)(nid := sd_held s nid - unat nlookup)\<rparr>))"
| "run_action (Rename_begin hdr newdir old_name new_name) s =
     obind (rename_lookup hdr newdir old_name new_name (sd_fuse s)) (\<lambda>(r, f).
       Ok (case r of
             Inl res \<Rightarrow> s\<lparr>sd_fuse := f\<rparr>
           | Inr ctx \<Rightarrow> s\<lparr>sd_fuse := f, sd_renames := sd_renames s @ [(ctx, old_name, new_name)]\<rparr>))"
| "run_action (Rename_end j os) s =
     (case sd_renames s ! j of
        (ctx, old_name, new_name) \<Rightarrow>
          (case rename_io os ctx old_name new_name (sd_fuse s) of
             (r, f) \<Rightarrow>
               obind (rename_finish os ctx new_name r f) (\<lambda>(res, f1).
                 Ok (s\<lparr>sd_fuse := f1, sd_renames := drop_nth j (sd_renames s)\<rparr>))))"
| "run_action (Plain os hdr req) s =
     obind (handle_fuse_request os hdr req (sd_fuse s)) (\<lambda>(res, f).
       Ok (s\<lparr>sd_fuse := (if res \<noteq> NO_STATUS then fuse_status (hdr_unique hdr) res f else f)\<rparr>))"
| "run_action (Packages file) s = obind (read_package_list file (sd_fuse s)) (\<lambda>(res, f). Ok (s\<lparr>sd_fuse := f\<rparr>))"

text \<open>Requests that neither create nor release nor move nodes.\<close>

fun plain :: "request \<Rightarrow> bool" where
  "plain (FUSE_LOOKUP name) = False"
| "plain (FUSE_FORGET n) = False"
| "plain (FUSE_MKNOD mode rdev name) = False"
| "plain (FUSE_MKDIR mode name) = False"
| "plain (FUSE_RENAME newdir old_name new_name) = False"
| "plain req = True"

definition open_handle :: "fuse \<Rightarrow> u64 \<Rightarrow> bool" where
  "open_handle f fh \<longleftrightarrow> (\<exists>fd. get_handle f fh = Ok fd)"

definition open_dir :: "fuse \<Rightarrow> u64 \<Rightarrow> bool" where
  "open_dir f fh \<longleftrightarrow> (\<exists>d. get_dirhandle f fh = Ok d)"

fun handles_ok :: "os \<Rightarrow> request \<Rightarrow> fuse \<Rightarrow> bool" where
  "handles_ok os (FUSE_READ fh offset req_size) f = open_handle f fh"
| "handles_ok os (FUSE_WRITE fh offset buffer) f = open_handle f fh"
| "handles_ok os (FUSE_RELEASE fh) f = open_handle f fh"
| "handles_ok os (FUSE_FSYNC fh flags) f = open_handle f fh"
| "handles_ok os (FUSE_READDIR fh offset) f =
     (open_dir f fh \<and> (\<forall>c d_type d_name. os_dirent os c = Some (d_type, d_name) \<longrightarrow> length d_name \<le> 255))"
| "handles_ok os (FUSE_RELEASEDIR fh) f = open_dir f fh"
| "handles_ok os req f = True"

definition known :: "sd \<Rightarrow> u64 \<Rightarrow> bool" where
  "known s nid \<longleftrightarrow> nid = FUSE_ROOT_ID \<or> 0 < sd_held s nid"

definition in_use :: "sd \<Rightarrow> u64 \<Rightarrow> bool" where
  "in_use s nid \<longleftrightarrow> unat nid \<in> set (sd_entries s) \<or> unat nid \<in> (\<lambda>r. rn_new_parent (fst r)) ` set (sd_renames s)"

definition counts_low :: "fuse \<Rightarrow> bool" where
  "counts_low f \<longleftrightarrow> (\<forall>a n. nodes_of f a = Some n \<longrightarrow> unat (nd_refcount n) + 2 < 2 ^ 32)"

fun allowed :: "action \<Rightarrow> sd \<Rightarrow> bool" where
  "allowed (Entry_begin nid) s = known s nid"
| "allowed (Entry_drop i) s = (i < length (sd_entries s))"
| "allowed (Entry_end i os unique name actual_name st) s =
     (i < length (sd_entries s) \<and> counts_low (sd_fuse s) \<and>
      (\<forall>a. os_node os = Some a \<longrightarrow> nodes_of (sd_fuse s) a = None \<and> 0 < a \<and> a < 2 ^ 32))"
| "allowed (Forget nid nlookup) s =
     (unat nlookup \<le> sd_held s nid \<and> (in_use s nid \<and> nid \<noteq> FUSE_ROOT_ID \<longrightarrow> unat nlookup < sd_held s nid))"
| "allowed (Rename_begin hdr newdir old_name new_name) s =
     (known s (hdr_nodeid hdr) \<and> known s newdir \<and> counts_low (sd_fuse s))"
| "allowed (Rename_end j os) s =
     (j < length (sd_renames s) \<and> counts_low (sd_fuse s) \<and>
      rn_child (fst (sd_renames s ! j)) \<notin> anc {} (links (sd_fuse s)) (rn_new_parent (fst (sd_renames s ! j))))"
| "allowed (Plain os hdr req) s = (plain req \<and> known s (hdr_nodeid hdr) \<and> handles_ok os req (sd_fuse s))"
| "allowed (Packages file) s =
     (derive (sd_fuse s) \<noteq> DERIVE_NONE \<and> (case file of None \<Rightarrow> True | Some contents \<Rightarrow> length (fgets_lines contents) \<le> 2 ^ 29))"

definition start :: "fuse \<Rightarrow> sd" where
  "start f = \<lparr>sd_fuse = f, sd_held = (\<lambda>_. 0), sd_lost = (\<lambda>_. 0), sd_entries = [], sd_renames = []\<rparr>"

inductive reachable :: "sd \<Rightarrow> bool" where
  reachable_init: "fuse_init os uid gid source_path w d split = Ok f \<Longrightarrow> reachable (start f)"
| reachable_step: "reachable s \<Longrightarrow> allowed act s \<Longrightarrow> run_action act s = Ok s' \<Longrightarrow> reachable s'"

section \<open>Quiet changes\<close>

text \<open>The part of the state that system calls, replies and open files do not touch.\<close>

definition inner :: "fuse \<Rightarrow> fuse" where
  "inner f = f\<lparr>handle_heap := [], dir_heap := [], sys_calls := [], replies := []\<rparr>"

lemma inner_simps [simp]:
  "inner (issue c f) = inner f" "inner (fuse_reply os u d l f) = inner f" "inner (fuse_status u e f) = inner f"
  "inner (f\<lparr>handle_heap := h\<rparr>) = inner f" "inner (f\<lparr>dir_heap := h\<rparr>) = inner f"
  by (simp_all add: inner_def issue_def fuse_reply_def fuse_status_def)

lemma inner_sel:
  assumes "inner f' = inner f"
  shows "node_heap f' = node_heap f" and "nodes_of f' = nodes_of f" and "links f' = links f" and "attr_map f' = attr_map f"
    and "derive f' = derive f" and "package_to_appid f' = package_to_appid f" and "appid_with_rw f' = appid_with_rw f"
    and "key_heap f' = key_heap f" and "pk_inv f' = pk_inv f" and "tables_ok f' = tables_ok f" and "fs_inv f' X = fs_inv f X"
    and "write_gid f' = write_gid f"
proof -
  note e = arg_cong [OF assms, of node_heap] arg_cong [OF assms, of derive] arg_cong [OF assms, of package_to_appid]
    arg_cong [OF assms, of appid_with_rw] arg_cong [OF assms, of key_heap] arg_cong [OF assms, of write_gid]
  show n: "node_heap f' = node_heap f" and d: "derive f' = derive f" and p: "package_to_appid f' = package_to_appid f"
    and a: "appid_with_rw f' = appid_with_rw f" and k: "key_heap f' = key_heap f" and "write_gid f' = write_gid f"
    using e by (simp_all add: inner_def)
  show "nodes_of f' = nodes_of f" and l: "links f' = links f" and "attr_map f' = attr_map f"
    using n by (simp_all add: nodes_of_def links_def attr_map_def)
  show "pk_inv f' = pk_inv f" using p a k by (simp add: pk_inv_def)
  show "tables_ok f' = tables_ok f"
    using d p a by (simp add: tables_ok_def lookup_appid_def get_caller_has_rw_locked_def)
  show "fs_inv f' X = fs_inv f X" using l by (simp add: fs_inv_def)
qed

lemma inner_find: "find_file_within os path name b srch f = (r, f') \<Longrightarrow> inner f' = inner f"
  by (auto simp: find_file_within_def Let_def split: if_splits option.splits)

section \<open>The invariant\<close>

definition by_ptr :: "(u64 \<Rightarrow> nat) \<Rightarrow> addr \<Rightarrow> nat" where
  "by_ptr h a = (if a < 2 ^ 64 then h (of_nat a) else 0)"

definition pins :: "sd \<Rightarrow> addr list" where
  "pins s = map (\<lambda>r. rn_child (fst r)) (sd_renames s)"

text \<open>The references to a node from outside the tree.\<close>

definition refs :: "sd \<Rightarrow> addr \<Rightarrow> nat" where
  "refs s a = by_ptr (sd_held s) a + by_ptr (sd_lost s) a + count_list (pins s) a + (if a = root_ptr then 2 else 0)"

text \<open>
  The permissions a node can have: without derivation everything belongs to \<open>sdcard_rw\<close>; with it others can at most search
  a directory, and the place in the hierarchy that the node stands for goes with its mode and with the graft.
\<close>

definition typed :: "derive_t \<Rightarrow> node \<Rightarrow> bool" where
  "typed d n \<longleftrightarrow>
     (if d = DERIVE_NONE
      then nd_mode n = o775 \<and> nd_uid n = AID_ROOT \<and> nd_gid n = AID_SDCARD_RW \<and> nd_perm n \<in> {PERM_ROOT, PERM_INHERIT}
      else nd_mode n \<in> {o770, o771} \<and> nd_gid n \<in> {AID_SDCARD_R, AID_SDCARD_PICS, AID_SDCARD_AV, AID_SDCARD_ALL} \<and>
        (nd_perm n = PERM_ANDROID_USER \<longrightarrow> nd_mode n = o770 \<and> nd_gid n = AID_SDCARD_ALL) \<and>
        (nd_perm n \<notin> {PERM_INHERIT, PERM_ANDROID_USER} \<longrightarrow> nd_mode n = o771) \<and>
        (nd_perm n = PERM_LEGACY_PRE_ROOT \<longrightarrow> d = DERIVE_LEGACY)) \<and>
     (nd_graft_path n \<noteq> None \<longleftrightarrow> nd_perm n = PERM_ANDROID_OBB)"

lemma typed_attrs [simp]: "typed d (attrs n) = typed d n"
  by (simp add: typed_def attrs_def)

lemma typed_if: "typed d x \<Longrightarrow> typed d y \<Longrightarrow> typed d (if b then x else y)"
  by simp

lemma derive_typed:
  assumes ok: "derive_permissions_locked f p n = Ok n'" and p: "typed (derive f) p" and g: "nd_graft_path n = None"
  shows "typed (derive f) n'"
proof (cases "derive f = DERIVE_NONE")
  case True
  have "n' = n\<lparr>nd_perm := PERM_INHERIT, nd_userid := nd_userid p, nd_uid := nd_uid p, nd_gid := nd_gid p, nd_mode := nd_mode p\<rparr>"
    using ok True by (simp add: derive_permissions_locked_def Let_def)
  then show ?thesis using p g True by (simp add: typed_def)
next
  case False
  have app: "typed (derive f) n'" if "app_directory f p m = Ok n'" "nd_perm m = PERM_INHERIT" "nd_gid m = nd_gid p"
      "nd_graft_path m = None" for m
  proof (cases "lookup_appid f (nd_name m)")
    case (Ok v)
    then have "n' = (if v \<noteq> 0 then m\<lparr>nd_uid := multiuser_get_uid (nd_userid p) v\<rparr> else m)\<lparr>nd_mode := o770\<rparr>"
      using that(1) by (simp add: app_directory_def del: obind_eq_Ok)
    then show ?thesis using p False that(2-) by (simp add: typed_def)
  qed (use that(1) in \<open>simp add: app_directory_def del: obind_eq_Ok\<close>)
  note d = ok [unfolded derive_permissions_locked_def Let_def]
  show ?thesis
  proof (cases "nd_perm p")
    case PERM_INHERIT
    with d False have "n' = n\<lparr>nd_perm := PERM_INHERIT, nd_userid := nd_userid p, nd_uid := nd_uid p, nd_gid := nd_gid p,
        nd_mode := nd_mode p\<rparr>" by simp
    then show ?thesis using p g False by (simp add: typed_def)
  next
    case PERM_LEGACY_PRE_ROOT
    with d False p g show ?thesis by (simp add: typed_def) (erule subst, simp)
  next
    case PERM_ROOT
    with d False show ?thesis
      by (simp split del: if_split) (erule subst, use p g False in \<open>intro typed_if; simp add: typed_def\<close>)
  next
    case PERM_ANDROID
    with d False show ?thesis
      by (simp split del: if_split) (erule subst, use p g False PERM_ANDROID in \<open>intro typed_if; simp add: typed_def\<close>)
  next
    case PERM_ANDROID_DATA
    with d False have "app_directory f p (n\<lparr>nd_perm := PERM_INHERIT, nd_userid := nd_userid p, nd_uid := nd_uid p,
        nd_gid := nd_gid p, nd_mode := nd_mode p\<rparr>) = Ok n'" by simp
    then show ?thesis by (rule app) (simp_all add: g)
  next
    case PERM_ANDROID_OBB
    with d False have "app_directory f p (n\<lparr>nd_perm := PERM_INHERIT, nd_userid := nd_userid p, nd_uid := nd_uid p,
        nd_gid := nd_gid p, nd_mode := nd_mode p\<rparr>) = Ok n'" by simp
    then show ?thesis by (rule app) (simp_all add: g)
  next
    case PERM_ANDROID_USER
    with d False g show ?thesis by simp (erule subst, simp add: typed_def)
  qed
qed

definition ids_ok :: "fuse \<Rightarrow> bool" where
  "ids_ok f \<longleftrightarrow>
     (\<forall>a n. attr_map f a = Some n \<longrightarrow> 0 < a \<and> a < 2 ^ 32 \<and> nd_nid n = of_nat a \<and> typed (derive f) n)"

definition used :: "sd \<Rightarrow> addr \<Rightarrow> bool" where
  "used s p \<longleftrightarrow> p = root_ptr \<or> 0 < by_ptr (sd_held s) p"

definition sd_inv :: "sd \<Rightarrow> bool" where
  "sd_inv s \<longleftrightarrow> fs_inv (sd_fuse s) (refs s) \<and> ids_ok (sd_fuse s) \<and>
     (derive (sd_fuse s) \<noteq> DERIVE_NONE \<longrightarrow> pk_inv (sd_fuse s)) \<and> (\<forall>p \<in> set (sd_entries s). used s p) \<and>
     (\<forall>r \<in> set (sd_renames s). rn_child (fst r) \<noteq> root_ptr \<and> used s (rn_new_parent (fst r)))"

lemma unat_u64_less: "unat (x :: u64) < 2 ^ 64"
  using unsigned_less [of x, where 'a = nat] by simp

lemma by_ptr_unat [simp]: "by_ptr h (unat nid) = h nid"
  using unat_u64_less [of nid] by (simp add: by_ptr_def)

lemma by_ptr_upd: "by_ptr (h(nid := v)) = (by_ptr h)(unat nid := v)"
proof
  fix a
  show "by_ptr (h(nid := v)) a = ((by_ptr h)(unat nid := v)) a"
    using unat_u64_less [of nid] by (auto simp: by_ptr_def unat_of_nat take_bit_nat_eq_self)
qed

lemma ids_mono: "ids_ok f \<Longrightarrow> attr_map f' \<subseteq>\<^sub>m attr_map f \<Longrightarrow> derive f' = derive f \<Longrightarrow> ids_ok f'"
  unfolding ids_ok_def map_le_def by (metis domI)

lemma ids_node:
  assumes "ids_ok f" and "nodes_of f a = Some n"
  shows "0 < a" and "a < 2 ^ 32" and "nd_nid n = of_nat a" and "unat (nd_nid n) = a"
    and "typed (derive f) n"
proof -
  have "attr_map f a = Some (attrs n)" using assms(2) by (simp add: attr_map_def)
  then have "0 < a \<and> a < 2 ^ 32 \<and> nd_nid (attrs n) = of_nat a \<and> typed (derive f) (attrs n)"
    using assms(1) unfolding ids_ok_def by blast
  moreover have "nd_nid (attrs n) = nd_nid n" by (simp add: attrs_def)
  ultimately show "0 < a" and "a < 2 ^ 32" and "nd_nid n = of_nat a" and "typed (derive f) n" by simp_all
  then show "unat (nd_nid n) = a" by (simp add: unat_of_nat take_bit_nat_eq_self)
qed

lemma sd_invD:
  assumes "sd_inv s"
  shows "fs_inv (sd_fuse s) (refs s)" and "tree_ok {} (links (sd_fuse s)) (refs s)" and "ids_ok (sd_fuse s)"
    and "tables_ok (sd_fuse s)" and "derive (sd_fuse s) \<noteq> DERIVE_NONE \<Longrightarrow> pk_inv (sd_fuse s)"
  using assms pk_tables by (auto simp: sd_inv_def fs_inv_def tables_ok_def)

lemma used_node:
  assumes "sd_inv s" and "used s p"
  shows "\<exists>n. nodes_of (sd_fuse s) p = Some n"
proof -
  have "0 < refs s p" using assms(2) by (auto simp: used_def refs_def)
  then show ?thesis using held_node [OF sd_invD(2) [OF assms(1)]] by blast
qed

lemma known_used: "known s nid \<Longrightarrow> used s (unat nid)"
  by (auto simp: known_def used_def root_ptr_def)

lemma known_ptr:
  assumes "sd_inv s" and "known s nid"
  shows "lookup_node_by_id_locked nid = Some (unat nid)" and "\<exists>n. nodes_of (sd_fuse s) (unat nid) = Some n"
proof -
  show n: "\<exists>n. nodes_of (sd_fuse s) (unat nid) = Some n" by (rule used_node [OF assms(1) known_used [OF assms(2)]])
  then have "nid \<noteq> 0" using ids_node(1) [OF sd_invD(3) [OF assms(1)]] by force
  then show "lookup_node_by_id_locked nid = Some (unat nid)"
    by (auto simp: lookup_node_by_id_locked_def id_to_ptr_def root_ptr_def)
qed

text \<open>The path of some node does not fit its buffer and is written all the same.\<close>

definition overflows :: "fuse \<Rightarrow> bool" where
  "overflows f \<longleftrightarrow> (\<exists>a. node_path f a = Fault Out_Of_Bounds)"

lemma lookup_path_outcome:
  assumes "sd_inv s" and "known s nid"
  shows "(\<exists>r. lookup_node_and_path_by_id_locked (sd_fuse s) nid = Ok r \<and> (\<forall>p path. r = Some (p, path) \<longrightarrow> p = unat nid)) \<or>
    lookup_node_and_path_by_id_locked (sd_fuse s) nid = Fault Out_Of_Bounds \<and> overflows (sd_fuse s)"
proof -
  obtain n where n: "nodes_of (sd_fuse s) (unat nid) = Some n" using known_ptr(2) [OF assms] by blast
  have e: "lookup_node_and_path_by_id_locked (sd_fuse s) nid =
      obind (node_path (sd_fuse s) (unat nid)) (\<lambda>r. Ok (map_option (\<lambda>path. (unat nid, path)) r))"
    by (simp add: lookup_node_and_path_by_id_locked_def known_ptr(1) [OF assms] map_option_case)
  from node_path_outcome [OF sd_invD(2) [OF assms(1)] n] show ?thesis
  proof
    assume "\<exists>r. node_path (sd_fuse s) (unat nid) = Ok r"
    then obtain r where "node_path (sd_fuse s) (unat nid) = Ok r" by blast
    then show ?thesis unfolding e by (intro disjI1 exI [of _ "map_option (\<lambda>path. (unat nid, path)) r"]) auto
  qed (auto simp: e overflows_def)
qed

section \<open>Each action keeps it\<close>

definition safe :: "sd \<Rightarrow> sd outcome \<Rightarrow> bool" where
  "safe s r \<longleftrightarrow> (\<exists>s'. r = Ok s' \<and> sd_inv s') \<or> r = Fault Out_Of_Bounds \<and> overflows (sd_fuse s)"

lemma safe_Ok [simp]: "safe s (Ok s') = sd_inv s'"
  by (simp add: safe_def)

lemma safe_bind: "(\<exists>x. m = Ok x \<and> safe s (g x)) \<or> m = Fault Out_Of_Bounds \<and> overflows (sd_fuse s) \<Longrightarrow> safe s (obind m g)"
  by (auto simp: safe_def)

lemma set_drop_nth: "set (drop_nth i xs) \<subseteq> set xs"
  using set_take_subset set_drop_subset by (fastforce simp: drop_nth_def)

lemma count_drop_nth:
  assumes "i < length xs"
  shows "count_list (map g xs) a = count_list (map g (drop_nth i xs)) a + (if a = g (xs ! i) then 1 else 0)"
proof -
  have "xs = take i xs @ xs ! i # drop (Suc i) xs" using assms by (simp add: id_take_nth_drop)
  then have "count_list (map g xs) a = count_list (map g (take i xs @ xs ! i # drop (Suc i) xs)) a" by simp
  then show ?thesis by (simp add: drop_nth_def)
qed

lemma entry_begin_safe:
  assumes "sd_inv s" and "known s nid"
  shows "safe s (run_action (Entry_begin nid) s)"
proof -
  have "sd_inv (s\<lparr>sd_entries := sd_entries s @ [unat nid]\<rparr>)"
    using assms(1) known_used [OF assms(2)] by (auto simp: sd_inv_def used_def refs_def [abs_def] pins_def)
  then have "safe s (Ok (case r of None \<Rightarrow> s | Some (p, path) \<Rightarrow> s\<lparr>sd_entries := sd_entries s @ [p]\<rparr>))"
    if "\<forall>p path. r = Some (p, path) \<longrightarrow> p = unat nid" for r
    using that assms(1) by (cases r) auto
  then show ?thesis using lookup_path_outcome [OF assms] unfolding run_action.simps by (intro safe_bind) blast
qed

lemma entry_drop_safe: "sd_inv s \<Longrightarrow> safe s (run_action (Entry_drop i) s)"
  using set_drop_nth [of i "sd_entries s"] by (auto simp: safe_def sd_inv_def used_def refs_def [abs_def] pins_def)

lemma only_nodes_sel:
  assumes "only_nodes f f'"
  shows "derive f' = derive f" and "pk_inv f' = pk_inv f" and "tables_ok f' = tables_ok f"
proof -
  have e: "f' = f\<lparr>node_heap := node_heap f'\<rparr>" using assms by (simp add: only_nodes_def)
  show d: "derive f' = derive f" by (subst e) simp
  have p: "package_to_appid f' = package_to_appid f" "appid_with_rw f' = appid_with_rw f" "key_heap f' = key_heap f"
    by (subst e, simp)+
  show "pk_inv f' = pk_inv f" using p by (simp add: pk_inv_def)
  show "tables_ok f' = tables_ok f"
    using d p by (simp add: tables_ok_def lookup_appid_def get_caller_has_rw_locked_def)
qed

lemma gen_next_pk: "pk_inv (gen_next f) = pk_inv f" "tables_ok (gen_next f) = tables_ok f"
  by (simp_all add: gen_next_def pk_inv_def tables_ok_def lookup_appid_def get_caller_has_rw_locked_def)

text \<open>A new reference to a node, recorded with the kernel or as lost.\<close>

lemma sd_inv_grant:
  assumes inv: "sd_inv s" and f: "fs_inv f ((refs s)(a := Suc (refs s a)))" and ids: "ids_ok f"
    and pk: "derive f = derive (sd_fuse s)" "pk_inv f = pk_inv (sd_fuse s)" and a: "unat nid = a"
    and s': "s' = (if w then s\<lparr>sd_fuse := f, sd_held := (sd_held s)(nid := Suc (sd_held s nid))\<rparr>
      else s\<lparr>sd_fuse := f, sd_lost := (sd_lost s)(nid := Suc (sd_lost s nid))\<rparr>)"
  shows "sd_inv s'"
proof -
  have "refs s' = (refs s)(a := Suc (refs s a))"
    by (rule ext) (use a in \<open>auto simp: s' refs_def pins_def by_ptr_upd\<close>)
  moreover have "used s p \<Longrightarrow> used s' p" for p using a by (auto simp: s' used_def by_ptr_upd)
  moreover have "sd_fuse s' = f" "sd_entries s' = sd_entries s" "sd_renames s' = sd_renames s" by (simp_all add: s')
  ultimately show ?thesis using inv f ids pk unfolding sd_inv_def by auto
qed

lemma counts_low_room: "counts_low f \<Longrightarrow> room f a"
  unfolding counts_low_def room_def by fastforce

lemma sd_inv_inner: "sd_inv s \<Longrightarrow> inner f = inner (sd_fuse s) \<Longrightarrow> sd_inv (s\<lparr>sd_fuse := f\<rparr>)"
  using inner_sel [of f "sd_fuse s"] by (auto simp: sd_inv_def ids_ok_def used_def refs_def [abs_def] pins_def)

lemma sd_inv_drop_entry: "sd_inv s \<Longrightarrow> sd_inv (s\<lparr>sd_entries := drop_nth i (sd_entries s)\<rparr>)"
  using entry_drop_safe [of s i] by simp

lemma attr_node: "attr_map f a = Some x \<longleftrightarrow> (\<exists>n. nodes_of f a = Some n \<and> x = attrs n)"
  by (auto simp: attr_map_def)

text \<open>The part of \<open>fuse_reply_entry\<close> under the lock gives one new reference to the node it replies with.\<close>

lemma reply_entry_outcome:
  assumes inv: "sd_inv s" and p: "used s p" and low: "counts_low (sd_fuse s)"
    and fresh: "\<And>a. os_node os = Some a \<Longrightarrow> nodes_of (sd_fuse s) a = None \<and> 0 < a \<and> a < 2 ^ 32"
  shows "\<exists>r f. reply_entry_locked os p name actual_name st (sd_fuse s) = Ok (r, f) \<and>
    derive f = derive (sd_fuse s) \<and> pk_inv f = pk_inv (sd_fuse s) \<and> ids_ok f \<and>
    (case r of
       None \<Rightarrow> f = sd_fuse s
     | Some (a, out) \<Rightarrow> fs_inv f ((refs s)(a := Suc (refs s a))) \<and> unat (out_nodeid out) = a)"
proof -
  let ?f = "sd_fuse s"
  note t = sd_invD(2) [OF inv]
  obtain np where np: "nodes_of ?f p = Some np" using used_node [OF inv p] by blast
  obtain c where c: "lookup_child_by_name_locked ?f p name = Ok c"
    "\<And>a. c = Some a \<Longrightarrow> \<exists>n. nodes_of ?f a = Some n"
    using lookup_child_ok [OF t np, of name] by blast
  show ?thesis
  proof (cases c)
    case (Some a)
    obtain n where n: "nodes_of ?f a = Some n" using c(2) [OF Some] by blast
    obtain f where f: "acquire_node_locked a ?f = Ok f" "fs_inv f ((refs s)(a := Suc (refs s a)))" "only_nodes ?f f"
      "attr_map f = attr_map ?f"
      using acquire_ok [OF sd_invD(1) [OF inv] n counts_low_room [OF low]] by blast
    have "attr_map f a = Some (attrs n)" using f(4) n by (simp add: attr_map_def)
    then obtain n' where n': "nodes_of f a = Some n'" unfolding attr_node by blast
    have ids: "ids_ok f" using sd_invD(3) [OF inv] f(4) only_nodes_sel(1) [OF f(3)] by (simp add: ids_ok_def)
    have "reply_entry_locked os p name actual_name st ?f =
        Ok (Some (a, Entry_out (nd_nid n') (nd_gen n') 10 10 (attr_from_stat st n')), f)"
      using c(1) Some f(1) n' by (simp add: reply_entry_locked_def acquire_or_create_child_locked_def get_node_ok)
    then show ?thesis using only_nodes_sel [OF f(3)] f(2) ids ids_node(4) [OF ids n'] by auto
  next
    case None
    have r: "room ?f p" by (rule counts_low_room [OF low])
    have fr: "nodes_of ?f a = None" if "os_node os = Some a" for a using fresh [OF that] by simp
    from create_ok_node [OF sd_invD(1,4) [OF inv] np r fr, of os name actual_name]
    show ?thesis
    proof
      assume "create_node_locked os p name actual_name ?f = Ok (None, ?f)"
      then have "reply_entry_locked os p name actual_name st ?f = Ok (None, ?f)"
        using c(1) None by (simp add: reply_entry_locked_def acquire_or_create_child_locked_def)
      then show ?thesis using sd_invD(3) [OF inv] by auto
    next
      assume "\<exists>a f' n. create_node_locked os p name actual_name ?f = Ok (Some a, f') \<and> os_node os = Some a \<and>
        fs_inv f' ((refs s)(a := 1)) \<and> only_nodes (gen_next ?f) f' \<and> derive_permissions_locked ?f np (fresh_node a name actual_name ?f) = Ok n \<and> attr_map f' = (attr_map ?f)(a \<mapsto> attrs n)"
      then obtain a f n where f: "create_node_locked os p name actual_name ?f = Ok (Some a, f)" "os_node os = Some a"
        "fs_inv f ((refs s)(a := 1))" "only_nodes (gen_next ?f) f"
        "derive_permissions_locked ?f np (fresh_node a name actual_name ?f) = Ok n" "attr_map f = (attr_map ?f)(a \<mapsto> attrs n)"
        by blast
      have nid: "nd_nid (attrs n) = of_nat a"
        using derive_links(3) [OF f(5)] by (simp add: attrs_def fresh_node_def ptr_to_id_def)
      have d: "derive f = derive ?f" using only_nodes_sel(1) [OF f(4)] by simp
      have ty: "typed (derive ?f) (attrs n)"
        using derive_typed [OF f(5) ids_node(5) [OF sd_invD(3) [OF inv] np]] by (simp add: fresh_node_def blank_node_def)
      have ids: "ids_ok f"
        using sd_invD(3) [OF inv] fresh [OF f(2)] nid ty unfolding ids_ok_def f(6) d by auto
      obtain n' where n': "nodes_of f a = Some n'" using f(6) attr_node [of f a "attrs n"] by auto
      have z: "refs s a = 0" using fresh [OF f(2)] tree_okD(9) [OF t, of a] links_none [of ?f a] by simp
      have "reply_entry_locked os p name actual_name st ?f =
          Ok (Some (a, Entry_out (nd_nid n') (nd_gen n') 10 10 (attr_from_stat st n')), f)"
        using c(1) None f(1) n' by (simp add: reply_entry_locked_def acquire_or_create_child_locked_def get_node_ok)
      then show ?thesis
        using only_nodes_sel [OF f(4)] f(3) ids ids_node(4) [OF ids n'] z gen_next_pk by auto
    qed
  qed
qed

lemma entry_end_safe:
  assumes inv: "sd_inv s" and al: "allowed (Entry_end i os unique name actual_name st) s"
  shows "safe s (run_action (Entry_end i os unique name actual_name st) s)"
proof -
  have p: "used s (sd_entries s ! i)" using inv al by (auto simp: sd_inv_def)
  obtain r f where f: "reply_entry_locked os (sd_entries s ! i) name actual_name st (sd_fuse s) = Ok (r, f)"
    "derive f = derive (sd_fuse s)" "pk_inv f = pk_inv (sd_fuse s)" "ids_ok f"
    "case r of None \<Rightarrow> f = sd_fuse s
     | Some (a, out) \<Rightarrow> fs_inv f ((refs s)(a := Suc (refs s a))) \<and> unat (out_nodeid out) = a"
    using reply_entry_outcome [OF inv p, of os name actual_name st] al by auto
  define s0 where "s0 = s\<lparr>sd_entries := drop_nth i (sd_entries s)\<rparr>"
  have i0: "sd_inv s0" unfolding s0_def by (rule sd_inv_drop_entry [OF inv])
  have r0: "refs s0 = refs s" by (simp add: s0_def refs_def [abs_def] pins_def)
  show ?thesis
  proof (cases r)
    case None
    then have "s\<lparr>sd_fuse := f, sd_entries := drop_nth i (sd_entries s)\<rparr> = s0" using f(5) by (simp add: s0_def)
    then show ?thesis using f(1) None i0 by (simp add: Let_def)
  next
    case (Some x)
    then obtain a out where x: "r = Some (a, out)" by (cases x) auto
    let ?f = "fuse_reply os unique out 128 f" and ?nid = "out_nodeid out"
    have q: "inner ?f = inner f" by simp
    note sel = inner_sel [OF q]
    let ?s = "if os_writev os then s0\<lparr>sd_fuse := ?f, sd_held := (sd_held s0)(?nid := Suc (sd_held s0 ?nid))\<rparr>
      else s0\<lparr>sd_fuse := ?f, sd_lost := (sd_lost s0)(?nid := Suc (sd_lost s0 ?nid))\<rparr>"
    have "sd_inv ?s"
    proof (rule sd_inv_grant [OF i0 _ _ _ _ _ refl])
      show "fs_inv ?f ((refs s0)(a := Suc (refs s0 a)))" using f(5) x sel(11) by (simp add: r0)
      show "ids_ok ?f" using f(4) sel(4,5) by (simp add: ids_ok_def)
      show "derive ?f = derive (sd_fuse s0)" using f(2) sel(5) by (simp add: s0_def)
      show "pk_inv ?f = pk_inv (sd_fuse s0)" using f(3) sel(9) by (simp add: s0_def)
      show "unat ?nid = a" using f(5) x by simp
    qed
    moreover have "run_action (Entry_end i os unique name actual_name st) s = Ok ?s"
      using f(1) x by (simp add: Let_def s0_def)
    ultimately show ?thesis by (simp only: safe_Ok)
  qed
qed

lemma forget_loop_ok:
  assumes "fs_inv f X" and "n \<le> X a" and "2 \<le> (X(a := X a - n)) root_ptr"
  shows "\<exists>f'. forget_loop n a f = Ok f' \<and> fs_inv f' (X(a := X a - n)) \<and> only_nodes f f' \<and> attr_map f' \<subseteq>\<^sub>m attr_map f"
  using assms
proof (induction n arbitrary: f X)
  case (Suc n)
  have "2 \<le> (X(a := X a - 1)) root_ptr" using Suc.prems(3) by (auto split: if_splits)
  then obtain f1 where f1: "release a f = Ok f1" "fs_inv f1 (X(a := X a - 1))" "only_nodes f f1" "attr_map f1 \<subseteq>\<^sub>m attr_map f"
    using release_ok [OF Suc.prems(1), of a] Suc.prems(2) by auto
  have e: "(X(a := X a - 1))(a := (X(a := X a - 1)) a - n) = X(a := X a - Suc n)" by simp
  obtain f2 where f2: "forget_loop n a f1 = Ok f2" "fs_inv f2 (X(a := X a - Suc n))" "only_nodes f1 f2" "attr_map f2 \<subseteq>\<^sub>m attr_map f1"
  proof -
    have "n \<le> (X(a := X a - 1)) a" using Suc.prems(2) by simp
    from Suc.IH [OF f1(2) this, unfolded e, OF Suc.prems(3)] show thesis using that by blast
  qed
  have "forget_loop (Suc n) a f = Ok f2" using f1(1) f2(1) by simp
  moreover have "only_nodes f f2" "attr_map f2 \<subseteq>\<^sub>m attr_map f"
    using f1(3,4) f2(3,4) only_nodes_trans map_le_trans by blast+
  ultimately show ?case using f2(2) by blast
qed simp

lemma sd_inv_forget:
  assumes inv: "sd_inv s" and al: "allowed (Forget nid n) s" and f: "fs_inv f ((refs s)(unat nid := refs s (unat nid) - unat n))"
    and at: "ids_ok f" "derive f = derive (sd_fuse s)" "pk_inv f = pk_inv (sd_fuse s)"
  shows "sd_inv (s\<lparr>sd_fuse := f, sd_held := (sd_held s)(nid := sd_held s nid - unat n)\<rparr>)"
proof -
  let ?s = "s\<lparr>sd_fuse := f, sd_held := (sd_held s)(nid := sd_held s nid - unat n)\<rparr>"
  have le: "unat n \<le> sd_held s nid" using al by simp
  have "refs ?s = (refs s)(unat nid := refs s (unat nid) - unat n)"
    by (rule ext) (use le in \<open>auto simp: refs_def pins_def by_ptr_upd\<close>)
  moreover have u: "used ?s p" if "used s p" "p = unat nid \<Longrightarrow> in_use s nid" for p
  proof (cases "p = unat nid \<and> p \<noteq> root_ptr")
    case True
    then have "nid \<noteq> 1" by (auto simp: root_ptr_def)
    then have "unat n < sd_held s nid" using al that(2) True by simp
    then show ?thesis using True by (simp add: used_def by_ptr_upd)
  next
    case False
    then show ?thesis using that(1) by (auto simp: used_def by_ptr_upd)
  qed
  moreover have "used ?s p" if "p \<in> set (sd_entries s)" for p
    using that inv by (intro u) (auto simp: sd_inv_def in_use_def)
  moreover have "used ?s (rn_new_parent (fst r))" if r: "r \<in> set (sd_renames s)" for r
  proof (rule u)
    show "used s (rn_new_parent (fst r))" using inv r unfolding sd_inv_def by blast
    show "in_use s nid" if "rn_new_parent (fst r) = unat nid"
      using that r unfolding in_use_def by (metis (no_types, lifting) imageI)
  qed
  moreover have "rn_child (fst r) \<noteq> root_ptr" if "r \<in> set (sd_renames s)" for r
    using that inv unfolding sd_inv_def by blast
  ultimately show ?thesis using sd_invD(5) [OF inv] f at unfolding sd_inv_def by simp
qed

lemma forget_ok:
  assumes inv: "sd_inv s" and al: "allowed (Forget nid n) s"
  shows "\<exists>f. run_action (Forget nid n) s = Ok (s\<lparr>sd_fuse := f, sd_held := (sd_held s)(nid := sd_held s nid - unat n)\<rparr>) \<and>
    sd_inv (s\<lparr>sd_fuse := f, sd_held := (sd_held s)(nid := sd_held s nid - unat n)\<rparr>)"
proof -
  let ?X = "(refs s)(unat nid := refs s (unat nid) - unat n)"
  have le: "unat n \<le> sd_held s nid" using al by simp
  have "\<exists>f'. handle_forget hdr n (sd_fuse s) = Ok (NO_STATUS, f') \<and> fs_inv f' ?X \<and> only_nodes (sd_fuse s) f' \<and>
      attr_map f' \<subseteq>\<^sub>m attr_map (sd_fuse s)" if h: "hdr_nodeid hdr = nid" for hdr
  proof (cases "n = 0")
    case True
    then show ?thesis using sd_invD(1) [OF inv] h by (auto simp: handle_forget_def split: option.splits)
  next
    case False
    then have "0 < sd_held s nid" using le by (metis le_zero_eq neq0_conv unat_eq_zero)
    then have "lookup_node_by_id_locked nid = Some (unat nid)" using known_ptr(1) [OF inv] by (simp add: known_def)
    moreover have "unat n \<le> refs s (unat nid)" using le by (simp add: refs_def)
    moreover have "2 \<le> ?X root_ptr" using le by (auto simp: refs_def)
    ultimately show ?thesis
      using forget_loop_ok [OF sd_invD(1) [OF inv], of "unat n" "unat nid"] h by (auto simp: handle_forget_def)
  qed
  then obtain f' where f': "handle_forget \<lparr>hdr_len = 48, hdr_opcode = 2, hdr_unique = 0, hdr_nodeid = nid, hdr_uid = 0,
      hdr_gid = 0, hdr_pid = 0\<rparr> n (sd_fuse s) = Ok (NO_STATUS, f')" "fs_inv f' ?X" "only_nodes (sd_fuse s) f'"
      "attr_map f' \<subseteq>\<^sub>m attr_map (sd_fuse s)"
    by (metis (no_types, lifting) fuse_in_header.select_convs(4))
  show ?thesis
    using sd_inv_forget [OF inv al f'(2) ids_mono [OF sd_invD(3) [OF inv] f'(4) only_nodes_sel(1) [OF f'(3)]] only_nodes_sel(1,2) [OF f'(3)]]
      f'(1) by auto
qed

lemma forget_safe: "sd_inv s \<Longrightarrow> allowed (Forget nid n) s \<Longrightarrow> safe s (run_action (Forget nid n) s)"
  using forget_ok [of s nid n] by (auto simp: safe_def)

section \<open>Renaming\<close>

definition rename_post :: "sd \<Rightarrow> addr \<Rightarrow> int + rename_ctx \<Rightarrow> fuse \<Rightarrow> bool" where
  "rename_post s np r f \<longleftrightarrow>
     (case r of
        Inl _ \<Rightarrow> f = sd_fuse s
      | Inr ctx \<Rightarrow> fs_inv f ((refs s)(rn_child ctx := Suc (refs s (rn_child ctx)))) \<and> only_nodes (sd_fuse s) f \<and>
          attr_map f = attr_map (sd_fuse s) \<and> rn_child ctx \<noteq> root_ptr \<and> rn_new_parent ctx = np)"

lemma rename_child_outcome:
  assumes inv: "sd_inv s" and low: "counts_low (sd_fuse s)" and p: "nodes_of (sd_fuse s) p = Some pn"
  shows "(\<exists>r f. rename_child p np npp old_name (sd_fuse s) = Ok (r, f) \<and> rename_post s np r f) \<or>
    rename_child p np npp old_name (sd_fuse s) = Fault Out_Of_Bounds \<and> overflows (sd_fuse s)"
proof -
  note t = sd_invD(2) [OF inv]
  obtain c where c: "lookup_child_by_name_locked (sd_fuse s) p old_name = Ok c"
    "\<And>a. c = Some a \<Longrightarrow> a \<in> kids {} (links (sd_fuse s)) p"
    using lookup_child_ok [OF t p, of old_name] by blast
  show ?thesis
  proof (cases c)
    case None
    then show ?thesis using c(1) by (simp add: rename_child_def rename_post_def)
  next
    case (Some a)
    obtain n where n: "nodes_of (sd_fuse s) a = Some n" using kid_parent(4) [OF t c(2) [OF Some]] unfolding dom_links by blast
    obtain f where f: "acquire_node_locked a (sd_fuse s) = Ok f" "fs_inv f ((refs s)(a := Suc (refs s a)))"
      "only_nodes (sd_fuse s) f" "attr_map f = attr_map (sd_fuse s)"
      using acquire_ok [OF sd_invD(1) [OF inv] n counts_low_room [OF low]] by blast
    have "a \<noteq> root_ptr" using kid_parent(1) [OF t c(2) [OF Some]] .
    note d = c(1) Some f this
    from node_path_outcome [OF t n] show ?thesis
    proof
      assume "\<exists>r. node_path (sd_fuse s) a = Ok r"
      then obtain r where r: "node_path (sd_fuse s) a = Ok r" by blast
      show ?thesis using d r by (cases r) (simp_all add: rename_child_def rename_post_def)
    qed (use d in \<open>auto simp: rename_child_def overflows_def\<close>)
  qed
qed

lemma rename_lookup_outcome:
  assumes inv: "sd_inv s" and k: "known s (hdr_nodeid hdr)" "known s newdir" and low: "counts_low (sd_fuse s)"
  shows "(\<exists>r f. rename_lookup hdr newdir old_name new_name (sd_fuse s) = Ok (r, f) \<and> rename_post s (unat newdir) r f) \<or>
    rename_lookup hdr newdir old_name new_name (sd_fuse s) = Fault Out_Of_Bounds \<and> overflows (sd_fuse s)"
proof -
  let ?f = "sd_fuse s"
  obtain b where b: "get_caller_has_rw_locked ?f hdr = Ok b" using has_rw_ok [OF sd_invD(4) [OF inv]] by blast
  obtain on nn where on: "nodes_of ?f (unat (hdr_nodeid hdr)) = Some on" and nn: "nodes_of ?f (unat newdir) = Some nn"
    using known_ptr(2) [OF inv k(1)] known_ptr(2) [OF inv k(2)] by blast
  have nop: "rename_post s (unat newdir) (Inl e) ?f" for e by (simp add: rename_post_def)
  from lookup_path_outcome [OF inv k(1)] show ?thesis
  proof
    assume "lookup_node_and_path_by_id_locked ?f (hdr_nodeid hdr) = Fault Out_Of_Bounds \<and> overflows ?f"
    then show ?thesis using b by (simp add: rename_lookup_def)
  next
    assume "\<exists>r. lookup_node_and_path_by_id_locked ?f (hdr_nodeid hdr) = Ok r \<and>
      (\<forall>p path. r = Some (p, path) \<longrightarrow> p = unat (hdr_nodeid hdr))"
    then obtain r1 where r1: "lookup_node_and_path_by_id_locked ?f (hdr_nodeid hdr) = Ok r1"
      "\<And>p path. r1 = Some (p, path) \<Longrightarrow> p = unat (hdr_nodeid hdr)" by blast
    from lookup_path_outcome [OF inv k(2)] show ?thesis
    proof
      assume "lookup_node_and_path_by_id_locked ?f newdir = Fault Out_Of_Bounds \<and> overflows ?f"
      then show ?thesis using b r1 by (simp add: rename_lookup_def)
    next
      assume "\<exists>r. lookup_node_and_path_by_id_locked ?f newdir = Ok r \<and> (\<forall>p path. r = Some (p, path) \<longrightarrow> p = unat newdir)"
      then obtain r2 where r2: "lookup_node_and_path_by_id_locked ?f newdir = Ok r2"
        "\<And>p path. r2 = Some (p, path) \<Longrightarrow> p = unat newdir" by blast
      show ?thesis
      proof (cases "\<exists>p1 q1 p2 q2. r1 = Some (p1, q1) \<and> r2 = Some (p2, q2)")
        case False
        then have "rename_lookup hdr newdir old_name new_name ?f = Ok (Inl (- ENOENT), ?f)"
          using b r1(1) r2(1) by (cases r1; cases r2) (auto simp: rename_lookup_def)
        then show ?thesis using nop by blast
      next
        case True
        then obtain q1 q2 where q: "r1 = Some (unat (hdr_nodeid hdr), q1)" "r2 = Some (unat newdir, q2)"
          using r1(2) r2(2) by blast
        show ?thesis
        proof (cases "check_caller_access_to_name ?f hdr (Some on) old_name W_OK b \<and>
            check_caller_access_to_name ?f hdr (Some nn) new_name W_OK b")
          case False
          then have "rename_lookup hdr newdir old_name new_name ?f = Ok (Inl (- EACCES), ?f)"
            using b r1(1) r2(1) q on nn by (auto simp: rename_lookup_def get_node_ok)
          then show ?thesis using nop by blast
        next
          case True
          then show ?thesis
            using b r1(1) r2(1) q rename_child_outcome [OF inv low on, of "unat newdir" q2 old_name]
            by (simp add: rename_lookup_def get_node_ok [OF on] get_node_ok [OF nn])
        qed
      qed
    qed
  qed
qed

lemma rename_begin_safe:
  assumes inv: "sd_inv s" and al: "allowed (Rename_begin hdr newdir old_name new_name) s"
  shows "safe s (run_action (Rename_begin hdr newdir old_name new_name) s)"
proof -
  have k: "known s (hdr_nodeid hdr)" "known s newdir" "counts_low (sd_fuse s)" using al by auto
  have "sd_inv (case r of Inl res \<Rightarrow> s\<lparr>sd_fuse := f\<rparr>
      | Inr ctx \<Rightarrow> s\<lparr>sd_fuse := f, sd_renames := sd_renames s @ [(ctx, old_name, new_name)]\<rparr>)"
    if post: "rename_post s (unat newdir) r f" for r f
  proof (cases r)
    case (Inl e)
    then show ?thesis using post inv by (simp add: rename_post_def)
  next
    case (Inr ctx)
    let ?s = "s\<lparr>sd_fuse := f, sd_renames := sd_renames s @ [(ctx, old_name, new_name)]\<rparr>"
    have c: "fs_inv f ((refs s)(rn_child ctx := Suc (refs s (rn_child ctx))))" "only_nodes (sd_fuse s) f"
      "attr_map f = attr_map (sd_fuse s)" "rn_child ctx \<noteq> root_ptr" "rn_new_parent ctx = unat newdir"
      using post Inr by (simp_all add: rename_post_def)
    have "refs ?s = (refs s)(rn_child ctx := Suc (refs s (rn_child ctx)))"
      by (rule ext) (simp add: refs_def pins_def)
    moreover have "used ?s p = used s p" for p by (simp add: used_def)
    moreover have "ids_ok f" using sd_invD(3) [OF inv] c(2,3) only_nodes_sel(1) by (auto simp: ids_ok_def)
    moreover have "used s (unat newdir)" by (rule known_used [OF k(2)])
    ultimately show ?thesis
      using inv c only_nodes_sel [OF c(2)] Inr unfolding sd_inv_def by auto
  qed
  then show ?thesis
    using rename_lookup_outcome [OF inv k, of old_name new_name] unfolding run_action.simps
    by (intro safe_bind) (auto simp del: obind_eq_Ok obind_eq_Fault)
qed

end
