(* ===== verification/Sdcard_Run.thy ===== *)
theory Sdcard_Run
  imports Sdcard_System
begin

text \<open>
  Every action of the system keeps its invariant: the end of a rename, the requests that leave the tree alone, the reading of
  the package list, and the start. So every reachable state has it.
\<close>

section \<open>The end of a rename\<close>

lemma rename_io_inner: "rename_io os ctx old_name new_name f = (r, f') \<Longrightarrow> inner f' = inner f"
  by (auto simp: rename_io_def Let_def split: prod.splits option.splits sum.splits dest!: inner_find)

lemma rename_node_ok:
  assumes n: "nodes_of f c = Some n"
  shows "\<exists>res f'. rename_node_locked os c name actual_name f = Ok (res, f') \<and> links f' = links f \<and> only_nodes f f' \<and>
    (\<exists>n'. nodes_of f' c = Some n' \<and> link_of n' = link_of n) \<and> (ids_ok f \<longrightarrow> ids_ok f')"
proof -
  define n1 where "n1 = n\<lparr>nd_actual_name := (if name \<noteq> actual_name then Some (take (length name) actual_name) else None),
      nd_name := name, nd_namelen := of_nat (length name)\<rparr>"
  have l: "link_of n1 = link_of n" by (simp add: n1_def link_of_def)
  have nid: "nd_nid (attrs n1) = nd_nid (attrs n)" "typed d (attrs n1) = typed d (attrs n)" for d
    by (simp_all add: n1_def attrs_def typed_def)
  have "links (set_node c n1 f) = links f" using n l by (auto simp: links_apply fun_eq_iff)
  moreover have "ids_ok (set_node c n1 f)" if "ids_ok f"
  proof -
    have "attr_map f c = Some (attrs n)" using n by (simp add: attr_map_def)
    moreover have "derive (set_node c n1 f) = derive f" by (simp add: set_node_def)
    moreover have "typed (derive f) n" using ids_node(5) [OF that n] .
    ultimately show ?thesis using that nid unfolding ids_ok_def attr_map_set by simp
  qed
  moreover have "rename_node_locked os c name actual_name f = Ok (0, set_node c n1 f) \<or>
      rename_node_locked os c name actual_name f = Ok (- ENOMEM, f)"
    unfolding rename_node_locked_def n1_def using n by (simp add: get_node_ok Let_def)
  ultimately show ?thesis using n l by (elim disjE) (auto intro!: exI)
qed

lemma move_ok:
  assumes inv: "fs_inv f X" and c: "0 < X c" "c \<noteq> root_ptr" and np: "np = root_ptr \<or> 0 < X np"
    and ac: "c \<notin> anc {} (links f) np" and low: "\<And>n. nodes_of f np = Some n \<Longrightarrow> unat (nd_refcount n) + 1 < 2 ^ 32"
  shows "\<exists>f2 f3. remove_node_from_parent_locked (node_fuel f) c f = Ok f2 \<and> add_node_to_parent_locked c np f2 = Ok f3 \<and>
    fs_inv f3 X \<and> only_nodes f f3 \<and> attr_map f3 \<subseteq>\<^sub>m attr_map f"
proof -
  have t: "tree_ok {} (links f) X" "live_ok {} (links f)" "2 \<le> X root_ptr" using inv by (auto simp: fs_inv_def)
  obtain nc where nc: "nodes_of f c = Some nc" using held_node [OF t(1) c(1)] by blast
  obtain f2 where f2: "remove_node_from_parent_locked (node_fuel f) c f = Ok f2" "tree_ok {c} (links f2) X" "live_ok {c} (links f2)"
    "nodes_of f2 c = Some (nc\<lparr>nd_parent := None, nd_next := None\<rparr>)" "only_nodes f f2" "attr_map f2 \<subseteq>\<^sub>m attr_map f"
    "parents_le {c} f f2" using remove_node_ok [OF inv nc c(2)] by blast
  have "0 < X np" using np t(3) by auto
  then obtain n2 n where n2: "nodes_of f2 np = Some n2" and n: "nodes_of f np = Some n"
    using held_node [OF f2(2)] held_node [OF t(1)] by blast
  have sub: "par {c} (links f2) \<subseteq> par {} (links f)" by (rule parents_le_par [OF f2(7)])
  then have ac2: "c \<notin> anc {c} (links f2) np" using anc_mono [OF sub] ac by blast
  have "kids {c} (links f2) np \<subseteq> kids {} (links f) np" using sub by (auto simp: par_def)
  then have "card (kids {c} (links f2) np) \<le> card (kids {} (links f) np)" by (rule card_mono [OF finite_kids [OF t(1)]])
  then have "unat (nd_refcount n2) \<le> unat (nd_refcount n)"
    using tree_okD(8) [OF f2(2) links_some [OF n2]] tree_okD(8) [OF t(1) links_some [OF n]] by simp
  then have room: "room f2 np" using low [OF n] n2 by (simp add: room_def)
  have rc: "nd_refcount (nc\<lparr>nd_parent := None, nd_next := None\<rparr>) \<noteq> 0"
  proof -
    have "lk_refs (link_of nc) \<noteq> 0" using t(2) links_some [OF nc] unfolding live_ok_def by blast
    then show ?thesis by (auto simp: unat_eq_zero)
  qed
  obtain f3 where "add_node_to_parent_locked c np f2 = Ok f3" "fs_inv f3 X" "only_nodes f2 f3" "attr_map f3 = attr_map f2"
    using attach_ok [OF f2(2,3,4) rc n2 ac2 room t(3)] by blast
  then show ?thesis using f2(1,5,6) only_nodes_trans by metis
qed

lemma sd_inv_unpin:
  assumes inv: "sd_inv s" and j: "j < length (sd_renames s)"
    and f: "fs_inv f ((refs s)(c := refs s c - 1))" and c: "c = rn_child (fst (sd_renames s ! j))"
    and at: "ids_ok f" "derive f = derive (sd_fuse s)" "pk_inv f = pk_inv (sd_fuse s)"
  shows "sd_inv (s\<lparr>sd_fuse := f, sd_renames := drop_nth j (sd_renames s)\<rparr>)"
proof -
  let ?s = "s\<lparr>sd_fuse := f, sd_renames := drop_nth j (sd_renames s)\<rparr>"
  have "refs s a = refs ?s a + (if a = c then 1 else 0)" for a
    using count_drop_nth [OF j, of "\<lambda>r. rn_child (fst r)" a] by (simp add: refs_def pins_def c)
  then have r: "refs ?s = (refs s)(c := refs s c - 1)" by (intro ext) auto
  have "used ?s p = used s p" for p by (simp add: used_def)
  moreover have "set (drop_nth j (sd_renames s)) \<subseteq> set (sd_renames s)" by (rule set_drop_nth)
  ultimately show ?thesis
    using inv f at unfolding sd_inv_def r by auto
qed

lemma rename_end_safe:
  assumes inv: "sd_inv s" and al: "allowed (Rename_end j os) s"
  shows "safe s (run_action (Rename_end j os) s)"
proof -
  obtain ctx old_name new_name where j: "sd_renames s ! j = (ctx, old_name, new_name)" by (cases "sd_renames s ! j") auto
  have jl: "j < length (sd_renames s)" and low: "counts_low (sd_fuse s)"
    and ac: "rn_child ctx \<notin> anc {} (links (sd_fuse s)) (rn_new_parent ctx)" using al j by auto
  have mem: "(ctx, old_name, new_name) \<in> set (sd_renames s)" using jl j by (metis nth_mem)
  have cr: "rn_child ctx \<noteq> root_ptr" and up: "used s (rn_new_parent ctx)"
    using inv mem unfolding sd_inv_def by force+
  let ?c = "rn_child ctx" and ?X = "(refs s)(rn_child ctx := refs s (rn_child ctx) - 1)"
  have pin: "0 < refs s ?c"
    using count_drop_nth [OF jl, of "\<lambda>r. rn_child (fst r)" ?c] j by (simp add: refs_def pins_def)
  obtain r f where io: "rename_io os ctx old_name new_name (sd_fuse s) = (r, f)" by (cases "rename_io os ctx old_name new_name (sd_fuse s)")
  note q = inner_sel [OF rename_io_inner [OF io]]
  have i0: "fs_inv f (refs s)" "ids_ok f" "derive f = derive (sd_fuse s)" "pk_inv f = pk_inv (sd_fuse s)"
    using sd_invD(1,3) [OF inv] q by (simp_all add: ids_ok_def)
  have rt: "2 \<le> ?X root_ptr" using sd_invD(1) [OF inv] cr by (simp add: fs_inv_def)
  have fin: "\<exists>f5. release ?c f4 = Ok f5 \<and> fs_inv f5 ?X \<and> ids_ok f5 \<and> derive f5 = derive (sd_fuse s) \<and> pk_inv f5 = pk_inv (sd_fuse s)"
    if f4: "fs_inv f4 (refs s)" "ids_ok f4" "derive f4 = derive (sd_fuse s)" "pk_inv f4 = pk_inv (sd_fuse s)" for f4
  proof -
    obtain f5 where "release ?c f4 = Ok f5" "fs_inv f5 ?X" "only_nodes f4 f5" "attr_map f5 \<subseteq>\<^sub>m attr_map f4"
      using release_ok [OF f4(1) pin rt] by blast
    then show ?thesis using f4 ids_mono only_nodes_sel(1,2) by metis
  qed
  have "\<exists>res f5. rename_finish os ctx new_name r f = Ok (res, f5) \<and> fs_inv f5 ?X \<and> ids_ok f5 \<and>
      derive f5 = derive (sd_fuse s) \<and> pk_inv f5 = pk_inv (sd_fuse s)"
  proof (cases r)
    case (Inl e)
    then show ?thesis using fin [OF i0] by (auto simp: rename_finish_def)
  next
    case (Inr actual)
    have t: "tree_ok {} (links f) (refs s)" using i0(1) by (simp add: fs_inv_def)
    obtain n where n: "nodes_of f ?c = Some n" using held_node [OF t pin] by blast
    obtain res f1 where f1: "rename_node_locked os ?c new_name actual f = Ok (res, f1)" "links f1 = links f" "only_nodes f f1"
      "ids_ok f \<longrightarrow> ids_ok f1"
      using rename_node_ok [OF n, of os new_name actual] by blast
    have i1: "fs_inv f1 (refs s)" "ids_ok f1" "derive f1 = derive (sd_fuse s)" "pk_inv f1 = pk_inv (sd_fuse s)"
      using i0 f1 only_nodes_sel [OF f1(3)] by (simp_all add: fs_inv_def)
    show ?thesis
    proof (cases "res = 0")
      case False
      then show ?thesis using fin [OF i1] f1(1) Inr by (auto simp: rename_finish_def)
    next
      case True
      have ac1: "?c \<notin> anc {} (links f1) (rn_new_parent ctx)" using ac q(3) f1(2) by simp
      have low1: "unat (nd_refcount m) + 1 < 2 ^ 32" if m: "nodes_of f1 (rn_new_parent ctx) = Some m" for m
      proof -
        have "links (sd_fuse s) (rn_new_parent ctx) = Some (link_of m)" using links_some [OF m] f1(2) q(3) by simp
        then obtain m0 where "nodes_of (sd_fuse s) (rn_new_parent ctx) = Some m0" "link_of m = link_of m0"
          unfolding links_nodes by blast
        then show ?thesis using low unfolding counts_low_def by (metis add_lessD1 add_2_eq_Suc' link_of_sel(4) Suc_eq_plus1 add_Suc_right)
      qed
      have u: "rn_new_parent ctx = root_ptr \<or> 0 < refs s (rn_new_parent ctx)" using up by (auto simp: used_def refs_def)
      obtain f2 f3 where f3: "remove_node_from_parent_locked (node_fuel f1) ?c f1 = Ok f2"
        "add_node_to_parent_locked ?c (rn_new_parent ctx) f2 = Ok f3" "fs_inv f3 (refs s)" "only_nodes f1 f3" "attr_map f3 \<subseteq>\<^sub>m attr_map f1"
        using move_ok [OF i1(1) pin cr u ac1 low1] by blast
      have i3: "ids_ok f3" "derive f3 = derive (sd_fuse s)" "pk_inv f3 = pk_inv (sd_fuse s)"
        using i1 ids_mono [OF i1(2) f3(5) only_nodes_sel(1) [OF f3(4)]] only_nodes_sel [OF f3(4)] by simp_all
      show ?thesis using fin [OF f3(3) i3] f1(1) f3(1,2) Inr True by (auto simp: rename_finish_def)
    qed
  qed
  then obtain res f5 where f5: "rename_finish os ctx new_name r f = Ok (res, f5)" "fs_inv f5 ?X" "ids_ok f5"
    "derive f5 = derive (sd_fuse s)" "pk_inv f5 = pk_inv (sd_fuse s)" by blast
  have "sd_inv (s\<lparr>sd_fuse := f5, sd_renames := drop_nth j (sd_renames s)\<rparr>)"
    by (rule sd_inv_unpin [OF inv jl f5(2) _ f5(3-5)]) (simp add: j)
  then show ?thesis using j io f5(1) by simp
qed

section \<open>Requests that leave the tree alone\<close>

definition quiet :: "fuse \<Rightarrow> (int \<times> fuse) outcome \<Rightarrow> bool" where
  "quiet f r \<longleftrightarrow> (\<exists>res f'. r = Ok (res, f') \<and> inner f' = inner f) \<or>
     r = Fault Out_Of_Bounds \<and> overflows f"

lemma quiet_Ok [simp]: "quiet f (Ok (res, f')) \<longleftrightarrow> inner f' = inner f"
  by (simp add: quiet_def)

lemma quiet_Fault [simp]: "overflows f \<Longrightarrow> quiet f (Fault Out_Of_Bounds)"
  by (simp add: quiet_def)

lemma quiet_lookup:
  assumes inv: "sd_inv s" and k: "known s nid" and none: "quiet (sd_fuse s) (g None)"
    and some: "\<And>n path. nodes_of (sd_fuse s) (unat nid) = Some n \<Longrightarrow> quiet (sd_fuse s) (g (Some (unat nid, path)))"
  shows "quiet (sd_fuse s) (obind (lookup_node_and_path_by_id_locked (sd_fuse s) nid) g)"
proof -
  obtain n where n: "nodes_of (sd_fuse s) (unat nid) = Some n" using known_ptr(2) [OF inv k] by blast
  from lookup_path_outcome [OF inv k] show ?thesis
  proof
    assume "\<exists>r. lookup_node_and_path_by_id_locked (sd_fuse s) nid = Ok r \<and> (\<forall>p path. r = Some (p, path) \<longrightarrow> p = unat nid)"
    then obtain r where r: "lookup_node_and_path_by_id_locked (sd_fuse s) nid = Ok r" "\<forall>p path. r = Some (p, path) \<longrightarrow> p = unat nid"
      by blast
    show ?thesis
    proof (cases r)
      case None
      then show ?thesis using r(1) none by simp
    next
      case (Some x)
      then obtain path where "r = Some (unat nid, path)" using r(2) by (cases x) auto
      then show ?thesis using r(1) some [OF n] by simp
    qed
  qed simp
qed

lemma access_outcome:
  assumes inv: "sd_inv s" and n: "nodes_of (sd_fuse s) a = Some n"
  shows "\<exists>b. check_caller_access_to_node (sd_fuse s) hdr n mode rw = Ok b"
proof (cases "nd_parent n")
  case (Some p)
  have "a \<in> kids {} (links (sd_fuse s)) p" using links_some [OF n] Some by (auto simp: kids_def)
  then obtain m where "nodes_of (sd_fuse s) p = Some m"
    using kid_parent(2) [OF sd_invD(2) [OF inv]] unfolding dom_links by blast
  then show ?thesis using Some by (simp add: check_caller_access_to_node_def get_node_ok)
qed (simp add: check_caller_access_to_node_def)

lemma quiet_attr:
  assumes "inner f1 = inner f" and "nodes_of f a = Some n"
  shows "quiet f (fuse_reply_attr os u a path f1)"
  using assms inner_sel(2) [of "issue (Lstat path) f1" f]
  by (auto simp: fuse_reply_attr_def Let_def get_node_ok split: sum.splits)

text \<open>What a handler that names a node meets.\<close>

lemma node_request:
  assumes inv: "sd_inv s" and k: "known s (hdr_nodeid hdr)"
  obtains n rw where "get_node (sd_fuse s) (unat (hdr_nodeid hdr)) = Ok n" "nodes_of (sd_fuse s) (unat (hdr_nodeid hdr)) = Some n"
    "get_caller_has_rw_locked (sd_fuse s) hdr = Ok rw"
    "\<And>mode b. \<exists>ok. check_caller_access_to_node (sd_fuse s) hdr n mode b = Ok ok"
proof -
  obtain n where n: "nodes_of (sd_fuse s) (unat (hdr_nodeid hdr)) = Some n" using known_ptr(2) [OF inv k] by blast
  obtain rw where "get_caller_has_rw_locked (sd_fuse s) hdr = Ok rw" using has_rw_ok [OF sd_invD(4) [OF inv]] by blast
  then show thesis using that get_node_ok [OF n] n access_outcome [OF inv n] by blast
qed

lemma quiet_getattr:
  assumes inv: "sd_inv s" and k: "known s (hdr_nodeid hdr)"
  shows "quiet (sd_fuse s) (handle_getattr os hdr (sd_fuse s))"
proof -
  obtain n rw where n: "get_node (sd_fuse s) (unat (hdr_nodeid hdr)) = Ok n" "nodes_of (sd_fuse s) (unat (hdr_nodeid hdr)) = Some n"
    "\<And>mode b. \<exists>ok. check_caller_access_to_node (sd_fuse s) hdr n mode b = Ok ok" using node_request [OF assms] by metis
  obtain ok where ok: "check_caller_access_to_node (sd_fuse s) hdr n R_OK False = Ok ok" using n(3) by blast
  show ?thesis
    unfolding handle_getattr_def
    by (rule quiet_lookup [OF inv k]) (use n ok quiet_attr [OF refl n(2)] in auto)
qed

lemma quiet_setattr:
  assumes inv: "sd_inv s" and k: "known s (hdr_nodeid hdr)"
  shows "quiet (sd_fuse s) (handle_setattr os hdr req (sd_fuse s))"
proof -
  obtain n rw where n: "get_node (sd_fuse s) (unat (hdr_nodeid hdr)) = Ok n" "nodes_of (sd_fuse s) (unat (hdr_nodeid hdr)) = Some n"
    "get_caller_has_rw_locked (sd_fuse s) hdr = Ok rw"
    "\<And>mode b. \<exists>ok. check_caller_access_to_node (sd_fuse s) hdr n mode b = Ok ok" using node_request [OF assms] by metis
  obtain ok where ok: "check_caller_access_to_node (sd_fuse s) hdr n W_OK rw = Ok ok" using n(4) by blast
  have a: "quiet (sd_fuse s) (fuse_reply_attr os u (unat (hdr_nodeid hdr)) path f1)" if "inner f1 = inner (sd_fuse s)" for f1 u path
    by (rule quiet_attr [OF that n(2)])
  show ?thesis
    unfolding handle_setattr_def n(3) obind.simps
    by (rule quiet_lookup [OF inv k]) (use n(1) ok a in \<open>auto simp: Let_def split: sum.splits\<close>)
qed

lemma quiet_open:
  assumes inv: "sd_inv s" and k: "known s (hdr_nodeid hdr)"
  shows "quiet (sd_fuse s) (handle_open os hdr flags (sd_fuse s))"
proof -
  obtain n rw where n: "get_node (sd_fuse s) (unat (hdr_nodeid hdr)) = Ok n"
    "get_caller_has_rw_locked (sd_fuse s) hdr = Ok rw"
    "\<And>mode b. \<exists>ok. check_caller_access_to_node (sd_fuse s) hdr n mode b = Ok ok" using node_request [OF assms] by metis
  obtain ok where ok: "check_caller_access_to_node (sd_fuse s) hdr n (open_flags_to_access_mode flags) rw = Ok ok" using n(3) by blast
  show ?thesis
    unfolding handle_open_def n(2) obind.simps
    by (rule quiet_lookup [OF inv k]) (use n(1) ok in \<open>auto simp: Let_def split: sum.splits option.splits\<close>)
qed

lemma quiet_opendir:
  assumes inv: "sd_inv s" and k: "known s (hdr_nodeid hdr)"
  shows "quiet (sd_fuse s) (handle_opendir os hdr (sd_fuse s))"
proof -
  obtain n rw where n: "get_node (sd_fuse s) (unat (hdr_nodeid hdr)) = Ok n"
    "\<And>mode b. \<exists>ok. check_caller_access_to_node (sd_fuse s) hdr n mode b = Ok ok" using node_request [OF assms] by metis
  obtain ok where ok: "check_caller_access_to_node (sd_fuse s) hdr n R_OK False = Ok ok" using n(2) by blast
  show ?thesis
    unfolding handle_opendir_def
    by (rule quiet_lookup [OF inv k]) (use n(1) ok in \<open>auto simp: Let_def split: sum.splits option.splits\<close>)
qed

text \<open>\<open>enter_child\<close>, and the two handlers that only make one call after it.\<close>

lemma enter_child_outcome:
  assumes inv: "sd_inv s" and k: "known s (hdr_nodeid hdr)"
  shows "(\<exists>r f. enter_child os hdr name (sd_fuse s) = Ok (r, f) \<and> inner f = inner (sd_fuse s) \<and>
      (\<forall>p pn actual_name path. r = Inr (p, pn, actual_name, path) \<longrightarrow> p = unat (hdr_nodeid hdr))) \<or>
    enter_child os hdr name (sd_fuse s) = Fault Out_Of_Bounds \<and> overflows (sd_fuse s)"
proof -
  obtain n rw where n: "nodes_of (sd_fuse s) (unat (hdr_nodeid hdr)) = Some n"
    "get_caller_has_rw_locked (sd_fuse s) hdr = Ok rw" using node_request [OF assms] by metis
  from lookup_path_outcome [OF inv k] show ?thesis
  proof
    assume "lookup_node_and_path_by_id_locked (sd_fuse s) (hdr_nodeid hdr) = Fault Out_Of_Bounds \<and> overflows (sd_fuse s)"
    then show ?thesis using n(2) by (simp add: enter_child_def)
  next
    assume "\<exists>r. lookup_node_and_path_by_id_locked (sd_fuse s) (hdr_nodeid hdr) = Ok r \<and>
      (\<forall>p path. r = Some (p, path) \<longrightarrow> p = unat (hdr_nodeid hdr))"
    then obtain r where r: "lookup_node_and_path_by_id_locked (sd_fuse s) (hdr_nodeid hdr) = Ok r"
      "\<forall>p path. r = Some (p, path) \<longrightarrow> p = unat (hdr_nodeid hdr)" by blast
    show ?thesis
    proof (cases r)
      case None
      then show ?thesis using r(1) n(2) by (simp add: enter_child_def)
    next
      case (Some x)
      then obtain path where p: "r = Some (unat (hdr_nodeid hdr), path)" using r(2) by (cases x) auto
      obtain w f1 where w: "find_file_within os path name PATH_MAX True (sd_fuse s) = (w, f1)" by fastforce
      have q: "inner f1 = inner (sd_fuse s)" by (rule inner_find [OF w])
      have g: "get_node f1 (unat (hdr_nodeid hdr)) = Ok n" using inner_sel(2) [OF q] n(1) by (simp add: get_node_ok)
      show ?thesis
      proof (cases w)
        case None
        then show ?thesis using r(1) n(2) p w q by (simp add: enter_child_def)
      next
        case (Some y)
        then show ?thesis using r(1) n(2) p w q g by (cases y) (simp add: enter_child_def)
      qed
    qed
  qed
qed

lemma quiet_unlink:
  assumes inv: "sd_inv s" and k: "known s (hdr_nodeid hdr)"
  shows "quiet (sd_fuse s) (handle_unlink os hdr name (sd_fuse s))" and "quiet (sd_fuse s) (handle_rmdir os hdr name (sd_fuse s))"
  using enter_child_outcome [OF assms, of os name]
  by (auto simp: handle_unlink_def handle_rmdir_def split: sum.splits)

lemma quiet_statfs:
  assumes inv: "sd_inv s"
  shows "quiet (sd_fuse s) (handle_statfs os hdr (sd_fuse s))"
proof -
  note t = sd_invD(2) [OF inv]
  obtain n where n: "nodes_of (sd_fuse s) root_ptr = Some n" using tree_okD(3) [OF t] unfolding dom_links by blast
  from node_path_outcome [OF t n] show ?thesis
  proof
    assume "\<exists>r. node_path (sd_fuse s) root_ptr = Ok r"
    then obtain r where r: "node_path (sd_fuse s) root_ptr = Ok r" by blast
    show ?thesis
      using r get_node_ok [OF n] by (cases r) (auto simp: handle_statfs_def Let_def split: sum.splits)
  qed (auto simp: handle_statfs_def overflows_def intro!: quiet_Fault)
qed

lemma quiet_files:
  assumes "get_handle f fh = Ok fd"
  shows "quiet f (handle_read os hdr fh off sz f)" and "quiet f (handle_write os hdr fh off buf f)"
    and "quiet f (handle_release fh f)" and "quiet f (handle_fsync os fh fl f)"
  using assms by (auto simp: handle_read_def handle_write_def handle_release_def handle_fsync_def Let_def split: sum.splits)

lemma quiet_dirs:
  assumes "get_dirhandle f fh = Ok d"
  shows "(\<And>c d_type d_name. os_dirent os c = Some (d_type, d_name) \<Longrightarrow> length d_name \<le> 255) \<Longrightarrow>
      quiet f (handle_readdir os hdr fh off f)"
    and "quiet f (handle_releasedir fh f)"
  using assms by (fastforce simp: handle_readdir_def handle_releasedir_def Let_def split: option.splits)+

lemma plain_quiet:
  assumes inv: "sd_inv s" and al: "allowed (Plain os hdr req) s"
  shows "quiet (sd_fuse s) (handle_fuse_request os hdr req (sd_fuse s))"
proof -
  have k: "known s (hdr_nodeid hdr)" and h: "handles_ok os req (sd_fuse s)" and p: "plain req" using al by auto
  show ?thesis
    unfolding handle_fuse_request_def
    by (cases req) (use h p quiet_getattr [OF inv k] quiet_setattr [OF inv k] quiet_open [OF inv k] quiet_opendir [OF inv k]
        quiet_unlink [OF inv k] quiet_statfs [OF inv] quiet_files quiet_dirs
        in \<open>auto simp: open_handle_def open_dir_def handle_flush_def handle_init_def\<close>)
qed

lemma plain_safe:
  assumes inv: "sd_inv s" and al: "allowed (Plain os hdr req) s"
  shows "safe s (run_action (Plain os hdr req) s)"
  using plain_quiet [OF assms] unfolding quiet_def
proof
  assume "\<exists>res f'. handle_fuse_request os hdr req (sd_fuse s) = Ok (res, f') \<and> inner f' = inner (sd_fuse s)"
  then obtain res f' where f': "handle_fuse_request os hdr req (sd_fuse s) = Ok (res, f')" "inner f' = inner (sd_fuse s)" by blast
  have "sd_inv (s\<lparr>sd_fuse := (if res \<noteq> NO_STATUS then fuse_status (hdr_unique hdr) res f' else f')\<rparr>)"
    by (rule sd_inv_inner [OF inv]) (simp add: f'(2))
  then show ?thesis using f'(1) by simp
qed (simp add: safe_def)

section \<open>The package list and the start\<close>

lemma packages_safe:
  assumes inv: "sd_inv s" and al: "allowed (Packages file) s"
  shows "safe s (run_action (Packages file) s)"
proof -
  have d: "derive (sd_fuse s) \<noteq> DERIVE_NONE" using al by simp
  have small: "length (fgets_lines contents) \<le> 2 ^ 29" if "file = Some contents" for contents using al that by simp
  obtain ps f where f: "read_package_list file (sd_fuse s) = Ok (if file = None then - 1 else 0, f)" "rest f = rest (sd_fuse s)" "holds ps f"
    using read_packages_ok [OF sd_invD(5) [OF inv d] small] by blast
  have "pk_inv f" using f(3) by (simp add: holds_def)
  then have "sd_inv (s\<lparr>sd_fuse := f\<rparr>)"
    using inv rest_sel [OF f(2)] by (auto simp: sd_inv_def fs_inv_def ids_ok_def used_def refs_def [abs_def] pins_def)
  then show ?thesis using f(1) by simp
qed

lemma inner_prepare: "inner (snd (fs_prepare_dir os path mode uid gid f)) = inner f"
  by (auto simp: fs_prepare_dir_def fixup_dir_def Let_def split: sum.splits)

lemma root_tree:
  assumes "node_heap f = [(root_ptr, root_node source_path (derive f))]"
  shows "sd_inv (start f) \<longleftrightarrow> (derive f \<noteq> DERIVE_NONE \<longrightarrow> pk_inv f)"
proof -
  let ?n = "root_node source_path (derive f)"
  have n: "nodes_of f = [root_ptr \<mapsto> ?n]" using assms by (simp add: nodes_of_def)
  have l: "links f = [root_ptr \<mapsto> link_of ?n]" by (auto simp: links_apply n fun_eq_iff)
  have ln: "link_of ?n = \<lparr>lk_next = None, lk_child = None, lk_parent = None, lk_refs = 2\<rparr>"
    by (simp add: link_of_def root_node_def blank_node_def)
  have k: "kids {} (links f) p = {}" for p by (auto simp: kids_def l ln)
  have r: "refs (start f) = (\<lambda>a. if a = root_ptr then 2 else 0)" by (auto simp: refs_def start_def by_ptr_def pins_def fun_eq_iff)
  have "tree_ok {} (links f) (refs (start f))"
  proof (rule tree_okI)
    show "acyclic (par {} (links f))" by (simp add: par_def k acyclic_def)
    show "siblings_ok {} (links f) p l" if "links f p = Some l" for p l
      using that unfolding siblings_ok_def k by (intro exI [of _ "[]"]) (auto simp: l ln split: if_splits)
  qed (use k in \<open>auto simp: l ln parent_ok_def r split: if_splits\<close>)
  moreover have "live_ok {} (links f)" by (auto simp: live_ok_def l ln split: if_splits)
  moreover have "typed (derive f) (attrs ?n)"
    by (cases "derive f") (simp_all add: typed_def attrs_def root_node_def blank_node_def)
  then have "ids_ok f"
    by (auto simp: ids_ok_def attr_map_def n attrs_def root_node_def root_ptr_def split: if_splits)
  ultimately show ?thesis by (auto simp: sd_inv_def fs_inv_def r) (auto simp: start_def)
qed

lemma init_inv:
  assumes "fuse_init os uid gid source_path w d split = Ok f"
  shows "sd_inv (start f)"
proof -
  obtain m :: "(key, u32) Hashmap" where m: "hashmapCreate True True 256 (Some str_hash) (Some key_eq) = Ok (Some m)" "hm_ok str_hash key_eq m"
    "hm_size m = 0" using pkgk.create_ok [of 256] by blast
  obtain a :: "(u32, u32) Hashmap" where a: "hashmapCreate True True 128 (Some int_hash) (Some int_equals) = Ok (Some a)" "hm_ok int_hash int_equals a"
    using appk.create_ok [of 128] by blast
  define m' where "m' = m\<lparr>hm_equals := str_icase_equals\<rparr>"
  have e: "entries m = []" using m(2,3) by (simp add: hm_ok_def)
  have "hm_equals m = key_eq" using m(2) by (simp add: hm_ok_def)
  then have "strict m' = m" by (cases m) (simp add: strict_def m'_def)
  then have m': "hashmapCreate True True 256 (Some str_hash) (Some str_icase_equals) = Ok (Some m')" "pkg_ok m'" "entries m' = []"
    using m e strict_sel(6) [of m'] by (auto simp: pkg_ok_def m'_def hashmapCreate_def Let_def split: option.splits)
  have "node_heap f = [(root_ptr, root_node source_path d)] \<and> derive f = d \<and> (d \<noteq> DERIVE_NONE \<longrightarrow> pk_inv f)"
  proof (cases d)
    case DERIVE_NONE
    then show ?thesis using assms by (auto simp: fuse_init_def)
  next
    case DERIVE_LEGACY
    let ?f = "\<lparr>node_heap = [(root_ptr, root_node source_path d)], next_generation = 0, derive = d, split_perms = split,
               write_gid = w, obbpath = take (PATH_MAX - 1) (source_path @ ''/obb''), package_to_appid = Some m', appid_with_rw = Some a,
               key_heap = [], key_next = 1, handle_heap = [], dir_heap = [], sys_calls = [], replies = []\<rparr>"
    have "inner f = inner ?f"
      using assms DERIVE_LEGACY m'(1) a(1) by (auto simp: fuse_init_def Let_def inner_prepare)
    from inner_sel [OF this] show ?thesis using m' a(2) by (simp add: pk_inv_def)
  next
    case DERIVE_UNIFIED
    then show ?thesis using assms m' a by (auto simp: fuse_init_def Let_def pk_inv_def)
  qed
  then show ?thesis using root_tree by metis
qed

section \<open>Every reachable state\<close>

theorem action_safe:
  assumes "sd_inv s" and "allowed act s"
  shows "safe s (run_action act s)"
  using assms
  by (cases act) (auto intro: entry_begin_safe entry_drop_safe entry_end_safe forget_safe rename_begin_safe rename_end_safe
      plain_safe packages_safe simp del: run_action.simps simp: allowed.simps(1))

lemma reachable_inv: "reachable s \<Longrightarrow> sd_inv s"
proof (induction rule: reachable.induct)
  case (reachable_init os uid gid source_path w d split f)
  then show ?case by (rule init_inv)
next
  case (reachable_step s act s')
  then show ?case using action_safe [of s act] by (simp add: safe_def)
qed

end
