(* ===== verification/Sdcard_Guard.thy ===== *)
theory Sdcard_Guard
  imports Sdcard_Run
begin

text \<open>
  What a request is allowed to change on the disk: every system call a handler makes is in \<open>sys_calls\<close>, and one that
  modifies a file or directory is made only for a caller who may change the name it is about.
\<close>

section \<open>The policy\<close>

text \<open>
  Writing through an open file is not among these calls: the right to write is checked when the file is opened.
\<close>

fun modifies :: "syscall \<Rightarrow> bool" where
  "modifies (Mknod path mode rdev) = True"
| "modifies (Mkdir path mode) = True"
| "modifies (Chmod path mode) = True"
| "modifies (Chown path uid gid) = True"
| "modifies (Unlink path) = True"
| "modifies (Rmdir path) = True"
| "modifies (Rename old new) = True"
| "modifies (Truncate path len) = True"
| "modifies (Utimensat path atime mtime) = True"
| "modifies (Open path flags) = (flags AND O_ACCMODE \<noteq> O_RDONLY)"
| "modifies (Open_new path mode) = True"
| "modifies c = False"

definition protected_name :: "string \<Rightarrow> bool" where
  "protected_name name \<longleftrightarrow> list_ex (strcaseeq name) [''autorun.inf'', ''.android_secure'', ''android_secure'']"

text \<open>The names a request is about, each with the node of its directory.\<close>

fun targets :: "fuse \<Rightarrow> addr \<Rightarrow> request \<Rightarrow> (addr option \<times> string) list" where
  "targets f a (FUSE_SETATTR sa) = (case nodes_of f a of None \<Rightarrow> [] | Some n \<Rightarrow> [(nd_parent n, nd_name n)])"
| "targets f a (FUSE_OPEN flags) = (case nodes_of f a of None \<Rightarrow> [] | Some n \<Rightarrow> [(nd_parent n, nd_name n)])"
| "targets f a (FUSE_MKNOD mode rdev name) = [(Some a, name)]"
| "targets f a (FUSE_MKDIR mode name) = [(Some a, name)]"
| "targets f a (FUSE_UNLINK name) = [(Some a, name)]"
| "targets f a (FUSE_RMDIR name) = [(Some a, name)]"
| "targets f a (FUSE_RENAME newdir old_name new_name) = [(Some a, old_name), (Some (unat newdir), new_name)]"
| "targets f a req = []"

text \<open>
  The rule, in terms of the package list \<open>ps\<close>: no protected name at the top of a user's storage, and the caller is root,
  is an application of the list with the write group, or owns the directory.
\<close>

definition may_modify :: "(string \<times> u32 \<times> string) list \<Rightarrow> fuse \<Rightarrow> u32 \<Rightarrow> addr option \<times> string \<Rightarrow> bool" where
  "may_modify ps f uid t \<longleftrightarrow>
     (case fst t of None \<Rightarrow> True | Some d \<Rightarrow>
        (case nodes_of f d of None \<Rightarrow> True | Some pn \<Rightarrow> nd_perm pn = PERM_ROOT \<longrightarrow> \<not> protected_name (snd t))) \<and>
     (derive f = DERIVE_NONE \<or> uid = 0 \<or> rw_of (write_gid f) ps (multiuser_get_app_id uid) \<or>
      (case fst t of None \<Rightarrow> False | Some d \<Rightarrow>
         (case nodes_of f d of None \<Rightarrow> False | Some pn \<Rightarrow> nd_uid pn = uid)))"

section \<open>The calls of a handler\<close>

definition calls :: "(syscall \<Rightarrow> bool) \<Rightarrow> fuse \<Rightarrow> fuse \<Rightarrow> bool" where
  "calls P f f' \<longleftrightarrow> (\<exists>cs. sys_calls f' = sys_calls f @ cs \<and> list_all P cs)"

lemma calls_refl [simp]: "calls P f f"
  by (simp add: calls_def)

lemma calls_same: "sys_calls f' = sys_calls f \<Longrightarrow> calls P f f'"
  by (simp add: calls_def)

lemma calls_trans [trans]: "calls P f g \<Longrightarrow> calls P g h \<Longrightarrow> calls P f h"
  by (fastforce simp: calls_def)

lemma calls_mono: "calls P f g \<Longrightarrow> (\<And>c. P c \<Longrightarrow> Q c) \<Longrightarrow> calls Q f g"
  unfolding calls_def list_all_iff by blast

lemma calls_issue: "P c \<Longrightarrow> calls P f g \<Longrightarrow> calls P f (issue c g)"
  by (fastforce simp: calls_def issue_def)

lemma calls_reply [simp]:
  "calls P f (fuse_reply os u d l g) = calls P f g" "calls P f (fuse_status u e g) = calls P f g"
  "calls P f (g\<lparr>handle_heap := h\<rparr>) = calls P f g" "calls P f (g\<lparr>dir_heap := h\<rparr>) = calls P f g"
  by (simp_all add: calls_def fuse_reply_def fuse_status_def)

lemmas call_intros = calls_issue calls_refl

primrec un_ok :: "'a outcome \<Rightarrow> 'a" where
  "un_ok (Ok x) = x"
| "un_ok (Fault e) = undefined"

abbreviation harmless :: "syscall \<Rightarrow> bool" where
  "harmless c \<equiv> \<not> modifies c"

text \<open>The operations on the tree make no calls.\<close>

lemma node_calls [simp]:
  "sys_calls (set_node a n f) = sys_calls f" "sys_calls (free_node a f) = sys_calls f"
  by (simp_all add: set_node_def free_node_def)

lemma acquire_calls: "acquire_node_locked a f = Ok f' \<Longrightarrow> sys_calls f' = sys_calls f"
  by (auto simp: acquire_node_locked_def)

lemma add_calls: "add_node_to_parent_locked c p f = Ok f' \<Longrightarrow> sys_calls f' = sys_calls f"
  by (auto simp: add_node_to_parent_locked_def Let_def dest!: acquire_calls)

lemma unlink_loop_calls: "unlink_loop k b c f = Ok f' \<Longrightarrow> sys_calls f' = sys_calls f"
  by (induction k arbitrary: b) (auto split: if_splits option.splits)

lemma unlink_sibling_calls: "unlink_sibling p c f = Ok f' \<Longrightarrow> sys_calls f' = sys_calls f"
  by (auto simp: unlink_sibling_def split: if_splits option.splits dest!: unlink_loop_calls)

lemma release_remove_calls:
  "(\<forall>a f f'. release_node_locked k a f = Ok f' \<longrightarrow> sys_calls f' = sys_calls f) \<and>
   (\<forall>a f f'. remove_node_from_parent_locked k a f = Ok f' \<longrightarrow> sys_calls f' = sys_calls f)"
proof (induction k)
  case (Suc k)
  have "sys_calls f' = sys_calls f" if "release_node_locked (Suc k) a f = Ok f'" for a f f'
    using that Suc.IH by (auto simp: Let_def split: if_splits)
  moreover have "sys_calls f' = sys_calls f" if "remove_node_from_parent_locked (Suc k) a f = Ok f'" for a f f'
    using that Suc.IH by (auto dest!: unlink_sibling_calls split: option.splits)
  ultimately show ?case by blast
qed simp

lemmas release_calls = release_remove_calls [THEN conjunct1, rule_format] release_remove_calls [THEN conjunct2, rule_format]

lemma forget_calls: "forget_loop n a f = Ok f' \<Longrightarrow> sys_calls f' = sys_calls f"
  by (induction n arbitrary: f) (auto simp: release_def dest!: release_calls(1))

lemma create_calls:
  assumes "create_node_locked os p name actual_name f = Ok (r, f')"
  shows "sys_calls f' = sys_calls f"
proof (cases "os_node os = None \<or> \<not> os_name os \<or> name \<noteq> actual_name \<and> \<not> os_actual os")
  case True
  then have "create_node_locked os p name actual_name f = Ok (None, f)"
    by (cases "os_node os"; cases "os_name os") (auto simp: create_node_locked_def)
  then show ?thesis using assms by simp
next
  case False
  then obtain a where a: "os_node os = Some a" by auto
  define n where "n = blank_node\<lparr>nd_name := name,
      nd_actual_name := (if name \<noteq> actual_name then Some (take (length name) actual_name) else None),
      nd_namelen := of_nat (length name), nd_nid := ptr_to_id a, nd_gen := next_generation f\<rparr>"
  have "create_node_locked os p name actual_name f =
      obind (get_node (gen_next f) p) (\<lambda>pn. obind (derive_permissions_locked (gen_next f) pn n) (\<lambda>n1.
        obind (acquire_node_locked a (set_node a n1 (gen_next f))) (\<lambda>f2.
        obind (add_node_to_parent_locked a p f2) (\<lambda>f3. Ok (Some a, f3)))))"
    using False a unfolding create_node_locked_def n_def gen_next_def Let_def by auto
  note e = assms [unfolded this]
  have "sys_calls (gen_next f) = sys_calls f" by (simp add: gen_next_def)
  then show ?thesis using e by (auto dest!: acquire_calls add_calls)
qed

lemma reply_locked_calls: "reply_entry_locked os p name actual_name st f = Ok (r, f') \<Longrightarrow> sys_calls f' = sys_calls f"
  by (auto simp: reply_entry_locked_def acquire_or_create_child_locked_def split: option.splits
      dest!: acquire_calls create_calls)

lemma find_calls: "find_file_within os path name b srch f = (r, f') \<Longrightarrow> calls harmless f f'"
  by (auto simp: find_file_within_def Let_def split: if_splits option.splits intro!: call_intros)

lemma calls_lstat: "sys_calls g = sys_calls (issue (Lstat path) f) \<Longrightarrow> calls harmless f g"
  by (simp add: calls_def issue_def)

lemma reply_entry_calls: "fuse_reply_entry os u p name actual_name path f = Ok (res, f') \<Longrightarrow> calls harmless f f'"
  by (auto simp: fuse_reply_entry_def Let_def split: sum.splits option.splits dest!: reply_locked_calls calls_lstat
      intro: call_intros)

lemma reply_attr_calls: "fuse_reply_attr os u a path f = Ok (res, f') \<Longrightarrow> calls harmless f f'"
  by (auto simp: fuse_reply_attr_def Let_def split: sum.splits intro!: call_intros)

section \<open>The check\<close>

lemma name_allows:
  assumes "check_caller_access_to_name f hdr dn name mode rw" and "mode AND W_OK \<noteq> 0"
    and "get_caller_has_rw_locked f hdr = Ok rw" and "derive f \<noteq> DERIVE_NONE \<Longrightarrow> holds ps f"
    and "dn = (case d of None \<Rightarrow> None | Some a \<Rightarrow> nodes_of f a)" and "d \<noteq> None \<Longrightarrow> dn \<noteq> None"
  shows "may_modify ps f (hdr_uid hdr) (d, name)"
proof -
  have "rw \<longleftrightarrow> rw_of (write_gid f) ps (multiuser_get_app_id (hdr_uid hdr))" if "derive f \<noteq> DERIVE_NONE"
    using that assms(3) assms(4) [OF that] lookup_held(2) [of f hdr] by (auto simp: holds_def)
  then show ?thesis
    using assms(1,2,5,6)
    by (auto simp: may_modify_def protected_name_def check_caller_access_to_name_def split: option.splits if_splits)
qed

lemma lookup_by_id: "lookup_node_and_path_by_id_locked f nid = Ok (Some (a, path)) \<Longrightarrow> a = unat nid"
  by (auto simp: lookup_node_and_path_by_id_locked_def lookup_node_by_id_locked_def id_to_ptr_def root_ptr_def
      split: option.splits if_splits)

lemma node_allows:
  assumes "check_caller_access_to_node f hdr n mode rw = Ok True" and "mode AND W_OK \<noteq> 0"
    and "get_caller_has_rw_locked f hdr = Ok rw" and "derive f \<noteq> DERIVE_NONE \<Longrightarrow> holds ps f"
  shows "may_modify ps f (hdr_uid hdr) (nd_parent n, nd_name n)"
  using assms by (auto simp: check_caller_access_to_node_def get_node_nodes split: option.splits intro!: name_allows)

lemma open_mode: "flags AND O_ACCMODE \<noteq> O_RDONLY \<Longrightarrow> open_flags_to_access_mode flags AND W_OK \<noteq> 0"
  by (simp add: open_flags_to_access_mode_def)

section \<open>Each handler\<close>

definition granted :: "(string \<times> u32 \<times> string) list \<Rightarrow> fuse \<Rightarrow> fuse_in_header \<Rightarrow> request \<Rightarrow> syscall \<Rightarrow> bool" where
  "granted ps f hdr req c \<longleftrightarrow>
     (modifies c \<longrightarrow>
        targets f (unat (hdr_nodeid hdr)) req \<noteq> [] \<and>
        list_all (may_modify ps f (hdr_uid hdr)) (targets f (unat (hdr_nodeid hdr)) req))"

lemma harmless_granted: "calls harmless f g \<Longrightarrow> calls (granted ps f0 hdr req) f g"
  by (erule calls_mono) (simp add: granted_def)

lemma granted_entry:
  assumes "may_modify ps f (hdr_uid hdr) t" and "targets f (unat (hdr_nodeid hdr)) req = [t]"
  shows "granted ps f hdr req c"
  using assms by (simp add: granted_def)

lemma enter_child_grants:
  assumes ok: "enter_child os hdr name f = Ok (r, f1)" and h: "derive f \<noteq> DERIVE_NONE \<Longrightarrow> holds ps f"
  shows "calls harmless f f1" and "inner f1 = inner f"
    and "r = Inr (p, pn, actual_name, path) \<Longrightarrow> may_modify ps f (hdr_uid hdr) (Some (unat (hdr_nodeid hdr)), name)"
proof -
  obtain rw l where l: "get_caller_has_rw_locked f hdr = Ok rw" "lookup_node_and_path_by_id_locked f (hdr_nodeid hdr) = Ok l"
    using ok by (auto simp: enter_child_def)
  have "calls harmless f f1 \<and> inner f1 = inner f \<and>
    (\<forall>p pn actual_name path. r = Inr (p, pn, actual_name, path) \<longrightarrow>
       may_modify ps f (hdr_uid hdr) (Some (unat (hdr_nodeid hdr)), name))"
  proof (cases l)
    case None
    then show ?thesis using ok l by (auto simp: enter_child_def)
  next
    case (Some x)
    then obtain path where x: "l = Some (unat (hdr_nodeid hdr), path)" using l(2) lookup_by_id by (cases x) auto
    obtain w f2 where w: "find_file_within os path name PATH_MAX True f = (w, f2)" by fastforce
    have q: "inner f2 = inner f" by (rule inner_find [OF w])
    note sel = inner_sel [OF q]
    have ch: "check_caller_access_to_name f2 hdr x y z u = check_caller_access_to_name f hdr x y z u" for x y z u
      unfolding check_caller_access_to_name_def sel(5) ..
    show ?thesis
    proof (cases w)
      case None
      then show ?thesis using ok l x w q find_calls [OF w] by (auto simp: enter_child_def)
    next
      case (Some y)
      obtain pn where pn: "nodes_of f (unat (hdr_nodeid hdr)) = Some pn"
        using ok l x w Some sel(2) by (cases y) (auto simp: enter_child_def get_node_nodes split: option.splits)
      have "may_modify ps f (hdr_uid hdr) (Some (unat (hdr_nodeid hdr)), name)"
        if "check_caller_access_to_name f hdr (Some pn) name W_OK rw"
        by (rule name_allows [OF that _ l(1) h]) (simp_all add: pn)
      then show ?thesis
        using ok l x w Some pn q find_calls [OF w] sel(2)
        by (cases y) (auto simp: enter_child_def get_node_nodes ch split: if_splits)
    qed
  qed
  then show "calls harmless f f1" "inner f1 = inner f"
    "r = Inr (p, pn, actual_name, path) \<Longrightarrow> may_modify ps f (hdr_uid hdr) (Some (unat (hdr_nodeid hdr)), name)" by blast+
qed

lemma touch_calls: "touch os path mode f = (r, f') \<Longrightarrow> P (Open_new path mode) \<Longrightarrow> (\<And>fd. P (Close fd)) \<Longrightarrow> calls P f f'"
  by (auto simp: touch_def Let_def split: sum.splits intro!: call_intros)

lemma nomedia_calls: "nomedia os b dir f = (r, f') \<Longrightarrow> (\<And>c. P c) \<Longrightarrow> calls P f f'"
  by (auto simp: nomedia_def split: if_splits prod.splits intro: touch_calls)

lemma child_granted:
  assumes ok: "enter_child os hdr name f = Ok (Inr x, f1)" and h: "derive f \<noteq> DERIVE_NONE \<Longrightarrow> holds ps f"
    and t: "targets f (unat (hdr_nodeid hdr)) req = [(Some (unat (hdr_nodeid hdr)), name)]"
  shows "granted ps f hdr req c" and "calls (granted ps f hdr req) f f1"
proof -
  obtain p pn an path where x: "x = (p, pn, an, path)" by (cases x) auto
  show "granted ps f hdr req c" using enter_child_grants(3) [OF ok h] x by (intro granted_entry [OF _ t]) simp
  show "calls (granted ps f hdr req) f f1" by (rule harmless_granted [OF enter_child_grants(1) [OF ok h]])
qed

lemma child_request:
  assumes ok: "obind (enter_child os hdr name f) (\<lambda>(r, f1). case r of Inl e \<Rightarrow> Ok (e, f1) | Inr x \<Rightarrow> k x f1) = Ok (res, f')"
    and h: "derive f \<noteq> DERIVE_NONE \<Longrightarrow> holds ps f"
    and t: "targets f (unat (hdr_nodeid hdr)) req = [(Some (unat (hdr_nodeid hdr)), name)]"
    and k: "\<And>x f1. (\<And>c. granted ps f hdr req c) \<Longrightarrow> k x f1 = Ok (res, f') \<Longrightarrow> calls (granted ps f hdr req) f1 f'"
  shows "calls (granted ps f hdr req) f f'"
proof -
  obtain r f1 where e: "enter_child os hdr name f = Ok (r, f1)" using ok by auto
  show ?thesis
  proof (cases r)
    case (Inl err)
    then show ?thesis using e ok harmless_granted [OF enter_child_grants(1) [OF e h]] by simp
  next
    case (Inr x)
    note g = child_granted [OF e [unfolded Inr] h t]
    have "k x f1 = Ok (res, f')" using ok unfolding e Inr by simp
    then have "calls (granted ps f hdr req) f1 f'" using g(1) k by blast
    with g(2) show ?thesis by (rule calls_trans)
  qed
qed

lemma unlink_calls:
  assumes "handle_unlink os hdr name f = Ok (res, f')" and h: "derive f \<noteq> DERIVE_NONE \<Longrightarrow> holds ps f"
  shows "calls (granted ps f hdr (FUSE_UNLINK name)) f f'"
  using assms(1) unfolding handle_unlink_def
  by (rule child_request [OF _ h]) (auto split: sum.splits intro!: calls_issue)

lemma rmdir_calls:
  assumes "handle_rmdir os hdr name f = Ok (res, f')" and h: "derive f \<noteq> DERIVE_NONE \<Longrightarrow> holds ps f"
  shows "calls (granted ps f hdr (FUSE_RMDIR name)) f f'"
  using assms(1) unfolding handle_rmdir_def
  by (rule child_request [OF _ h]) (auto split: sum.splits intro!: calls_issue)

lemma mknod_calls:
  assumes "handle_mknod os hdr mode rdev name f = Ok (res, f')" and h: "derive f \<noteq> DERIVE_NONE \<Longrightarrow> holds ps f"
  shows "calls (granted ps f hdr (FUSE_MKNOD mode rdev name)) f f'"
  using assms(1) unfolding handle_mknod_def
proof (rule child_request [OF _ h targets.simps(3)])
  fix x f1
  let ?G = "granted ps f hdr (FUSE_MKNOD mode rdev name)"
  assume g: "\<And>c. ?G c"
    and ok: "(case x of (parent_node, pn, actual_name, child_path) \<Rightarrow>
       let c = Mknod child_path ((mode AND NOT o777) OR o664) rdev; f2 = issue c f1
       in case os_call os c of Inl e \<Rightarrow> Ok (- e, f2)
          | Inr _ \<Rightarrow> fuse_reply_entry os (hdr_unique hdr) parent_node name actual_name child_path f2) = Ok (res, f')"
  obtain p pn an path where x: "x = (p, pn, an, path)" by (cases x) auto
  let ?f = "issue (Mknod path ((mode AND NOT o777) OR o664) rdev) f1"
  have "f' = ?f \<or> fuse_reply_entry os (hdr_unique hdr) p name an path ?f = Ok (res, f')"
    using ok x by (auto simp: Let_def split: sum.splits)
  moreover have "calls ?G f1 ?f" by (rule calls_issue [of ?G]) (simp_all add: g)
  ultimately show "calls ?G f1 f'" using calls_trans harmless_granted [OF reply_entry_calls] by blast
qed

lemma mkdir_calls:
  assumes "handle_mkdir os hdr mode name f = Ok (res, f')" and h: "derive f \<noteq> DERIVE_NONE \<Longrightarrow> holds ps f"
  shows "calls (granted ps f hdr (FUSE_MKDIR mode name)) f f'"
  using assms(1) unfolding handle_mkdir_def
proof (rule child_request [OF _ h targets.simps(4)])
  fix x f1
  let ?G = "granted ps f hdr (FUSE_MKDIR mode name)"
  assume g: "\<And>c. ?G c"
    and ok: "(case x of (parent_node, pn, actual_name, child_path) \<Rightarrow>
       let c = Mkdir child_path ((mode AND NOT o777) OR o775); f2 = issue c f1
       in case os_call os c of Inl e \<Rightarrow> Ok (- e, f2)
          | Inr _ \<Rightarrow>
              (case nomedia os (nd_perm pn = PERM_ANDROID \<and> strcaseeq name ''data'') child_path f2 of
                 (True, f3) \<Rightarrow>
                   (case nomedia os (nd_perm pn = PERM_ANDROID \<and> strcaseeq name ''obb'') (obbpath f3) f3 of
                      (True, f4) \<Rightarrow> fuse_reply_entry os (hdr_unique hdr) parent_node name actual_name child_path f4
                    | (False, f4) \<Rightarrow> Ok (- ENOENT, f4))
               | (False, f3) \<Rightarrow> Ok (- ENOENT, f3))) = Ok (res, f')"
  obtain p pn an path where x: "x = (p, pn, an, path)" by (cases x) auto
  let ?f = "issue (Mkdir path ((mode AND NOT o777) OR o775)) f1"
  obtain b3 f3 where n3: "nomedia os (nd_perm pn = PERM_ANDROID \<and> strcaseeq name ''data'') path ?f = (b3, f3)" by fastforce
  obtain b4 f4 where n4: "nomedia os (nd_perm pn = PERM_ANDROID \<and> strcaseeq name ''obb'') (obbpath f3) f3 = (b4, f4)"
    by fastforce
  have c: "calls ?G f1 ?f" by (rule calls_issue [of ?G]) (simp_all add: g)
  have c3: "calls ?G f1 f3" using calls_trans [OF c] nomedia_calls [OF n3, of ?G] g by blast
  have c4: "calls ?G f1 f4" using calls_trans [OF c3] nomedia_calls [OF n4, of ?G] g by blast
  have "calls ?G f1 f'" if "fuse_reply_entry os (hdr_unique hdr) p name an path f4 = Ok (res, f')"
    by (rule calls_trans [OF c4 harmless_granted [OF reply_entry_calls [OF that]]])
  moreover have "f' = ?f \<or> f' = f3 \<or> f' = f4 \<or> fuse_reply_entry os (hdr_unique hdr) p name an path f4 = Ok (res, f')"
    using ok x n3 n4 by (cases b3; cases b4) (auto simp: Let_def split: sum.splits)
  ultimately show "calls ?G f1 f'" using c c3 c4 by blast
qed

text \<open>The requests about a node.\<close>

lemma setattr_calls:
  assumes ok: "handle_setattr os hdr sa f = Ok (res, f')" and h: "derive f \<noteq> DERIVE_NONE \<Longrightarrow> holds ps f"
  shows "calls (granted ps f hdr (FUSE_SETATTR sa)) f f'"
proof -
  let ?G = "granted ps f hdr (FUSE_SETATTR sa)" and ?a = "unat (hdr_nodeid hdr)"
  obtain rw l where l: "get_caller_has_rw_locked f hdr = Ok rw" "lookup_node_and_path_by_id_locked f (hdr_nodeid hdr) = Ok l"
    using ok by (auto simp: handle_setattr_def)
  show ?thesis
  proof (cases l)
    case None
    then show ?thesis using ok l by (auto simp: handle_setattr_def)
  next
    case (Some x)
    then obtain path where x: "l = Some (?a, path)" using l(2) lookup_by_id by (cases x) auto
    obtain n b where n: "nodes_of f ?a = Some n" "check_caller_access_to_node f hdr n W_OK rw = Ok b"
      using ok l x by (auto simp: handle_setattr_def get_node_nodes split: option.splits)
    show ?thesis
    proof (cases b)
      case False
      then show ?thesis using ok l x n by (auto simp: handle_setattr_def get_node_nodes)
    next
      case True
      then have yes: "check_caller_access_to_node f hdr n W_OK rw = Ok True" using n(2) by simp
      have g: "?G c" for c using node_allows [OF yes _ l(1) h] n(1) by (intro granted_entry) simp_all
      have r: "calls ?G f g \<Longrightarrow> fuse_reply_attr os (hdr_unique hdr) ?a path g = Ok (res, f') \<Longrightarrow> calls ?G f f'" for g
        using calls_trans harmless_granted [OF reply_attr_calls] by blast
      show ?thesis
        using ok l x n True g
        by (auto simp: handle_setattr_def get_node_nodes Let_def split: sum.splits if_splits intro!: calls_issue [of ?G] elim!: r [rotated])
    qed
  qed
qed

lemma open_calls:
  assumes ok: "handle_open os hdr flags f = Ok (res, f')" and h: "derive f \<noteq> DERIVE_NONE \<Longrightarrow> holds ps f"
  shows "calls (granted ps f hdr (FUSE_OPEN flags)) f f'"
proof -
  let ?G = "granted ps f hdr (FUSE_OPEN flags)" and ?a = "unat (hdr_nodeid hdr)"
  obtain rw l where l: "get_caller_has_rw_locked f hdr = Ok rw" "lookup_node_and_path_by_id_locked f (hdr_nodeid hdr) = Ok l"
    using ok by (auto simp: handle_open_def)
  show ?thesis
  proof (cases l)
    case None
    then show ?thesis using ok l by (auto simp: handle_open_def)
  next
    case (Some x)
    then obtain path where x: "l = Some (?a, path)" using l(2) lookup_by_id by (cases x) auto
    obtain n b where n: "nodes_of f ?a = Some n"
      "check_caller_access_to_node f hdr n (open_flags_to_access_mode flags) rw = Ok b"
      using ok l x by (auto simp: handle_open_def get_node_nodes split: option.splits)
    show ?thesis
    proof (cases b)
      case False
      then show ?thesis using ok l x n by (auto simp: handle_open_def get_node_nodes)
    next
      case True
      then have yes: "check_caller_access_to_node f hdr n (open_flags_to_access_mode flags) rw = Ok True" using n(2) by simp
      have "?G (Open path flags)"
        using node_allows [OF yes open_mode l(1) h] n(1) by (simp add: granted_def)
      then show ?thesis
        using ok l x n True
        by (auto simp: handle_open_def get_node_nodes Let_def split: sum.splits option.splits intro!: calls_issue [of ?G])
    qed
  qed
qed

section \<open>Renaming and the rest\<close>

lemma rename_child_calls: "rename_child p np npp old_name f = Ok (r, f') \<Longrightarrow> sys_calls f' = sys_calls f"
  by (auto simp: rename_child_def split: option.splits dest!: acquire_calls)

lemma rename_lookup_grants:
  assumes ok: "rename_lookup hdr newdir old_name new_name f = Ok (r, f')" and h: "derive f \<noteq> DERIVE_NONE \<Longrightarrow> holds ps f"
  shows "sys_calls f' = sys_calls f" and "r = Inr ctx \<Longrightarrow> granted ps f hdr (FUSE_RENAME newdir old_name new_name) c"
proof -
  let ?a = "unat (hdr_nodeid hdr)" and ?b = "unat newdir"
  obtain rw l1 l2 where l: "get_caller_has_rw_locked f hdr = Ok rw"
    "lookup_node_and_path_by_id_locked f (hdr_nodeid hdr) = Ok l1" "lookup_node_and_path_by_id_locked f newdir = Ok l2"
    using ok by (auto simp: rename_lookup_def)
  have "sys_calls f' = sys_calls f \<and> (\<forall>ctx. r = Inr ctx \<longrightarrow> granted ps f hdr (FUSE_RENAME newdir old_name new_name) c)"
  proof (cases "l1 = None \<or> l2 = None")
    case True
    then have "rename_lookup hdr newdir old_name new_name f = Ok (Inl (- ENOENT), f)"
      using l by (auto simp: rename_lookup_def split: option.splits)
    then show ?thesis using ok by auto
  next
    case False
    then obtain p1 q1 p2 q2 where p: "l1 = Some (p1, q1)" "l2 = Some (p2, q2)" by auto
    then have q: "l1 = Some (?a, q1)" "l2 = Some (?b, q2)" using l(2,3) lookup_by_id by simp_all
    obtain n1 n2 where n: "nodes_of f ?a = Some n1" "nodes_of f ?b = Some n2"
      using ok l q by (auto simp: rename_lookup_def get_node_nodes split: option.splits)
    have eq: "rename_lookup hdr newdir old_name new_name f =
        (if \<not> check_caller_access_to_name f hdr (Some n1) old_name W_OK rw then Ok (Inl (- EACCES), f)
         else if \<not> check_caller_access_to_name f hdr (Some n2) new_name W_OK rw then Ok (Inl (- EACCES), f)
         else rename_child ?a ?b q2 old_name f)"
      using l q n by (simp add: rename_lookup_def get_node_nodes)
    have "may_modify ps f (hdr_uid hdr) (Some d, name)"
      if "check_caller_access_to_name f hdr (Some n) name W_OK rw" "nodes_of f d = Some n" for d n name
      by (rule name_allows [OF that(1) _ l(1) h]) (simp_all add: that(2))
    then show ?thesis
      using ok n unfolding eq by (auto simp: granted_def split: if_splits dest!: rename_child_calls)
  qed
  then show "sys_calls f' = sys_calls f" "r = Inr ctx \<Longrightarrow> granted ps f hdr (FUSE_RENAME newdir old_name new_name) c" by blast+
qed

lemma rename_io_calls:
  assumes "rename_io os ctx old_name new_name f = (r, f')" and "\<And>c. granted ps f0 hdr req c"
  shows "calls (granted ps f0 hdr req) f f'"
proof -
  obtain w f1 where w: "find_file_within os (rn_new_parent_path ctx) new_name PATH_MAX
      (rn_old_parent ctx \<noteq> rn_new_parent ctx \<or> \<not> strcaseeq old_name new_name) f = (w, f1)" by fastforce
  have "calls (granted ps f0 hdr req) f f1" by (rule harmless_granted [OF find_calls [OF w]])
  then show ?thesis
    using assms w
    by (auto simp: rename_io_def Let_def split: option.splits sum.splits intro!: calls_issue [of "granted ps f0 hdr req"])
qed

lemma rename_node_calls:
  assumes "rename_node_locked os a name actual_name f = Ok (res, f')"
  shows "sys_calls f' = sys_calls f"
proof (cases "nodes_of f a")
  case (Some n)
  then have "\<exists>r n1. rename_node_locked os a name actual_name f = Ok (r, f) \<or>
      rename_node_locked os a name actual_name f = Ok (r, set_node a n1 f)"
    unfolding rename_node_locked_def by (simp add: get_node_ok Let_def) blast
  then show ?thesis using assms by auto
qed (use assms in \<open>simp add: rename_node_locked_def get_node_nodes\<close>)

lemma rename_finish_calls:
  assumes ok: "rename_finish os ctx new_name r f = Ok (res, f')"
  shows "sys_calls f' = sys_calls f"
proof -
  have fin: "sys_calls f' = sys_calls g" if "release (rn_child ctx) g = Ok f'" for g
    using that release_calls(1) by (simp add: release_def)
  show ?thesis
  proof (cases r)
    case (Inl e)
    then show ?thesis using ok fin by (auto simp: rename_finish_def)
  next
    case (Inr name)
    obtain res1 f1 where f1: "rename_node_locked os (rn_child ctx) new_name name f = Ok (res1, f1)"
      using ok Inr by (auto simp: rename_finish_def)
    note c1 = rename_node_calls [OF f1]
    show ?thesis
    proof (cases "res1 = 0")
      case False
      then show ?thesis using ok Inr f1 c1 fin by (auto simp: rename_finish_def)
    next
      case True
      obtain f2 where f2: "remove_node_from_parent_locked (node_fuel f1) (rn_child ctx) f1 = Ok f2"
        using ok Inr f1 True by (auto simp: rename_finish_def)
      obtain f3 where f3: "add_node_to_parent_locked (rn_child ctx) (rn_new_parent ctx) f2 = Ok f3"
        using ok Inr f1 f2 True by (auto simp: rename_finish_def)
      have "release (rn_child ctx) f3 = Ok f'" using ok Inr f1 f2 f3 True by (auto simp: rename_finish_def)
      then show ?thesis using fin add_calls [OF f3] release_calls(2) [OF f2] c1 by simp
    qed
  qed
qed

lemma rename_calls:
  assumes ok: "handle_rename os hdr newdir old_name new_name f = Ok (res, f')" and h: "derive f \<noteq> DERIVE_NONE \<Longrightarrow> holds ps f"
  shows "calls (granted ps f hdr (FUSE_RENAME newdir old_name new_name)) f f'"
proof -
  let ?G = "granted ps f hdr (FUSE_RENAME newdir old_name new_name)"
  obtain r f1 where l: "rename_lookup hdr newdir old_name new_name f = Ok (r, f1)" using ok by (auto simp: handle_rename_def)
  have c1: "calls ?G f f1" by (rule calls_same [OF rename_lookup_grants(1) [OF l h]])
  show ?thesis
  proof (cases r)
    case (Inl e)
    then show ?thesis using ok l c1 by (simp add: handle_rename_def)
  next
    case (Inr ctx)
    obtain w f2 where w: "rename_io os ctx old_name new_name f1 = (w, f2)" by fastforce
    have c2: "calls ?G f1 f2" by (rule rename_io_calls [OF w]) (rule rename_lookup_grants(2) [OF l h Inr])
    have "rename_finish os ctx new_name w f2 = Ok (res, f')" using ok l Inr w by (simp add: handle_rename_def)
    then have "calls ?G f2 f'" by (intro calls_same rename_finish_calls)
    then show ?thesis using calls_trans [OF calls_trans [OF c1 c2]] by blast
  qed
qed

lemma lookup_calls:
  assumes ok: "handle_lookup os hdr name f = Ok (res, f')"
  shows "calls harmless f f'"
proof -
  obtain l where l: "lookup_node_and_path_by_id_locked f (hdr_nodeid hdr) = Ok l" using ok by (auto simp: handle_lookup_def)
  show ?thesis
  proof (cases l)
    case (Some x)
    obtain p path where x: "l = Some (p, path)" using Some by (cases x) auto
    obtain w f1 where w: "find_file_within os path name PATH_MAX True f = (w, f1)" by fastforce
    have c: "calls harmless f f1" by (rule find_calls [OF w])
    show ?thesis
      using ok l x w c calls_trans [OF c reply_entry_calls]
      by (cases w) (auto simp: handle_lookup_def split: if_split_asm)
  qed (use ok l in \<open>simp add: handle_lookup_def\<close>)
qed

lemma getattr_calls: "handle_getattr os hdr f = Ok (res, f') \<Longrightarrow> calls harmless f f'"
  by (auto simp: handle_getattr_def split: option.split_asm prod.split_asm if_split_asm dest!: reply_attr_calls)

lemma forget_request_calls: "handle_forget hdr n f = Ok (res, f') \<Longrightarrow> calls harmless f f'"
  by (auto simp: handle_forget_def split: option.split_asm dest: forget_calls intro: calls_same)

lemma opendir_calls:
  assumes ok: "handle_opendir os hdr f = Ok (res, f')"
  shows "calls harmless f f'"
proof -
  obtain l where l: "lookup_node_and_path_by_id_locked f (hdr_nodeid hdr) = Ok l" using ok by (auto simp: handle_opendir_def)
  show ?thesis
  proof (cases l)
    case (Some x)
    obtain a path where x: "l = Some (a, path)" using Some by (cases x) auto
    obtain n b where n: "get_node f a = Ok n" "check_caller_access_to_node f hdr n R_OK False = Ok b"
      using ok l x by (auto simp: handle_opendir_def)
    show ?thesis
      using ok l x n
      by (cases b; cases "os_handle os"; cases "os_call os (Opendir path)")
        (auto simp: handle_opendir_def Let_def intro!: calls_issue)
  qed (use ok l in \<open>simp add: handle_opendir_def\<close>)
qed

lemma readdir_calls:
  assumes ok: "handle_readdir os hdr fh off f = Ok (res, f')"
  shows "calls harmless f f'"
proof -
  obtain d where d: "get_dirhandle f fh = Ok d" using ok by (auto simp: handle_readdir_def)
  show ?thesis
    using ok d by (cases "os_dirent os (Readdir d (off = 0))")
      (auto simp: handle_readdir_def Let_def split: if_split_asm intro!: calls_issue)
qed

lemma read_calls: "handle_read os hdr fh off sz f = Ok (res, f') \<Longrightarrow> calls harmless f f'"
  by (cases "get_handle f fh"; cases "os_pread os (Pread (un_ok (get_handle f fh)) sz off)")
    (auto simp: handle_read_def Let_def split: if_split_asm intro!: calls_issue)

lemma write_calls: "handle_write os hdr fh off buf f = Ok (res, f') \<Longrightarrow> calls harmless f f'"
  by (cases "get_handle f fh"; cases "os_call os (Pwrite (un_ok (get_handle f fh)) buf off)")
    (auto simp: handle_write_def Let_def intro!: calls_issue)

lemma fsync_calls: "handle_fsync os fh fl f = Ok (res, f') \<Longrightarrow> calls harmless f f'"
  by (cases "get_handle f fh"; cases "os_call os (Fsync (un_ok (get_handle f fh)) (fl AND 1 \<noteq> 0))")
    (auto simp: handle_fsync_def Let_def intro!: calls_issue)

lemma release_request_calls:
  "handle_release fh f = Ok (res, f') \<Longrightarrow> calls harmless f f'" "handle_releasedir fh f = Ok (res, f') \<Longrightarrow> calls harmless f f'"
  by (auto simp: handle_release_def handle_releasedir_def intro!: calls_issue)

lemma statfs_calls:
  assumes ok: "handle_statfs os hdr f = Ok (res, f')"
  shows "calls harmless f f'"
proof -
  obtain r where r: "node_path f root_ptr = Ok r" using ok by (auto simp: handle_statfs_def)
  show ?thesis
  proof (cases r)
    case (Some path)
    obtain n where n: "get_node f root_ptr = Ok n" using ok r Some by (auto simp: handle_statfs_def)
    show ?thesis
      using ok r Some n by (cases "os_statfs os (nd_name n)") (auto simp: handle_statfs_def Let_def intro!: calls_issue)
  qed (use ok r in \<open>simp add: handle_statfs_def\<close>)
qed

lemma request_granted:
  assumes ok: "handle_fuse_request os hdr req f = Ok (res, f')" and h: "derive f \<noteq> DERIVE_NONE \<Longrightarrow> holds ps f"
  shows "calls (granted ps f hdr req) f f'"
  using ok unfolding handle_fuse_request_def
  by (cases req) (auto simp: handle_flush_def handle_init_def intro: setattr_calls [OF _ h] open_calls [OF _ h]
      mknod_calls [OF _ h] mkdir_calls [OF _ h] unlink_calls [OF _ h] rmdir_calls [OF _ h] rename_calls [OF _ h]
      harmless_granted lookup_calls getattr_calls
      forget_request_calls opendir_calls readdir_calls read_calls write_calls fsync_calls release_request_calls statfs_calls)

end
