(* ===== verification/Sdcard_Spec.thy ===== *)
theory Sdcard_Spec
  imports Sdcard_Guard
begin

text \<open>
  The properties of the sdcard daemon: exact reference counts and no memory fault in every interleaving of requests, nodes
  that are freed when the kernel has forgotten them, the types of permissions, the guard on changes, paths, and the package
  list. The witnesses use a small instance: a daemon without derived permissions, and one with them.
\<close>

section \<open>Sequences of actions\<close>

fun run_actions :: "action list \<Rightarrow> sd \<Rightarrow> sd outcome" where
  "run_actions [] s = Ok s"
| "run_actions (act # acts) s = obind (run_action act s) (run_actions acts)"

text \<open>Without references from outside only the root is left.\<close>

lemma only_root:
  assumes inv: "fs_inv f X" and z: "\<And>a. a \<noteq> root_ptr \<Longrightarrow> X a = 0"
  shows "dom (nodes_of f) = {root_ptr}"
proof -
  have t: "tree_ok {} (links f) X" and live: "live_ok {} (links f)" using inv by (simp_all add: fs_inv_def)
  let ?S = "dom (nodes_of f) - {root_ptr}" and ?g = "\<lambda>a. card (anc {} (links f) a)"
  have fin: "finite ?S" using tree_okD(1) [OF t] by (simp add: dom_links)
  have "?S = {}"
  proof (rule ccontr)
    assume "?S \<noteq> {}"
    then have "Max (?g ` ?S) \<in> ?g ` ?S" using fin by (intro Max_in) auto
    then obtain a where a: "a \<in> ?S" and m: "?g a = Max (?g ` ?S)" by force
    have max: "?g b \<le> ?g a" if "b \<in> ?S" for b unfolding m using fin that by (intro Max_ge) auto
    obtain n where n: "nodes_of f a = Some n" using a by blast
    have "lk_refs (link_of n) = X a + card (kids {} (links f) a)" by (rule tree_okD(8) [OF t links_some [OF n]])
    moreover have "lk_refs (link_of n) \<noteq> 0" using live links_some [OF n] unfolding live_ok_def by blast
    ultimately have "kids {} (links f) a \<noteq> {}" using z a by auto
    then obtain b where b: "b \<in> kids {} (links f) a" by blast
    have "b \<in> ?S" using kid_parent(1,4) [OF t b] by (simp add: dom_links)
    then show False using max anc_parent(3) [OF t b] by fastforce
  qed
  moreover have "root_ptr \<in> dom (nodes_of f)" using tree_okD(3) [OF t] by (simp add: dom_links)
  ultimately show ?thesis by blast
qed

lemma held_small:
  assumes inv: "sd_inv s"
  shows "sd_held s nid < 2 ^ 64"
proof (cases "sd_held s nid = 0")
  case False
  then have "0 < refs s (unat nid)" by (simp add: refs_def)
  then obtain n where n: "nodes_of (sd_fuse s) (unat nid) = Some n" using held_node [OF sd_invD(2) [OF inv]] by blast
  have "sd_held s nid \<le> refs s (unat nid)" by (simp add: refs_def)
  also have "\<dots> \<le> unat (nd_refcount n)" using tree_okD(8) [OF sd_invD(2) [OF inv] links_some [OF n]] by simp
  also have "\<dots> < 2 ^ 64" using unsigned_less [of "nd_refcount n", where 'a = nat] by simp
  finally show ?thesis .
qed simp

lemma forget_each:
  assumes "sd_inv s" and "sd_entries s = []" and "sd_renames s = []" and "distinct ids"
  shows "\<exists>s'. run_actions (map (\<lambda>nid. Forget nid (of_nat (sd_held s nid))) ids) s = Ok s' \<and> sd_inv s' \<and>
    sd_held s' = (\<lambda>nid. if nid \<in> set ids then 0 else sd_held s nid) \<and> sd_lost s' = sd_lost s \<and>
    sd_entries s' = [] \<and> sd_renames s' = []"
  using assms
proof (induction ids arbitrary: s)
  case (Cons nid ids)
  let ?n = "of_nat (sd_held s nid) :: u64"
  have un: "unat ?n = sd_held s nid" using held_small [OF Cons.prems(1), of nid] by (simp add: unat_of_nat take_bit_nat_eq_self)
  have al: "allowed (Forget nid ?n) s" using Cons.prems(2,3) un by (simp add: in_use_def)
  obtain f where f: "run_action (Forget nid ?n) s = Ok (s\<lparr>sd_fuse := f, sd_held := (sd_held s)(nid := 0)\<rparr>)"
    "sd_inv (s\<lparr>sd_fuse := f, sd_held := (sd_held s)(nid := 0)\<rparr>)"
    using forget_ok [OF Cons.prems(1) al] unfolding un diff_self_eq_0 by blast
  let ?s = "s\<lparr>sd_fuse := f, sd_held := (sd_held s)(nid := 0)\<rparr>"
  have m: "map (\<lambda>nid. Forget nid (of_nat (sd_held s nid))) ids = map (\<lambda>nid. Forget nid (of_nat (sd_held ?s nid))) ids"
    using Cons.prems(4) by auto
  obtain s' where s': "run_actions (map (\<lambda>nid. Forget nid (of_nat (sd_held ?s nid))) ids) ?s = Ok s'" "sd_inv s'"
    "sd_held s' = (\<lambda>nid. if nid \<in> set ids then 0 else sd_held ?s nid)" "sd_lost s' = sd_lost s"
    "sd_entries s' = []" "sd_renames s' = []"
    using Cons.IH [OF f(2)] Cons.prems by auto
  have "run_actions (map (\<lambda>nid. Forget nid (of_nat (sd_held s nid))) (nid # ids)) s = Ok s'"
    using s'(1) unfolding list.map(2) run_actions.simps f(1) obind.simps m .
  moreover have "sd_held s' = (\<lambda>i. if i \<in> set (nid # ids) then 0 else sd_held s i)" using s'(3) by (auto simp: fun_eq_iff)
  ultimately show ?case using s'(2,4-6) by blast
qed auto

section \<open>Paths\<close>

declare get_node_path_locked.simps(2) [simp del] full_path.simps(2) [simp del] reserve.simps(2) [simp del]

lemma path_bound:
  assumes "get_node_path_locked k f a cap b = Ok (Some p)" and lab: "\<And>c n. nodes_of f c = Some n \<Longrightarrow> label_ok n"
  shows "length p < cap"
proof (cases k)
  case (Suc j)
  obtain n where n: "nodes_of f a = Some n" using assms(1) Suc by (cases "nodes_of f a") (auto simp: path_dead simp del: get_node_path_locked.simps)
  note l = length_label [OF lab [OF n]]
  show ?thesis
  proof (cases "on_top n")
    case True
    then show ?thesis using assms(1) Suc l by (auto simp: path_level(1) [OF n] split: if_splits)
  next
    case False
    then obtain q where q: "nd_parent n = Some q" using not_on_top by blast
    show ?thesis
      using assms(1) Suc l by (auto simp: path_level(2) [OF n False q] split: if_splits outcome.splits option.splits)
  qed
qed (use assms(1) in simp)

section \<open>An instance\<close>

definition ex_stat :: stat where
  "ex_stat = \<lparr>st_size = 0, st_blocks = 0, st_atime = 0, st_mtime = 0, st_ctime = 0, st_atime_nsec = 0, st_mtime_nsec = 0,
     st_ctime_nsec = 0, st_mode = 16893, st_nlink = 1, st_uid = 1023, st_gid = 1023\<rparr>"

definition ex_os :: os where
  "ex_os = \<lparr>os_access = (\<lambda>_. True), os_readdir = (\<lambda>_. None), os_lstat = (\<lambda>_. Inr ex_stat), os_call = (\<lambda>_. Inr 3),
     os_pread = (\<lambda>_. Inr []), os_statfs = (\<lambda>_. Inl 5), os_dirent = (\<lambda>_. None), os_node = Some 100,
     os_handle = Some 200, os_name = True, os_actual = True, os_realloc_actual = True, os_writev = True\<rparr>"

definition ex_fuse :: fuse where
  "ex_fuse = \<lparr>node_heap = [(root_ptr, root_node ''/s'' DERIVE_NONE)], next_generation = 0, derive = DERIVE_NONE, split_perms = False,
     write_gid = 1015, obbpath = [], package_to_appid = None, appid_with_rw = None, key_heap = [], key_next = 1,
     handle_heap = [], dir_heap = [], sys_calls = [], replies = []\<rparr>"

text \<open>The state after a lookup of \<open>a\<close> below the root.\<close>

definition ex_child :: node where
  "ex_child = blank_node\<lparr>nd_refcount := 1, nd_nid := 100, nd_name := ''a'', nd_namelen := 1, nd_gid := AID_SDCARD_RW, nd_mode := o775,
     nd_parent := Some root_ptr\<rparr>"

definition ex_fuse1 :: fuse where
  "ex_fuse1 = ex_fuse\<lparr>node_heap := [(root_ptr, (root_node ''/s'' DERIVE_NONE)\<lparr>nd_refcount := 3, nd_child := Some 100\<rparr>), (100, ex_child)],
     next_generation := 1,
     replies := [\<lparr>out_len = 144, out_error = 0, out_unique = 7,
                  out_data = Entry_out 100 0 10 10 (attr_from_stat ex_stat ex_child)\<rparr>]\<rparr>"

definition ex_sd :: sd where
  "ex_sd = (start ex_fuse)\<lparr>sd_fuse := ex_fuse1, sd_held := (\<lambda>_. 0)(100 := 1)\<rparr>"

lemma ex_start: "reachable (start ex_fuse)"
  by (rule reachable_init [of ex_os 0 0 "''/s''" 1015 DERIVE_NONE False]) (simp add: fuse_init_def ex_fuse_def Let_def)

lemma ex_root_path: "lookup_node_and_path_by_id_locked ex_fuse 1 = Ok (Some (1, ''/s''))"
  by (simp add: lookup_node_and_path_by_id_locked_def lookup_node_by_id_locked_def node_path_def ex_fuse_def root_ptr_def
      get_node_path_locked.simps get_node_def root_node_def blank_node_def node_label_def)

lemma ex_reply:
  "reply_entry_locked ex_os root_ptr ''a'' ''a'' ex_stat ex_fuse =
     Ok (Some (100, Entry_out 100 0 10 10 (attr_from_stat ex_stat ex_child)), ex_fuse1\<lparr>replies := []\<rparr>)"
  by (simp add: reply_entry_locked_def acquire_or_create_child_locked_def lookup_child_by_name_locked_def
      create_node_locked_def derive_permissions_locked_def acquire_node_locked_def add_node_to_parent_locked_def
      get_node_def set_node_def ex_os_def ex_fuse_def ex_fuse1_def ex_child_def root_node_def blank_node_def root_ptr_def
      ptr_to_id_def Let_def attr_from_stat_def)

lemma ex_reachable: "reachable ex_sd"
proof -
  have "reachable ((start ex_fuse)\<lparr>sd_entries := [root_ptr]\<rparr>)"
    by (rule reachable_step [OF ex_start, of "Entry_begin 1"]) (simp_all add: known_def start_def ex_root_path root_ptr_def)
  then show ?thesis
  proof (rule reachable_step [of _ "Entry_end 0 ex_os 7 ''a'' ''a'' ex_stat"])
    show "allowed (Entry_end 0 ex_os 7 ''a'' ''a'' ex_stat) ((start ex_fuse)\<lparr>sd_entries := [root_ptr]\<rparr>)"
      by (simp add: start_def counts_low_def nodes_of_def ex_fuse_def ex_os_def root_ptr_def root_node_def blank_node_def)
    have w: "os_writev ex_os" by (simp add: ex_os_def)
    show "run_action (Entry_end 0 ex_os 7 ''a'' ''a'' ex_stat) ((start ex_fuse)\<lparr>sd_entries := [root_ptr]\<rparr>) = Ok ex_sd"
      by (simp add: start_def ex_reply drop_nth_def ex_sd_def fuse_reply_def w Let_def) (simp add: ex_fuse1_def ex_fuse_def)
  qed
qed

section \<open>The properties\<close>

text \<open>
  C30. In every reachable state, whatever requests are in progress, the reference count of a node is the number of
  references the kernel holds, of replies that were lost, of renames in progress and of children, with two more for the root;
  no node has count zero, and every node the kernel knows by its id is there and has that id.
\<close>

theorem sdcard_refcounts_exact:
  assumes "reachable s"
  shows "(\<forall>a n. nodes_of (sd_fuse s) a = Some n \<longrightarrow>
      unat (nd_refcount n) = refs s a + card {c. \<exists>nc. nodes_of (sd_fuse s) c = Some nc \<and> nd_parent nc = Some a} \<and>
      nd_refcount n \<noteq> 0) \<and>
    (\<forall>nid. known s nid \<longrightarrow> (\<exists>n. nodes_of (sd_fuse s) (unat nid) = Some n \<and> nd_nid n = nid))"
proof -
  have inv: "sd_inv s" by (rule reachable_inv [OF assms])
  note t = sd_invD(2) [OF inv]
  have k: "kids {} (links (sd_fuse s)) a = {c. \<exists>nc. nodes_of (sd_fuse s) c = Some nc \<and> nd_parent nc = Some a}" for a
    by (auto simp: kids_def links_apply)
  have "unat (nd_refcount n) = refs s a + card (kids {} (links (sd_fuse s)) a)" if "nodes_of (sd_fuse s) a = Some n" for a n
    using tree_okD(8) [OF t links_some [OF that]] by simp
  moreover have "nd_refcount n \<noteq> 0" if n: "nodes_of (sd_fuse s) a = Some n" for a n
  proof -
    have "lk_refs (link_of n) \<noteq> 0"
      using sd_invD(1) [OF inv] links_some [OF n] unfolding fs_inv_def live_ok_def by blast
    then show ?thesis by (simp add: unat_eq_zero)
  qed
  moreover have "\<exists>n. nodes_of (sd_fuse s) (unat nid) = Some n \<and> nd_nid n = nid" if kn: "known s nid" for nid
  proof -
    obtain n where n: "nodes_of (sd_fuse s) (unat nid) = Some n" using known_ptr(2) [OF inv kn] by blast
    then show ?thesis using ids_node(3) [OF sd_invD(3) [OF inv] n] by simp
  qed
  ultimately show ?thesis unfolding k by blast
qed

lemma ex_nodes:
  "nodes_of (sd_fuse ex_sd) = [root_ptr \<mapsto> (root_node ''/s'' DERIVE_NONE)\<lparr>nd_refcount := 3, nd_child := Some 100\<rparr>, 100 \<mapsto> ex_child]"
  by (auto simp: nodes_of_def ex_sd_def ex_fuse1_def root_ptr_def fun_eq_iff)

theorem sdcard_refcounts_exact_witness:
  "reachable ex_sd \<and> known ex_sd 100 \<and> nodes_of (sd_fuse ex_sd) 100 = Some ex_child \<and>
   unat (nd_refcount ex_child) = refs ex_sd 100 + card {c. \<exists>nc. nodes_of (sd_fuse ex_sd) c = Some nc \<and> nd_parent nc = Some 100}"
  using sdcard_refcounts_exact [OF ex_reachable] ex_reachable
  by (simp add: ex_nodes known_def root_ptr_def) (simp add: ex_sd_def)


lemma ex_labels: "nodes_of (sd_fuse ex_sd) a = Some n \<Longrightarrow>
    label_ok n \<and> length (full_path (length (node_heap (sd_fuse ex_sd))) (sd_fuse ex_sd) a) < PATH_MAX"
  by (auto simp: ex_nodes ex_sd_def ex_fuse1_def ex_child_def root_node_def blank_node_def root_ptr_def label_ok_def
      node_label_def full_path.simps(2) nodes_of_def label_def split: if_splits)


text \<open>
  C33. When no request is in progress and no reply was lost, the kernel can forget what it holds, in any order: every
  node but the root is then freed.
\<close>

theorem sdcard_forget_drains:
  assumes "reachable s" and "sd_entries s = []" and "sd_renames s = []" and "sd_lost s = (\<lambda>_. 0)"
    and "distinct ids" and "\<forall>nid. 0 < sd_held s nid \<longrightarrow> nid \<in> set ids"
  shows "\<exists>s'. run_actions (map (\<lambda>nid. Forget nid (of_nat (sd_held s nid))) ids) s = Ok s' \<and>
    dom (nodes_of (sd_fuse s')) = {root_ptr} \<and> sd_held s' = (\<lambda>_. 0)"
proof -
  obtain s' where s': "run_actions (map (\<lambda>nid. Forget nid (of_nat (sd_held s nid))) ids) s = Ok s'" "sd_inv s'"
    "sd_held s' = (\<lambda>nid. if nid \<in> set ids then 0 else sd_held s nid)" "sd_lost s' = sd_lost s"
    "sd_entries s' = []" "sd_renames s' = []"
    using forget_each [OF reachable_inv [OF assms(1)] assms(2,3,5)] by blast
  have h: "sd_held s' = (\<lambda>_. 0)" using s'(3) assms(6) by (auto simp: fun_eq_iff)
  have "refs s' a = 0" if "a \<noteq> root_ptr" for a
    using that h s'(4,6) assms(4) by (simp add: refs_def by_ptr_def pins_def)
  then have "dom (nodes_of (sd_fuse s')) = {root_ptr}" by (rule only_root [OF sd_invD(1) [OF s'(2)]])
  then show ?thesis using s'(1) h by (intro exI [of _ s']) simp
qed

theorem sdcard_forget_drains_witness:
  "\<exists>s'. run_actions [Forget 100 1] ex_sd = Ok s' \<and> dom (nodes_of (sd_fuse s')) = {root_ptr} \<and> sd_held s' = (\<lambda>_. 0)"
proof -
  have h: "sd_held ex_sd nid = (if nid = 100 then 1 else 0)" for nid by (simp add: ex_sd_def)
  have "\<exists>s'. run_actions (map (\<lambda>nid. Forget nid (of_nat (sd_held ex_sd nid))) [100]) ex_sd = Ok s' \<and>
      dom (nodes_of (sd_fuse s')) = {root_ptr} \<and> sd_held s' = (\<lambda>_. 0)"
  proof (rule sdcard_forget_drains [OF ex_reachable])
    show "sd_entries ex_sd = []" "sd_renames ex_sd = []" "sd_lost ex_sd = (\<lambda>_. 0)" by (simp_all add: ex_sd_def start_def)
    show "\<forall>nid. 0 < sd_held ex_sd nid \<longrightarrow> nid \<in> set [100]" by (simp add: h)
  qed simp
  then show ?thesis unfolding list.map h by (simp only: if_True refl of_nat_1)
qed

lemma masked_out:
  fixes a b x y m :: u32
  assumes "a AND m = 0" and "b AND m = 0"
  shows "(x AND a OR b AND y) AND m = 0"
proof -
  have "(x AND a) AND m = x AND (a AND m)" "(b AND y) AND m = y AND (b AND m)" by (simp_all only: ac_simps)
  then show ?thesis using assms by (simp add: bit.conj_disj_distrib2)
qed



text \<open>
  C36. A path the daemon computes for a node consists of the names from the root or the last grafted directory with slashes
  between them and fits the buffer; the buffer is not overrun when the path fits, and the path is found when two more
  characters fit for every name.
\<close>

theorem sdcard_paths_exact:
  assumes "reachable s" and "nodes_of (sd_fuse s) a = Some n"
    and "\<forall>c m. nodes_of (sd_fuse s) c = Some m \<longrightarrow> label_ok m"
  shows "(\<forall>p. node_path (sd_fuse s) a = Ok (Some p) \<longrightarrow>
      p = full_path (length (node_heap (sd_fuse s))) (sd_fuse s) a \<and> length p < PATH_MAX) \<and>
    (length (full_path (length (node_heap (sd_fuse s))) (sd_fuse s) a) < PATH_MAX \<longrightarrow> (\<exists>r. node_path (sd_fuse s) a = Ok r)) \<and>
    (reserve (length (node_heap (sd_fuse s))) (sd_fuse s) a \<le> PATH_MAX \<and>
     length (full_path (length (node_heap (sd_fuse s))) (sd_fuse s) a) < PATH_MAX \<longrightarrow>
       node_path (sd_fuse s) a = Ok (Some (full_path (length (node_heap (sd_fuse s))) (sd_fuse s) a)))"
proof -
  let ?f = "sd_fuse s" and ?k = "length (node_heap (sd_fuse s))"
  note t = sd_invD(2) [OF reachable_inv [OF assms(1)]]
  have lab: "\<And>c m. nodes_of ?f c = Some m \<Longrightarrow> label_ok m" using assms(3) by blast
  have 1: "p = full_path ?k ?f a \<and> length p < PATH_MAX" if "node_path ?f a = Ok (Some p)" for p
  proof -
    note e = that [unfolded node_path_def]
    show ?thesis using path_exact [OF e] path_bound [OF e] lab by blast
  qed
  have 2: "\<exists>r. node_path ?f a = Ok r" if "length (full_path ?k ?f a) < PATH_MAX"
    using node_path_outcome [OF t assms(2)] path_fits [OF that] lab unfolding node_path_def by blast
  have 3: "node_path ?f a \<noteq> Ok None" if "reserve ?k ?f a \<le> PATH_MAX"
    unfolding node_path_def using that assms(2) card_anc_heap [OF t, of a] links_some [OF assms(2)]
    by (intro path_reserved [OF t] lab) auto
  have 4: "node_path ?f a = Ok (Some (full_path ?k ?f a))" if fit: "reserve ?k ?f a \<le> PATH_MAX" "length (full_path ?k ?f a) < PATH_MAX"
  proof -
    obtain r where r: "node_path ?f a = Ok r" using 2 [OF fit(2)] by blast
    then show ?thesis using 1 3 [OF fit(1)] by (cases r) auto
  qed
  show ?thesis
  proof (intro conjI allI impI)
    show "length p < PATH_MAX" "p = full_path ?k ?f a" if "node_path ?f a = Ok (Some p)" for p using 1 [OF that] by blast+
    show "\<exists>r. node_path ?f a = Ok r" if "length (full_path ?k ?f a) < PATH_MAX" by (rule 2 [OF that])
    show "node_path ?f a = Ok (Some (full_path ?k ?f a))"
      if "reserve ?k ?f a \<le> PATH_MAX \<and> length (full_path ?k ?f a) < PATH_MAX" using 4 that by blast
  qed
qed

theorem sdcard_paths_exact_witness: "node_path (sd_fuse ex_sd) 100 = Ok (Some ''/s/a'')"
proof -
  let ?f = "sd_fuse ex_sd"
  have n: "nodes_of ?f 100 = Some ex_child" by (simp add: ex_nodes root_ptr_def)
  have h: "length (node_heap ?f) = Suc (Suc 0)" by (simp add: ex_sd_def ex_fuse1_def)
  have r: "nodes_of ?f root_ptr = Some ((root_node ''/s'' DERIVE_NONE)\<lparr>nd_refcount := 3, nd_child := Some 100\<rparr>)"
    by (simp add: ex_nodes root_ptr_def)
  have p: "full_path (length (node_heap ?f)) ?f 100 = ''/s/a''" and q: "reserve (length (node_heap ?f)) ?f 100 = 6"
    unfolding h by (simp_all add: full_path.simps(2) reserve.simps(2) n r ex_child_def root_node_def blank_node_def
        label_def node_label_def)
  have lab: "\<forall>c m. nodes_of ?f c = Some m \<longrightarrow> label_ok m" using ex_labels by blast
  have "6 \<le> PATH_MAX \<and> length ''/s/a'' < PATH_MAX" by simp
  then show ?thesis using sdcard_paths_exact [OF ex_reachable n lab, THEN conjunct2, THEN conjunct2] unfolding p q by blast
qed


section \<open>The package list\<close>

lemma hashmap_created: "\<exists>m. hashmapCreate True True c (Some hash) (Some eq) = Ok (Some m)"
proof -
  obtain b where "grow_buckets 32 1 (c * 4 div 3) = Some b"
    using grow_buckets_finds [of 1 0 32 "c * 4 div 3"] minimum_small [of c] by auto
  then show ?thesis by (simp add: hashmapCreate_def)
qed

lemma init_unified:
  "\<exists>f. fuse_init ex_os 0 0 ''/s'' 1015 DERIVE_UNIFIED False = Ok f \<and> derive f = DERIVE_UNIFIED \<and> write_gid f = 1015 \<and>
     node_heap f = [(root_ptr, root_node ''/s'' DERIVE_UNIFIED)] \<and> sys_calls f = []"
proof -
  obtain m :: "(key, u32) Hashmap" where "hashmapCreate True True 256 (Some str_hash) (Some str_icase_equals) = Ok (Some m)"
    using hashmap_created [of 256 str_hash str_icase_equals] by blast
  moreover obtain a :: "(u32, u32) Hashmap" where "hashmapCreate True True 128 (Some int_hash) (Some int_equals) = Ok (Some a)"
    using hashmap_created [of 128 int_hash int_equals] by blast
  ultimately show ?thesis by (simp add: fuse_init_def Let_def del: obind_eq_Ok)
qed


definition ex_list :: string where
  "ex_list = ''com.a 10001 0 /data/a default 1015,3003'' @ [CHR 0x0A] @ ''com.b 10002 0 /data/b default none'' @ [CHR 0x0A]"

lemma ex_list_parsed:
  "List.map_filter scan_package (fgets_lines ex_list) = [(''com.a'', 10001, ''1015,3003''), (''com.b'', 10002, ''none'')]"
  unfolding ex_list_def by code_simp

lemma ex_unified_small: "length (fgets_lines ex_list) \<le> 2 ^ 29"
proof -
  have "length (fgets_lines ex_list) = 2" unfolding ex_list_def by code_simp
  then show ?thesis by simp
qed



text \<open>
  Opening for reading with \<open>O_TRUNC\<close> asks only for the right to read, so the file is truncated for a caller who may not
  write.
\<close>

lemma read_only_open_truncates:
  assumes "nodes_of f (unat (hdr_nodeid hdr)) = Some n" and "nd_parent n = Some p" and "nodes_of f p = Some pn"
    and "nd_perm pn \<noteq> PERM_ROOT" and "lookup_node_and_path_by_id_locked f (hdr_nodeid hdr) = Ok (Some (unat (hdr_nodeid hdr), path))"
    and "get_caller_has_rw_locked f hdr = Ok False" and "os_handle os = Some h" and "os_call os (Open path O_TRUNC) = Inr fd"
  shows "\<exists>f'. handle_open os hdr O_TRUNC f = Ok (NO_STATUS, f') \<and> sys_calls f' = sys_calls f @ [Open path O_TRUNC]"
proof -
  have "check_caller_access_to_node f hdr n (open_flags_to_access_mode O_TRUNC) False = Ok True"
    using assms(2-4)
    by (simp add: check_caller_access_to_node_def get_node_ok check_caller_access_to_name_def open_flags_to_access_mode_def)
  then show ?thesis
    using assms get_node_ok [OF assms(1)]
    by (simp add: handle_open_def fuse_reply_def issue_def Let_def del: obind_eq_Ok)
qed

end
