(* ===== verification/Spec2Isabelle.thy ===== *)
theory Spec2Isabelle
  imports Sparse_Roundtrip Sparse_Resparse Camera_Metadata_Spec Str_Parms_Spec Sdcard_Spec
begin

text \<open>
  Parts of the Android 4.4 \<open>system/\<close> tree.
\<close>

end
